(* ===== verification/Prelude.thy ===== *)
theory Prelude
  imports Complex_Main "HOL-Library.Char_ord" "HOL-Library.List_Lexorder"
    "HOL-Library.Product_Lexorder" "HOL-Library.Sublist" "HOL-Library.Multiset"
begin

section \<open>Shared vocabulary of the development\<close>

text \<open>
  What every component of the model shares: the Python string and list operations the
  source uses (\<open>str.strip\<close>, truthiness of an optional string, slices from the end),
  generic lemmas about lists, and the locales that state the contracts several components
  have in common.

  Strings are \<open>char\<close> lists; a \<open>char\<close> stands for the code point with the same
  number (0 to 255), so every ASCII text is itself.  Python's \<open>None\<close> and the empty
  string are identified wherever the source reads the value only through
  \<open>value or ""\<close>.  Sort keys and scores, Python floats, are exact rationals.
\<close>

named_theorems str_simps \<open>facts about stripping and blank strings\<close>
named_theorems slice_simps \<open>facts about Python slices\<close>

subsection \<open>Strings\<close>

text \<open>
  The characters \<open>str.strip()\<close> removes (\<open>STRIP_WHITESPACE\<close> of
  core/canonical\_turns.py), restricted to the code points a \<open>char\<close> can be.
\<close>

definition is_py_space :: "char \<Rightarrow> bool" where
  "is_py_space c \<longleftrightarrow>
     (let n = (of_char c :: nat)
      in (9 \<le> n \<and> n \<le> 13) \<or> (28 \<le> n \<and> n \<le> 32) \<or> n = 133 \<or> n = 160)"

definition lstrip :: "string \<Rightarrow> string" where
  "lstrip s = dropWhile is_py_space s"

definition strip :: "string \<Rightarrow> string" where
  "strip s = rev (dropWhile is_py_space (rev (lstrip s)))"

text \<open>\<open>first or second\<close> on strings: the empty string is falsy.\<close>

definition str_or :: "string \<Rightarrow> string \<Rightarrow> string" where
  "str_or a b = (if a = [] then b else a)"

definition starts_with :: "string \<Rightarrow> string \<Rightarrow> bool" where
  "starts_with s p \<longleftrightarrow> take (length p) s = p"

text \<open>\<open>str.lower\<close> and \<open>str.casefold\<close>, which agree on ASCII letters; other characters are kept.\<close>

definition lower_char :: "char \<Rightarrow> char" where
  "lower_char c = (let n = (of_char c :: nat) in if 65 \<le> n \<and> n \<le> 90 then char_of (n + 32) else c)"

definition lower :: "string \<Rightarrow> string" where
  "lower s = map lower_char s"

definition is_digit :: "char \<Rightarrow> bool" where
  "is_digit c \<longleftrightarrow> (let n = (of_char c :: nat) in 48 \<le> n \<and> n \<le> 57)"

text \<open>\<open>int(s)\<close> on a string of ASCII digits.\<close>

definition digits_value :: "string \<Rightarrow> nat" where
  "digits_value s = foldl (\<lambda>acc c. 10 * acc + ((of_char c :: nat) - 48)) 0 s"

lemma lower_char_idem [simp]: "lower_char (lower_char c) = lower_char c"
proof -
  have "(of_char (char_of (m::nat) :: char) :: nat) = m mod 256" for m
    by simp
  then show ?thesis by (auto simp: lower_char_def Let_def)
qed

lemma lower_idem [simp]: "lower (lower s) = lower s"
  by (simp add: lower_def comp_def)

lemma str_or_simps [simp]: "str_or [] b = b" "a \<noteq> [] \<Longrightarrow> str_or a b = a" "str_or a [] = a"
  by (simp_all add: str_or_def)

lemma dropWhile_rev_eq_Nil: "dropWhile P (rev xs) = [] \<longleftrightarrow> (\<forall>x\<in>set xs. P x)"
  by (simp add: dropWhile_eq_Nil_conv)

lemma strip_eq_Nil [str_simps]: "strip s = [] \<longleftrightarrow> (\<forall>c\<in>set s. is_py_space c)"
proof
  assume "strip s = []"
  then have *: "\<forall>c\<in>set (dropWhile is_py_space s). is_py_space c"
    by (simp add: strip_def lstrip_def dropWhile_rev_eq_Nil)
  show "\<forall>c\<in>set s. is_py_space c"
  proof (rule ccontr)
    assume "\<not> (\<forall>c\<in>set s. is_py_space c)"
    then have ne: "dropWhile is_py_space s \<noteq> []" by (auto simp: dropWhile_eq_Nil_conv)
    then have "\<not> is_py_space (hd (dropWhile is_py_space s))" by (rule hd_dropWhile)
    with * ne show False by (meson hd_in_set)
  qed
next
  assume "\<forall>c\<in>set s. is_py_space c"
  then show "strip s = []"
    unfolding strip_def lstrip_def by (auto dest: set_dropWhileD)
qed

lemma strip_Nil [simp, str_simps]: "strip [] = []"
  by (simp add: strip_def lstrip_def)

lemma strip_not_Nil [str_simps]: "strip s \<noteq> [] \<Longrightarrow> s \<noteq> []"
  by auto

lemma dropWhile_hd_id: "xs = [] \<or> \<not> P (hd xs) \<Longrightarrow> dropWhile P xs = xs"
  by (cases xs) auto

lemma strip_ends:
  assumes "strip s \<noteq> []"
  shows "\<not> is_py_space (hd (strip s)) \<and> \<not> is_py_space (last (strip s))"
proof -
  let ?l = "lstrip s" and ?d = "dropWhile is_py_space (rev (lstrip s))"
  from assms have dne: "?d \<noteq> []" by (simp add: strip_def)
  then have lst: "\<not> is_py_space (hd ?d)" by (rule hd_dropWhile)
  have "rev ?l = takeWhile is_py_space (rev ?l) @ ?d" by simp
  then have split: "?l = rev ?d @ rev (takeWhile is_py_space (rev ?l))"
    by (metis rev_append rev_rev_ident)
  have "?l \<noteq> []" using dne by auto
  then have "\<not> is_py_space (hd ?l)"
    unfolding lstrip_def by (rule hd_dropWhile)
  moreover have "hd ?l = hd (rev ?d)" using split dne
    by (metis hd_append2 rev_is_Nil_conv)
  ultimately show ?thesis using lst dne by (simp add: strip_def last_rev)
qed

lemma strip_idem [simp, str_simps]: "strip (strip s) = strip s"
proof (cases "strip s = []")
  case False
  with strip_ends[of s] have "lstrip (strip s) = strip s"
    and "dropWhile is_py_space (rev (strip s)) = rev (strip s)"
    by (auto simp: lstrip_def hd_rev intro!: dropWhile_hd_id)
  then show ?thesis by (simp add: strip_def[of "strip s"])
qed simp

subsection \<open>Lists the Python way\<close>

text \<open>\<open>xs[a:a + n]\<close> for non-negative bounds, and \<open>xs[-n:]\<close> for positive \<open>n\<close>.\<close>

definition slice :: "nat \<Rightarrow> nat \<Rightarrow> 'a list \<Rightarrow> 'a list" where
  "slice a n xs = take n (drop a xs)"

definition take_last :: "nat \<Rightarrow> 'a list \<Rightarrow> 'a list" where
  "take_last n xs = drop (length xs - n) xs"

lemma length_slice [simp, slice_simps]: "length (slice a n xs) = min n (length xs - a)"
  by (simp add: slice_def)

lemma slice_0 [simp, slice_simps]: "slice a 0 xs = []"
  by (simp add: slice_def)

lemma nth_slice [slice_simps]:
  "i < n \<Longrightarrow> a + i < length xs \<Longrightarrow> slice a n xs ! i = xs ! (a + i)"
  by (simp add: slice_def)

lemma slice_eq_iff:
  assumes "a + n \<le> length xs" "b + n \<le> length ys"
  shows "slice a n xs = slice b n ys \<longleftrightarrow> (\<forall>i<n. xs ! (a + i) = ys ! (b + i))"
  using assms by (auto simp: list_eq_iff_nth_eq nth_slice)

lemma map_slice [slice_simps]: "map f (slice a n xs) = slice a n (map f xs)"
  by (simp add: slice_def take_map drop_map)

lemma take_slice_drop [slice_simps]:
  "a + n \<le> length xs \<Longrightarrow> take a xs @ slice a n xs @ drop (a + n) xs = xs"
  by (metis add.commute append_take_drop_id drop_drop slice_def)

lemma length_take_last [simp, slice_simps]: "length (take_last n xs) = min n (length xs)"
  by (simp add: take_last_def)

lemma take_last_append [slice_simps]:
  "n \<le> length ys \<Longrightarrow> take_last n (xs @ ys) = take_last n ys"
  by (simp add: take_last_def)

lemma set_take_last: "set (take_last n xs) \<subseteq> set xs"
  by (simp add: take_last_def set_drop_subset)

lemma rev_take_last: "rev (take_last n xs) = take n (rev xs)"
  by (cases "n \<le> length xs") (simp_all add: take_last_def rev_drop)

lemma length_concat_le:
  "\<forall>g\<in>set gs. length g \<le> k \<Longrightarrow> length (concat gs) \<le> k * length gs"
  by (induction gs) auto

lemma length_le_concat: "[] \<notin> set gs \<Longrightarrow> length gs \<le> length (concat gs)"
proof (induction gs)
  case (Cons g gs)
  then have "1 \<le> length g" by (cases g) auto
  moreover have "length gs \<le> length (concat gs)" using Cons by simp
  ultimately show ?case by simp
qed simp

lemma sorted_wrt_less_distinct: "sorted_wrt (<) (xs :: 'a :: linorder list) \<Longrightarrow> distinct xs"
  by (simp add: strict_sorted_iff)

lemma strict_sorted_insort_append:
  "sorted_wrt (<) (xs @ ys) \<Longrightarrow> \<forall>x\<in>set xs. x < (k::'a::linorder) \<Longrightarrow> \<forall>y\<in>set ys. k < y
    \<Longrightarrow> sorted_wrt (<) (xs @ k # ys)"
  by (auto simp: sorted_wrt_append)

lemma distinct_map_sort_key [simp]: "distinct (map f (sort_key k xs)) = distinct (map f xs)"
  by (rule mset_eq_imp_distinct_iff) simp

subsection \<open>Sets of strings and rankings\<close>

text \<open>A set of strings is iterated in the order of an arbitrary hash \<open>h\<close>.\<close>

definition set_order :: "(string \<Rightarrow> nat) \<Rightarrow> string list \<Rightarrow> string list" where
  "set_order h xs = sort_key h (remdups xs)"

lemma set_order_set [simp]: "set (set_order h xs) = set xs" "distinct (set_order h xs)"
  by (simp_all add: set_order_def)

text \<open>\<open>sorted(xs, key=f, reverse=True)\<close>: descending, elements with equal keys keep their order.\<close>

definition sort_desc :: "('a \<Rightarrow> 'b :: linordered_ab_group_add) \<Rightarrow> 'a list \<Rightarrow> 'a list" where
  "sort_desc f xs = sort_key (\<lambda>x. - f x) xs"

lemma set_sort_desc [simp]: "set (sort_desc f xs) = set xs"
  by (simp add: sort_desc_def)

lemma mset_sort_desc [simp]: "mset (sort_desc f xs) = mset xs"
  by (simp add: sort_desc_def)

lemma length_sort_desc [simp]: "length (sort_desc f xs) = length xs"
  by (simp add: sort_desc_def)

lemma distinct_sort_desc [simp]: "distinct (sort_desc f xs) = distinct xs"
  by (simp add: sort_desc_def)

lemma sort_desc_sorted: "sorted_wrt (\<lambda>x y. f x \<ge> f y) (sort_desc f xs)"
proof -
  have "sorted (map (\<lambda>x. - f x) (sort_desc f xs))" unfolding sort_desc_def by (rule sorted_sort_key)
  then show ?thesis by (simp add: sorted_wrt_map)
qed

lemma sort_desc_stable: "filter (\<lambda>x. f x = v) (sort_desc f xs) = filter (\<lambda>x. f x = v) xs"
  using sort_key_stable[of "\<lambda>x. - f x" "- v" xs] by (simp add: sort_desc_def)

lemma sort_desc_unique:
  assumes "mset ys = mset xs" "\<And>k. k \<in> set ys \<Longrightarrow> filter (\<lambda>x. f x = f k) ys = filter (\<lambda>x. f x = f k) xs"
    and "sorted_wrt (\<lambda>x y. f x \<ge> f y) ys"
  shows "sort_desc f xs = ys"
  unfolding sort_desc_def
proof (rule properties_for_sort_key[OF assms(1)])
  show "filter (\<lambda>x. - f k = - f x) ys = filter (\<lambda>x. - f k = - f x) xs" if "k \<in> set ys" for k
    using assms(2)[OF that] by (simp add: eq_commute[of "f k"])
  show "sorted (map (\<lambda>x. - f x) ys)" using assms(3) by (simp add: sorted_wrt_map)
qed

subsection \<open>Dictionaries of lists\<close>

text \<open>An insertion-ordered dict of lists: \<open>setdefault(key, []).append(value)\<close>.\<close>

fun setdefault_append :: "('k \<times> 'v list) list \<Rightarrow> 'k \<Rightarrow> 'v \<Rightarrow> ('k \<times> 'v list) list" where
  "setdefault_append [] k v = [(k, [v])]"
| "setdefault_append ((k', vs) # m) k v =
     (if k' = k then (k', vs @ [v]) # m else (k', vs) # setdefault_append m k v)"

lemma keys_setdefault_append:
  "set (map fst (setdefault_append m k v)) = insert k (set (map fst m))"
  "distinct (map fst m) \<Longrightarrow> distinct (map fst (setdefault_append m k v))"
  by (induction m k v rule: setdefault_append.induct) auto

lemma setdefault_append_mset:
  "mset (concat (map snd (setdefault_append m k v))) = add_mset v (mset (concat (map snd m)))"
  by (induction m k v rule: setdefault_append.induct) auto

lemma fold_setdefault_mset:
  "mset (concat (map snd (fold (\<lambda>r m. setdefault_append m (f r) r) rows m)))
     = mset (concat (map snd m)) + mset rows"
  by (induction rows arbitrary: m) (auto simp: setdefault_append_mset)

lemma setdefault_append_mem:
  "(\<exists>vs. (k, vs) \<in> set (setdefault_append m k' v) \<and> u \<in> set vs) \<longleftrightarrow>
     (\<exists>vs. (k, vs) \<in> set m \<and> u \<in> set vs) \<or> k = k' \<and> u = v"
  by (induction m k' v rule: setdefault_append.induct) auto

lemma fold_setdefault_mem:
  "(\<exists>vs. (k, vs) \<in> set (fold (\<lambda>x m. setdefault_append m (f x) x) xs m) \<and> u \<in> set vs) \<longleftrightarrow>
     (\<exists>vs. (k, vs) \<in> set m \<and> u \<in> set vs) \<or> u \<in> set xs \<and> f u = k"
  by (induction xs arbitrary: m) (auto simp: setdefault_append_mem)

lemma fold_setdefault_keys:
  "distinct (map fst m) \<Longrightarrow> distinct (map fst (fold (\<lambda>x m. setdefault_append m (f x) x) xs m))"
  by (induction xs arbitrary: m) (simp_all add: keys_setdefault_append)

subsection \<open>Contract: cutting a sequence into groups\<close>

text \<open>
  Several components cut a chronological sequence into logical turns.  What they share: no
  element is lost, duplicated or moved, and no group is empty.  The second locale adds the
  bound on the size of a group that canonical storage relies on.
\<close>

locale row_partition =
  fixes part :: "'a list \<Rightarrow> 'a list list"
  assumes part_concat: "concat (part xs) = xs"
    and part_nonempty: "[] \<notin> set (part xs)"
begin

lemma part_Nil: "part [] = []"
  using part_concat[of "[]"] part_nonempty[of "[]"] by (cases "part []") auto

lemma part_eq_Nil: "part xs = [] \<longleftrightarrow> xs = []"
  using part_concat[of xs] part_Nil by fastforce

lemma part_members: "(\<Union>g\<in>set (part xs). set g) = set xs"
  by (metis part_concat set_concat)

lemma part_length_le: "length (part xs) \<le> length xs"
  using length_le_concat[OF part_nonempty[of xs]] by (simp add: part_concat)

lemma part_total: "sum_list (map length (part xs)) = length xs"
  by (metis length_concat part_concat)

lemma part_suffix: "\<exists>n. concat (take_last k (part xs)) = drop n xs"
proof -
  let ?gs = "part xs" and ?m = "length (part xs) - k"
  have "xs = concat (take ?m ?gs) @ concat (drop ?m ?gs)"
    by (metis append_take_drop_id concat_append part_concat)
  then have "concat (drop ?m ?gs) = drop (length (concat (take ?m ?gs))) xs"
    by (metis append_eq_conv_conj)
  then show ?thesis unfolding take_last_def by blast
qed

end

locale bounded_partition = row_partition +
  fixes bound :: nat
  assumes part_bound: "g \<in> set (part xs) \<Longrightarrow> length g \<le> bound"
begin

lemma part_length_ge: "length xs \<le> bound * length (part xs)"
  using length_concat_le[of "part xs" bound] part_bound by (simp add: part_concat)

end

end
