(* ===== verification/CanonicalRows.thy ===== *)
theory CanonicalRows
  imports Prelude
begin

text \<open>
  The record every other part points back to: the canonical turn row (types.py), with the
  helpers of core/canonical\_turns.py on ordered row sequences (logical-turn partition, the
  newest logical turns, anchor hashes, default and midpoint sort keys) and the predicates
  of core/ingest\_reconciler.py on one row.  Row fields carry the prefix \<open>row_\<close>.
\<close>

section \<open>Canonical turn rows\<close>

subsection \<open>The row\<close>

record canonical_row =
  row_conversation_id :: string
  row_canonical_turn_id :: string
  row_turn_number :: int
  row_turn_group_number :: int
  row_sort_key :: rat
  row_turn_hash :: string
  row_user_content :: string
  row_assistant_content :: string
  row_primary_tag :: string
  row_session_date :: string
  row_sender :: string
  row_tagged_at :: string
  row_compacted_at :: string
  row_first_seen_at :: string
  row_last_seen_at :: string
  row_source_batch_id :: string
  row_created_at :: string
  row_updated_at :: string
  row_origin_channel_id :: string
  row_origin_channel_label :: string
  row_sender_actor_id :: string
  row_source_message_id :: string
  row_reply_target_message_id :: string
  row_reply_subject_actor_id :: string
  row_reply_subject_label :: string
  row_reply_target_body :: string
  row_reply_attribution_version :: int
  row_audience_conversation_id :: string
  row_audience_attribution_version :: int

definition empty_row :: canonical_row where
  "empty_row = \<lparr>row_conversation_id = [], row_canonical_turn_id = [], row_turn_number = -1,
     row_turn_group_number = -1, row_sort_key = 0, row_turn_hash = [], row_user_content = [],
     row_assistant_content = [], row_primary_tag = ''_general'', row_session_date = [], row_sender = [],
     row_tagged_at = [], row_compacted_at = [], row_first_seen_at = [], row_last_seen_at = [], row_source_batch_id = [],
     row_created_at = [], row_updated_at = [],
     row_origin_channel_id = [], row_origin_channel_label = [], row_sender_actor_id = [],
     row_source_message_id = [], row_reply_target_message_id = [],
     row_reply_subject_actor_id = [], row_reply_subject_label = [],
     row_reply_target_body = [], row_reply_attribution_version = 0,
     row_audience_conversation_id = [], row_audience_attribution_version = 0\<rparr>"

definition row_has_user_content :: "canonical_row \<Rightarrow> bool" where
  "row_has_user_content r \<longleftrightarrow> strip (row_user_content r) \<noteq> []"

definition row_has_assistant_content :: "canonical_row \<Rightarrow> bool" where
  "row_has_assistant_content r \<longleftrightarrow> strip (row_assistant_content r) \<noteq> []"

subsection \<open>Sort keys next to stored rows\<close>

text \<open>\<open>max(float(row.sort_key or 0.0) for row in existing) + 1000.0\<close>.\<close>

definition default_sort_key :: "canonical_row list \<Rightarrow> rat" where
  "default_sort_key existing =
     (case map row_sort_key existing of
        [] \<Rightarrow> 1000
      | k # ks \<Rightarrow> fold max ks k + 1000)"

definition midpoint_sort_key :: "rat option \<Rightarrow> rat option \<Rightarrow> rat" where
  "midpoint_sort_key left right =
     (case (left, right) of
        (None, None) \<Rightarrow> 1000
      | (None, Some r) \<Rightarrow> r - 1000
      | (Some l, None) \<Rightarrow> l + 1000
      | (Some l, Some r) \<Rightarrow> (l + r) / 2)"

lemma fold_max_ge: "(x :: 'a :: linorder) \<in> insert k (set ks) \<Longrightarrow> x \<le> fold max ks k"
  using Max_ge[of "set (k # ks)" x] by (simp add: Max.set_eq_fold[symmetric])

lemma default_sort_key_above: "r \<in> set rows \<Longrightarrow> row_sort_key r < default_sort_key rows"
proof (cases rows)
  case (Cons a list)
  moreover assume "r \<in> set rows"
  ultimately have "row_sort_key r \<le> fold max (map row_sort_key list) (row_sort_key a)"
    by (intro fold_max_ge) auto
  with Cons show ?thesis by (simp add: default_sort_key_def)
qed simp

lemma midpoint_between:
  "l < r \<Longrightarrow> l < midpoint_sort_key (Some l) (Some r) \<and> midpoint_sort_key (Some l) (Some r) < r"
  by (simp add: midpoint_sort_key_def field_simps)

subsection \<open>Anchor hashes\<close>

text \<open>
  \<open>compute_anchor_hash\<close> feeds a version byte and, per row, the turn hash and a NUL byte
  to SHA-256.  The digest function is the parameter \<open>sha\<close>; the bytes it is given are
  modelled exactly.
\<close>

definition hash_version :: char where
  "hash_version = CHR 0x01"

definition anchor_payload :: "string list \<Rightarrow> string" where
  "anchor_payload hs = hash_version # concat (map (\<lambda>h. h @ [CHR 0x00]) hs)"

definition compute_anchor_hash ::
  "(string \<Rightarrow> string) \<Rightarrow> canonical_row list \<Rightarrow> nat \<Rightarrow> nat \<Rightarrow> string" where
  "compute_anchor_hash sha rows start n =
     sha (anchor_payload (map row_turn_hash (slice start n rows)))"

definition build_anchor_index ::
  "(string \<Rightarrow> string) \<Rightarrow> canonical_row list \<Rightarrow> nat \<Rightarrow> (string \<times> nat list) list" where
  "build_anchor_index sha rows w =
     (if w = 0 \<or> length rows < w then []
      else fold (\<lambda>start m. setdefault_append m (compute_anchor_hash sha rows start w) start)
             [0..<length rows - w + 1] [])"

text \<open>\<open>anchors.get(digest, [])\<close>.\<close>

definition lookup_list :: "('k \<times> 'v list) list \<Rightarrow> 'k \<Rightarrow> 'v list" where
  "lookup_list m k = (case map_of m k of None \<Rightarrow> [] | Some vs \<Rightarrow> vs)"

lemma lookup_setdefault_append [simp]:
  "lookup_list (setdefault_append m k v) d = lookup_list m d @ (if d = k then [v] else [])"
  by (induction m k v rule: setdefault_append.induct) (auto simp: lookup_list_def)

lemma lookup_Nil [simp]: "lookup_list [] d = []"
  by (simp add: lookup_list_def)

lemma lookup_fold_append:
  "lookup_list (fold (\<lambda>(p, h) m. setdefault_append m h p) L m) d
     = lookup_list m d @ map fst (filter (\<lambda>(p, h). h = d) L)"
  by (induction L arbitrary: m) (auto split: prod.splits)

lemma distinct_fold_append:
  "distinct (map fst m) \<Longrightarrow> distinct (map fst (fold (\<lambda>(p, h) m. setdefault_append m h p) L m))"
  by (induction L arbitrary: m) (auto simp: keys_setdefault_append split: prod.splits)

lemma lookup_member:
  "p \<in> set (lookup_list m d) \<Longrightarrow> \<exists>ps. (d, ps) \<in> set m \<and> p \<in> set ps"
  by (cases "map_of m d") (auto simp: lookup_list_def dest!: map_of_SomeD)

lemma member_lookup:
  "distinct (map fst m) \<Longrightarrow> (d, ps) \<in> set m \<Longrightarrow> lookup_list m d = ps"
  by (simp add: lookup_list_def)

lemma build_anchor_index_fold:
  "build_anchor_index sha rows w =
     (if w = 0 \<or> length rows < w then []
      else fold (\<lambda>(p, h) m. setdefault_append m h p)
             (map (\<lambda>s. (s, compute_anchor_hash sha rows s w)) [0..<length rows - w + 1]) [])"
  by (simp add: build_anchor_index_def fold_map comp_def)

lemma lookup_build_anchor_index:
  "p \<in> set (lookup_list (build_anchor_index sha rows w) d) \<longleftrightarrow>
     0 < w \<and> p + w \<le> length rows \<and> d = compute_anchor_hash sha rows p w"
  by (auto simp: build_anchor_index_fold lookup_fold_append image_iff simp del: upt_Suc)

lemma distinct_build_anchor_index: "distinct (map fst (build_anchor_index sha rows w))"
  by (simp add: build_anchor_index_fold distinct_fold_append del: upt_Suc)

text \<open>
  The payload determines the hashes as long as none of them contains a NUL byte, which hex
  digests never do: the separator makes the concatenation uniquely readable.
\<close>

definition nul_free :: "string \<Rightarrow> bool" where
  "nul_free s \<longleftrightarrow> CHR 0x00 \<notin> set s"

lemma nul_split:
  assumes "nul_free a" "nul_free b" "a @ CHR 0x00 # x = b @ CHR 0x00 # y"
  shows "a = b \<and> x = y"
proof -
  have "takeWhile (\<lambda>c. c \<noteq> CHR 0x00) (a @ CHR 0x00 # x) = a"
    "takeWhile (\<lambda>c. c \<noteq> CHR 0x00) (b @ CHR 0x00 # y) = b"
    using assms(1,2) by (auto simp: nul_free_def takeWhile_append)
  with assms(3) show ?thesis by auto
qed

lemma anchor_payload_inj:
  "list_all nul_free hs \<Longrightarrow> list_all nul_free hs' \<Longrightarrow>
     anchor_payload hs = anchor_payload hs' \<Longrightarrow> hs = hs'"
proof (induction hs arbitrary: hs')
  case Nil
  then show ?case by (cases hs') (auto simp: anchor_payload_def)
next
  case (Cons h hs)
  then obtain h' hs'' where hs': "hs' = h' # hs''"
    by (cases hs') (auto simp: anchor_payload_def)
  with Cons.prems have "h @ CHR 0x00 # concat (map (\<lambda>h. h @ [CHR 0x00]) hs)
      = h' @ CHR 0x00 # concat (map (\<lambda>h. h @ [CHR 0x00]) hs'')"
    by (simp add: anchor_payload_def)
  with Cons.prems hs' have "h = h'" "anchor_payload hs = anchor_payload hs''"
    using nul_split by (auto simp: anchor_payload_def)
  with Cons hs' show ?case by auto
qed

text \<open>
  The payloads of the windows of a row sequence.  Equal digests mean equal windows as long
  as the digest function does not collide on the payloads that are compared.
\<close>

definition window_payloads :: "canonical_row list \<Rightarrow> string set" where
  "window_payloads rows =
     set (concat (map (\<lambda>i. map (\<lambda>n. anchor_payload (map row_turn_hash (slice i n rows)))
            [0..<Suc (length rows - i)]) [0..<Suc (length rows)]))"

lemma window_payloadsI:
  "i + n \<le> length rows \<Longrightarrow> anchor_payload (map row_turn_hash (slice i n rows)) \<in> window_payloads rows"
  by (fastforce simp: window_payloads_def simp del: upt_Suc)

lemma compute_anchor_hash_inj:
  assumes inj: "inj_on sha (window_payloads xs \<union> window_payloads ys)"
    and nul: "list_all nul_free (map row_turn_hash xs)" "list_all nul_free (map row_turn_hash ys)"
    and len: "i + n \<le> length xs" "j + n \<le> length ys"
    and eq: "compute_anchor_hash sha xs i n = compute_anchor_hash sha ys j n"
  shows "slice i n (map row_turn_hash xs) = slice j n (map row_turn_hash ys)"
proof -
  have sub: "list_all nul_free (slice k n zs)" if "list_all nul_free zs" for k and zs :: "string list"
    using that by (auto simp: slice_def list_all_iff dest!: in_set_takeD in_set_dropD)
  from eq inj len have "anchor_payload (map row_turn_hash (slice i n xs))
      = anchor_payload (map row_turn_hash (slice j n ys))"
    by (auto simp: compute_anchor_hash_def intro: window_payloadsI dest: inj_onD)
  with nul sub show ?thesis by (simp add: map_slice) (blast intro: anchor_payload_inj)
qed

end
