(* ===== verification/LogicalTurns.thy ===== *)
theory LogicalTurns
  imports CanonicalRows
begin

text \<open>
  Logical turns: \<open>partition_canonical_rows_into_logical_turns\<close> and
  \<open>select_recent_logical_turn_rows\<close> of core/canonical\_turns.py, and the durable group
  numbers that \<open>recompute_canonical_turn_groups\<close> of storage/sqlite.py assigns.  The
  partition is an instance of the contract \<open>bounded_partition\<close>; from it and the
  behaviour at a cut follows that the bounded fetch the callers make is large enough.
\<close>

section \<open>Partition into logical turns\<close>

text \<open>\<open>_same_explicit_group\<close>: adjacency pairs unless both numbers are set and differ.\<close>

definition same_explicit_group :: "canonical_row \<Rightarrow> canonical_row \<Rightarrow> bool" where
  "same_explicit_group u a \<longleftrightarrow>
     row_turn_group_number u < 0 \<or> row_turn_group_number a < 0
     \<or> row_turn_group_number u = row_turn_group_number a"

text \<open>\<open>_flush_pending\<close>: the groups the pending user row contributes.\<close>

definition flush_pending :: "canonical_row list \<Rightarrow> canonical_row list list" where
  "flush_pending pending = (if pending = [] then [] else [pending])"

text \<open>
  The loop over the rows.  The source appends to \<open>groups\<close>; here the groups still to come
  are what the recursive call returns, and \<open>pending\<close> is \<open>pending_user\<close>.
\<close>

fun partition_loop :: "canonical_row list \<Rightarrow> canonical_row list \<Rightarrow> canonical_row list list" where
  "partition_loop pending [] = flush_pending pending"
| "partition_loop pending (row # rows) =
     (let has_user = row_user_content row \<noteq> [];
          has_assistant = row_assistant_content row \<noteq> []
      in if has_user then
           (if has_assistant
            then flush_pending pending @ [row] # partition_loop [] rows
            else flush_pending pending @ partition_loop [row] rows)
         else if has_assistant then
           (if pending \<noteq> [] \<and> same_explicit_group (hd pending) row
            then (pending @ [row]) # partition_loop [] rows
            else flush_pending pending @ [row] # partition_loop [] rows)
         else flush_pending pending @ [row] # partition_loop [] rows)"

definition partition_logical_turns :: "canonical_row list \<Rightarrow> canonical_row list list" where
  "partition_logical_turns rows = partition_loop [] rows"

definition select_recent_logical_turn_rows :: "int \<Rightarrow> canonical_row list \<Rightarrow> canonical_row list" where
  "select_recent_logical_turn_rows limit rows_desc =
     (if limit \<le> 0 \<or> rows_desc = [] then []
      else rev (concat (take_last (nat limit) (partition_logical_turns (rev rows_desc)))))"

lemma concat_flush [simp]: "concat (flush_pending p) = p"
  by (simp add: flush_pending_def)

lemma partition_loop_concat: "concat (partition_loop pending rows) = pending @ rows"
  by (induction rows arbitrary: pending) (auto simp: Let_def)

lemma partition_loop_nonempty: "[] \<notin> set (partition_loop pending rows)"
  by (induction rows arbitrary: pending) (auto simp: Let_def flush_pending_def)

text \<open>
  What a group can look like: one row, or a user row followed by the assistant row that
  answers it and whose explicit group number, if any, agrees.
\<close>

definition user_half :: "canonical_row \<Rightarrow> bool" where
  "user_half r \<longleftrightarrow> row_user_content r \<noteq> [] \<and> row_assistant_content r = []"

definition assistant_half :: "canonical_row \<Rightarrow> bool" where
  "assistant_half r \<longleftrightarrow> row_user_content r = [] \<and> row_assistant_content r \<noteq> []"

definition turn_shape :: "canonical_row list \<Rightarrow> bool" where
  "turn_shape g \<longleftrightarrow>
     (\<exists>r. g = [r]) \<or>
     (\<exists>u a. g = [u, a] \<and> user_half u \<and> assistant_half a \<and> same_explicit_group u a)"

lemma partition_loop_shape:
  "pending = [] \<or> (\<exists>u. pending = [u] \<and> user_half u) \<Longrightarrow>
     g \<in> set (partition_loop pending rows) \<Longrightarrow> turn_shape g"
proof (induction pending rows rule: partition_loop.induct)
  case (1 pending)
  then show ?case by (auto simp: flush_pending_def turn_shape_def split: if_splits)
next
  case (2 pending row rows)
  consider (user) "row_user_content row \<noteq> []" | (asst) "row_user_content row = []"
    "row_assistant_content row \<noteq> []" | (none) "row_user_content row = []"
    "row_assistant_content row = []" by blast
  then show ?case
  proof cases
    case user
    with 2 show ?thesis
      by (cases "row_assistant_content row = []")
         (auto simp: Let_def flush_pending_def turn_shape_def user_half_def)
  next
    case asst
    with 2 show ?thesis
      by (auto simp: Let_def flush_pending_def turn_shape_def user_half_def assistant_half_def
          split: if_splits)
  next
    case none
    with 2 show ?thesis
      by (auto simp: Let_def flush_pending_def turn_shape_def split: if_splits)
  qed
qed

lemma partition_shape: "g \<in> set (partition_logical_turns rows) \<Longrightarrow> turn_shape g"
  unfolding partition_logical_turns_def by (rule partition_loop_shape) auto

lemma turn_shape_length: "turn_shape g \<Longrightarrow> length g \<le> 2"
  by (auto simp: turn_shape_def)

interpretation turns: bounded_partition partition_logical_turns 2
proof unfold_locales
  show "concat (partition_logical_turns xs) = xs" for xs
    by (simp add: partition_logical_turns_def partition_loop_concat)
  show "[] \<notin> set (partition_logical_turns xs)" for xs
    by (simp add: partition_logical_turns_def partition_loop_nonempty)
  show "g \<in> set (partition_logical_turns xs) \<Longrightarrow> length g \<le> 2" for g xs
    using partition_shape turn_shape_length by blast
qed

subsection \<open>Cutting the history\<close>

text \<open>
  What a pending user row changes: nothing after the first group.  A suffix of the history
  is therefore partitioned as the whole history is, up to its first group.
\<close>

lemma partition_loop_pending:
  assumes "pending = [] \<or> (\<exists>u. pending = [u])"
  shows "\<exists>gs h. partition_loop [] rows = gs \<and>
    (partition_loop pending rows = flush_pending pending @ gs \<or>
     (gs = h # tl gs \<and> partition_loop pending rows = (pending @ h) # tl gs))"
proof (cases rows)
  case Nil
  then show ?thesis by (simp add: flush_pending_def)
next
  case (Cons row rest)
  then show ?thesis by (simp add: Let_def flush_pending_def)
qed

lemma partition_loop_step:
  "\<exists>pre p. (p = [] \<or> p = [row]) \<and>
     (\<forall>rows. partition_loop pending (row # rows) = pre @ partition_loop p rows)"
proof -
  let ?u = "row_user_content row \<noteq> []" and ?a = "row_assistant_content row \<noteq> []"
  let ?pair = "\<not> ?u \<and> ?a \<and> pending \<noteq> [] \<and> same_explicit_group (hd pending) row"
  consider (opens) "?u \<and> \<not> ?a" | (pairs) "?pair" | (alone) "\<not> (?u \<and> \<not> ?a)" "\<not> ?pair" by blast
  then show ?thesis
  proof cases
    case opens
    then show ?thesis
      by (intro exI[of _ "flush_pending pending"] exI[of _ "[row]"]) (simp add: Let_def)
  next
    case pairs
    then show ?thesis
      by (intro exI[of _ "[pending @ [row]]"] exI[of _ "[]"]) (simp add: Let_def)
  next
    case alone
    then show ?thesis
      by (intro exI[of _ "flush_pending pending @ [[row]]"] exI[of _ "[]"]) (auto simp: Let_def)
  qed
qed

lemma partition_loop_append:
  "pending = [] \<or> (\<exists>u. pending = [u]) \<Longrightarrow>
   \<exists>p pre. (p = [] \<or> (\<exists>u. p = [u])) \<and>
     partition_loop pending (xs @ ys) = pre @ partition_loop p ys"
proof (induction xs arbitrary: pending)
  case Nil
  then show ?case by (intro exI[of _ pending] exI[of _ "[]"]) auto
next
  case (Cons row xs)
  obtain pre p where p: "p = [] \<or> p = [row]"
    "\<And>rows. partition_loop pending (row # rows) = pre @ partition_loop p rows"
    using partition_loop_step by blast
  then have "p = [] \<or> (\<exists>u. p = [u])" by blast
  from Cons.IH[OF this] p(2) show ?case
    by (metis append.assoc append_Cons)
qed

lemma partition_suffix:
  "\<exists>pre g. partition_logical_turns (xs @ ys) = pre @ partition_logical_turns ys \<or>
     (partition_logical_turns ys \<noteq> [] \<and>
      partition_logical_turns (xs @ ys) = pre @ g # tl (partition_logical_turns ys))"
proof -
  obtain p pre where p: "p = [] \<or> (\<exists>u. p = [u])"
    "partition_loop [] (xs @ ys) = pre @ partition_loop p ys"
    using partition_loop_append[of "[]" xs ys] by blast
  from partition_loop_pending[OF p(1), of ys] p(2) show ?thesis
    unfolding partition_logical_turns_def by (metis append.assoc list.distinct(1))
qed

text \<open>
  Callers fetch the newest \<open>2 * limit + 1\<close> rows.  That is enough: with at most two rows per
  turn the fetch holds more than \<open>limit\<close> groups, and only the oldest of them can be cut.
\<close>

lemma take_last_partition_suffix:
  assumes "2 * n + 1 \<le> length ys"
  shows "take_last n (partition_logical_turns (xs @ ys)) = take_last n (partition_logical_turns ys)"
proof -
  let ?g = "partition_logical_turns ys"
  from turns.part_length_ge[of ys] assms have len: "n < length ?g" by linarith
  obtain pre g where "partition_logical_turns (xs @ ys) = pre @ ?g \<or>
      (?g \<noteq> [] \<and> partition_logical_turns (xs @ ys) = pre @ g # tl ?g)"
    using partition_suffix by blast
  then show ?thesis
  proof
    assume "partition_logical_turns (xs @ ys) = pre @ ?g"
    with len show ?thesis by (simp add: take_last_append)
  next
    assume *: "?g \<noteq> [] \<and> partition_logical_turns (xs @ ys) = pre @ g # tl ?g"
    then have "take_last n ((pre @ [g]) @ tl ?g) = take_last n (tl ?g)"
      using len by (intro take_last_append) simp
    moreover have "take_last n ([hd ?g] @ tl ?g) = take_last n (tl ?g)"
      using len by (intro take_last_append) simp
    moreover have "[hd ?g] @ tl ?g = ?g" using * by simp
    ultimately show ?thesis using * by simp
  qed
qed

lemma select_recent_prefix:
  "\<exists>n. select_recent_logical_turn_rows limit rows_desc = take n rows_desc"
proof (cases "limit \<le> 0 \<or> rows_desc = []")
  case True
  then show ?thesis by (auto simp: select_recent_logical_turn_rows_def intro!: exI[of _ 0])
next
  case False
  obtain n where "concat (take_last (nat limit) (partition_logical_turns (rev rows_desc)))
      = drop n (rev rows_desc)" using turns.part_suffix by blast
  with False show ?thesis
    by (auto simp: select_recent_logical_turn_rows_def rev_drop)
qed

section \<open>Durable group numbers\<close>

text \<open>
  \<open>recompute_canonical_turn_groups\<close> (storage/sqlite.py) walks the rows in sort-key order
  with two counters, \<open>current_group\<close> and \<open>pending_user_group\<close> (\<open>-1\<close> for none), and
  writes the groups that moved.  \<open>assign_groups\<close> is the walk.
\<close>

fun assign_groups :: "int \<Rightarrow> int \<Rightarrow> canonical_row list \<Rightarrow> int list" where
  "assign_groups current pending [] = []"
| "assign_groups current pending (row # rows) =
     (let has_user = row_has_user_content row; has_assistant = row_has_assistant_content row
      in if has_user \<and> has_assistant then (current + 1) # assign_groups (current + 1) (-1) rows
         else if has_user then (current + 1) # assign_groups (current + 1) (current + 1) rows
         else if has_assistant then
           (if pending \<ge> 0 then pending # assign_groups current (-1) rows
            else (current + 1) # assign_groups (current + 1) pending rows)
         else (current + 1) # assign_groups (current + 1) (-1) rows)"

definition set_groups :: "int list \<Rightarrow> canonical_row list \<Rightarrow> canonical_row list" where
  "set_groups gs rows = map2 (\<lambda>g r. r\<lparr>row_turn_group_number := g\<rparr>) gs rows"

text \<open>The rows after the writes, and the number of rows written.\<close>

definition recompute_canonical_turn_groups :: "canonical_row list \<Rightarrow> canonical_row list \<times> nat" where
  "recompute_canonical_turn_groups rows =
     (let gs = assign_groups (-1) (-1) rows
      in (set_groups gs rows,
          length (filter (\<lambda>(g, r). g \<noteq> row_turn_group_number r) (zip gs rows))))"

lemma length_assign_groups [simp]: "length (assign_groups c p rows) = length rows"
  by (induction rows arbitrary: c p) (simp_all add: Let_def)

lemma assign_groups_content:
  "map (\<lambda>r. (row_user_content r, row_assistant_content r)) rows
     = map (\<lambda>r. (row_user_content r, row_assistant_content r)) rows' \<Longrightarrow>
   assign_groups c p rows = assign_groups c p rows'"
proof (induction rows arbitrary: c p rows')
  case (Cons r rows)
  then obtain r' rs where "rows' = r' # rs" by (cases rows') auto
  with Cons show ?case
    by (auto simp: Let_def row_has_user_content_def row_has_assistant_content_def)
qed simp

lemma set_groups_Cons [simp]:
  "set_groups (g # gs) (r # rs) = r\<lparr>row_turn_group_number := g\<rparr> # set_groups gs rs"
  by (simp add: set_groups_def)

lemma set_groups_Nil [simp]: "set_groups gs [] = []"
  by (simp add: set_groups_def)

lemma set_groups_map:
  "(\<And>r g. f (r\<lparr>row_turn_group_number := g\<rparr>) = f r) \<Longrightarrow> length gs = length rows \<Longrightarrow>
     map f (set_groups gs rows) = map f rows"
  by (induction gs rows rule: list_induct2') auto

lemma set_groups_set_groups:
  "length gs = length rows \<Longrightarrow> set_groups gs (set_groups gs rows) = set_groups gs rows"
  by (induction gs rows rule: list_induct2') auto

lemma unmoved_after_set_groups:
  "length gs = length rows \<Longrightarrow> filter (\<lambda>(g, r). g \<noteq> row_turn_group_number r) (zip gs (set_groups gs rows)) = []"
  by (induction gs rows rule: list_induct2') auto

text \<open>
  A row whose halves are either empty or visible text: on such rows the partition's
  truthiness test and the storage layer's trimmed test agree.
\<close>

definition halves_visible :: "canonical_row \<Rightarrow> bool" where
  "halves_visible r \<longleftrightarrow>
     (row_user_content r \<noteq> [] \<longrightarrow> row_has_user_content r) \<and>
     (row_assistant_content r \<noteq> [] \<longrightarrow> row_has_assistant_content r)"

fun numbered :: "int \<Rightarrow> canonical_row list list \<Rightarrow> bool" where
  "numbered k [] = True"
| "numbered k (g # gs) = ((\<forall>r\<in>set g. row_turn_group_number r = k) \<and> numbered (k + 1) gs)"

lemma numbered_append:
  "numbered k (gs @ hs) \<longleftrightarrow> numbered k gs \<and> numbered (k + int (length gs)) hs"
  by (induction gs arbitrary: k) (auto simp: algebra_simps)

lemma numbered_nth:
  "numbered k gs \<Longrightarrow> i < length gs \<Longrightarrow> r \<in> set (gs ! i) \<Longrightarrow> row_turn_group_number r = k + int i"
proof (induction gs arbitrary: k i)
  case (Cons g gs)
  then show ?case by (cases i) auto
qed simp

lemma halves_visible_iff:
  "halves_visible r \<Longrightarrow> (row_user_content r \<noteq> []) = row_has_user_content r"
  "halves_visible r \<Longrightarrow> (row_assistant_content r \<noteq> []) = row_has_assistant_content r"
  by (auto simp: halves_visible_def row_has_user_content_def row_has_assistant_content_def)

lemma partition_assigned_numbered:
  "\<forall>r\<in>set rows. halves_visible r \<Longrightarrow> -1 \<le> current \<Longrightarrow>
   (pending = [] \<and> p = -1) \<or> (\<exists>u. pending = [u] \<and> row_turn_group_number u = current \<and> p = current \<and> 0 \<le> current) \<Longrightarrow>
   numbered (if pending = [] then current + 1 else current)
     (partition_loop pending (set_groups (assign_groups current p rows) rows))"
proof (induction rows arbitrary: current p pending)
  case Nil
  then show ?case by (auto simp: flush_pending_def)
next
  case (Cons row rows)
  from Cons.prems(1) have vis: "\<forall>r\<in>set rows. halves_visible r" by simp
  have u: "(row_user_content row = []) = (\<not> row_has_user_content row)"
    and a: "(row_assistant_content row = []) = (\<not> row_has_assistant_content row)"
    using Cons.prems(1) halves_visible_iff by force+
  note IH0 = Cons.IH[OF vis, where pending = "[]" and p = "-1"]
  note IH1 = Cons.IH[OF vis, of "current + 1" "[row\<lparr>row_turn_group_number := current + 1\<rparr>]" "current + 1"]
  show ?case
    using Cons.prems(2,3) IH0[of current] IH0[of "current + 1"] IH1
    by (auto simp: Let_def u a flush_pending_def same_explicit_group_def algebra_simps)
qed

section \<open>Properties\<close>

text \<open>C22: The logical-turn partition keeps every physical row exactly once and in order, and
  each group is one row or a user half followed by the assistant half that answers it, never
  a pair whose explicit group numbers differ.\<close>

theorem partition_logical_turns_correct:
  "concat (partition_logical_turns rows) = rows \<and> list_all turn_shape (partition_logical_turns rows)"
  by (simp add: turns.part_concat list_all_iff partition_shape)

text \<open>The newest \<open>limit\<close> logical turns can be selected from the newest
  \<open>2 * limit + 1\<close> physical rows alone: the bounded fetch of the callers loses nothing and
  cuts no turn, whatever the rest of the history holds.\<close>

theorem select_recent_bounded_fetch:
  "select_recent_logical_turn_rows limit (take (nat (2 * limit + 1)) rows_desc)
     = select_recent_logical_turn_rows limit rows_desc"
proof (cases "limit \<le> 0 \<or> rows_desc = [] \<or> length rows_desc \<le> nat (2 * limit + 1)")
  case True
  then show ?thesis by (auto simp: select_recent_logical_turn_rows_def)
next
  case False
  let ?k = "nat (2 * limit + 1)" and ?n = "nat limit"
  let ?ys = "rev (take ?k rows_desc)" and ?xs = "rev (drop ?k rows_desc)"
  have "2 * ?n + 1 \<le> length ?ys" using False by auto
  then have "take_last ?n (partition_logical_turns (?xs @ ?ys)) = take_last ?n (partition_logical_turns ?ys)"
    by (rule take_last_partition_suffix)
  moreover have "?xs @ ?ys = rev rows_desc" by (metis append_take_drop_id rev_append)
  ultimately show ?thesis using False by (auto simp: select_recent_logical_turn_rows_def)
qed

text \<open>Selecting recent turns returns a prefix of the newest-first rows, so no row is
  skipped between two selected ones.\<close>

theorem select_recent_is_prefix:
  "\<exists>n. select_recent_logical_turn_rows limit rows_desc = take n rows_desc"
  by (rule select_recent_prefix)

text \<open>After the durable groups are recomputed, the group number of a row is the index
  of the logical turn the partition puts it in, so the stored numbers and the adjacency
  pairing never disagree.  It holds for rows whose halves are empty or visible text.\<close>

theorem recompute_groups_agree:
  assumes "list_all halves_visible rows"
  shows "numbered 0 (partition_logical_turns (fst (recompute_canonical_turn_groups rows)))"
  using partition_assigned_numbered[of rows "-1" "[]" "-1"] assms
  by (simp add: recompute_canonical_turn_groups_def partition_logical_turns_def Let_def list_all_iff)

definition sample_user :: canonical_row where
  "sample_user = empty_row\<lparr>row_canonical_turn_id := ''u1'', row_user_content := ''hi''\<rparr>"

definition sample_assistant :: canonical_row where
  "sample_assistant = empty_row\<lparr>row_canonical_turn_id := ''a1'', row_assistant_content := ''yo''\<rparr>"

theorem recompute_groups_agree_witness:
  "numbered 0 (partition_logical_turns
     (fst (recompute_canonical_turn_groups [sample_user, sample_assistant, sample_assistant])))"
  by (rule recompute_groups_agree) code_simp

text \<open>Recomputing the durable groups is idempotent: a second run finds every group where
  it belongs and writes nothing.\<close>

theorem recompute_groups_idempotent:
  "recompute_canonical_turn_groups (fst (recompute_canonical_turn_groups rows))
     = (fst (recompute_canonical_turn_groups rows), 0)"
proof -
  let ?gs = "assign_groups (-1) (-1) rows"
  have "assign_groups (-1) (-1) (set_groups ?gs rows) = ?gs"
    by (rule assign_groups_content) (auto intro!: set_groups_map)
  then show ?thesis
    by (simp add: recompute_canonical_turn_groups_def Let_def set_groups_set_groups
        unmoved_after_set_groups)
qed

text \<open>On a row whose user half holds only white space the two readings do disagree: the
  partition pairs it with the assistant row that follows, the stored groups keep them apart.\<close>

theorem blank_user_half_diverges:
  "let u = empty_row\<lparr>row_user_content := '' ''\<rparr>;
       rows = fst (recompute_canonical_turn_groups [u, sample_assistant])
   in map row_turn_group_number rows = [0, 1]
      \<and> partition_logical_turns [u, sample_assistant] = [[u, sample_assistant]]"
  by code_simp

end
