(* ===== verification/TurnStore.thy ===== *)
theory TurnStore
  imports LogicalTurns
begin

text \<open>
  The stored canonical turns of one conversation and the storage operations the reconciler
  calls, as storage/sqlite.py implements them: the upsert of one row under the constraints
  \<open>UNIQUE (canonical_turn_id)\<close> and \<open>UNIQUE (conversation_id, sort_key)\<close>, the bulk
  shift of sort keys, the compare-and-set updates of empty columns, and the persisted
  anchors.  Reads return the rows in sort-key order.  The contract \<open>ordered_store\<close> is what
  the reconciler relies on; the SQLite model is its instance.
\<close>

section \<open>The stored conversation\<close>

text \<open>An anchor row: window size, digest, canonical id of the window's first row.\<close>

type_synonym anchor = "nat \<times> string \<times> string"

record turn_store =
  st_turns :: "canonical_row list"
  st_anchors :: "anchor list"

datatype store_error =
    UniqueSortKey        \<comment> \<open>the unique constraint on the sort key\<close>
  | ShiftNotPositive
  | ShiftTooSmall
  | AllocationFailed     \<comment> \<open>\<open>RuntimeError\<close> of the key allocation\<close>

definition stored_rows :: "turn_store \<Rightarrow> canonical_row list" where
  "stored_rows st = sort_key row_sort_key (st_turns st)"

subsection \<open>Upsert of one row\<close>

text \<open>
  \<open>save_canonical_turn\<close> for a row that carries its id, sort key and turn hash, as every row
  the reconciler writes does.  On a conflict of the id the stored row is overwritten but for
  its two first-write columns.
\<close>

definition overwrite_row :: "canonical_row \<Rightarrow> canonical_row \<Rightarrow> canonical_row" where
  "overwrite_row row stored =
     row\<lparr>row_first_seen_at := row_first_seen_at stored, row_created_at := row_created_at stored\<rparr>"

definition save_canonical_turn :: "canonical_row \<Rightarrow> turn_store \<Rightarrow> store_error + turn_store" where
  "save_canonical_turn row st =
     (if list_ex (\<lambda>r. row_sort_key r = row_sort_key row
                    \<and> row_canonical_turn_id r \<noteq> row_canonical_turn_id row) (st_turns st)
      then Inl UniqueSortKey
      else if list_ex (\<lambda>r. row_canonical_turn_id r = row_canonical_turn_id row) (st_turns st)
      then Inr (st\<lparr>st_turns := map (\<lambda>r. if row_canonical_turn_id r = row_canonical_turn_id row
                                        then overwrite_row row r else r) (st_turns st)\<rparr>)
      else Inr (st\<lparr>st_turns := st_turns st @ [row]\<rparr>))"

subsection \<open>Bulk shift of sort keys\<close>

definition shift_row :: "rat \<Rightarrow> rat \<Rightarrow> canonical_row \<Rightarrow> canonical_row" where
  "shift_row min_sort_key delta r =
     (if min_sort_key \<le> row_sort_key r then r\<lparr>row_sort_key := row_sort_key r + delta\<rparr> else r)"

definition shift_canonical_turn_sort_keys ::
  "rat \<Rightarrow> rat \<Rightarrow> turn_store \<Rightarrow> store_error + turn_store \<times> nat" where
  "shift_canonical_turn_sort_keys min_sort_key delta st =
     (if delta \<le> 0 then Inl ShiftNotPositive
      else case filter (\<lambda>k. min_sort_key \<le> k) (map row_sort_key (st_turns st)) of
             [] \<Rightarrow> Inr (st, 0)
           | k # ks \<Rightarrow>
               if delta \<le> fold max ks k - min_sort_key then Inl ShiftTooSmall
               else Inr (st\<lparr>st_turns := map (shift_row min_sort_key delta) (st_turns st)\<rparr>,
                         Suc (length ks)))"

subsection \<open>Compare-and-set of empty columns\<close>

text \<open>\<open>COALESCE(TRIM(column), '') = ''\<close>: SQLite's \<open>TRIM\<close> removes spaces only.\<close>

definition sql_blank :: "string \<Rightarrow> bool" where
  "sql_blank s \<longleftrightarrow> list_all (\<lambda>c. c = CHR '' '') s"

definition update_row :: "string \<Rightarrow> (canonical_row \<Rightarrow> bool) \<Rightarrow> (canonical_row \<Rightarrow> canonical_row)
    \<Rightarrow> turn_store \<Rightarrow> turn_store" where
  "update_row cid guard f st =
     st\<lparr>st_turns := map (\<lambda>r. if row_canonical_turn_id r = cid \<and> guard r then f r else r)
                     (st_turns st)\<rparr>"

text \<open>
  \<open>update_canonical_turn_senders_if_empty\<close>: blank ids and values are dropped, then one
  guarded \<open>UPDATE\<close> per entry.  \<open>epoch_ok\<close> is the optional epoch predicate of the statement.
\<close>

definition update_canonical_turn_senders_if_empty ::
  "bool \<Rightarrow> string \<Rightarrow> (string \<times> string) list \<Rightarrow> turn_store \<Rightarrow> turn_store" where
  "update_canonical_turn_senders_if_empty epoch_ok now updates st =
     fold (\<lambda>(cid, sender).
            if cid \<noteq> [] \<and> strip sender \<noteq> []
            then update_row cid (\<lambda>r. epoch_ok \<and> sql_blank (row_sender r))
                   (\<lambda>r. r\<lparr>row_sender := strip sender, row_updated_at := now\<rparr>)
            else id) updates st"

definition update_canonical_turn_actors_if_empty ::
  "bool \<Rightarrow> string \<Rightarrow> (string \<times> string) list \<Rightarrow> turn_store \<Rightarrow> turn_store" where
  "update_canonical_turn_actors_if_empty epoch_ok now updates st =
     fold (\<lambda>(cid, actor).
            if cid \<noteq> [] \<and> strip actor \<noteq> []
            then update_row cid (\<lambda>r. epoch_ok \<and> sql_blank (row_sender_actor_id r))
                   (\<lambda>r. r\<lparr>row_sender_actor_id := strip actor, row_updated_at := now\<rparr>)
            else id) updates st"

definition fill_channel :: "string \<Rightarrow> string \<Rightarrow> string \<Rightarrow> canonical_row \<Rightarrow> canonical_row" where
  "fill_channel now cand_id cand_label r =
     r\<lparr>row_origin_channel_id :=
         (if cand_id \<noteq> [] \<and> sql_blank (row_origin_channel_id r) then cand_id
          else row_origin_channel_id r),
       row_origin_channel_label :=
         (if cand_label \<noteq> [] \<and> sql_blank (row_origin_channel_label r) then cand_label
          else row_origin_channel_label r),
       row_updated_at := now\<rparr>"

definition update_canonical_turn_channels_if_empty ::
  "bool \<Rightarrow> string \<Rightarrow> (string \<times> string \<times> string) list \<Rightarrow> turn_store \<Rightarrow> turn_store" where
  "update_canonical_turn_channels_if_empty epoch_ok now updates st =
     fold (\<lambda>(cid, i, l).
            if cid \<noteq> [] \<and> (strip i \<noteq> [] \<or> strip l \<noteq> [])
            then update_row cid
                   (\<lambda>r. epoch_ok \<and> (strip i \<noteq> [] \<and> sql_blank (row_origin_channel_id r)
                                    \<or> strip l \<noteq> [] \<and> sql_blank (row_origin_channel_label r)))
                   (fill_channel now (strip i) (strip l))
            else id) updates st"

text \<open>
  The reply edge of a row, \<open>_row_reply_edge\<close>, and its compare-and-set.  Every non-blank
  column fills an empty one; a stored value that contradicts the edge blocks the whole
  update; versions are high-water marks.
\<close>

record reply_edge =
  edge_source_message_id :: string
  edge_reply_target_message_id :: string
  edge_reply_subject_actor_id :: string
  edge_reply_subject_label :: string
  edge_reply_target_body :: string
  edge_audience_conversation_id :: string
  edge_reply_attribution_version :: int
  edge_audience_attribution_version :: int

definition row_reply_edge :: "canonical_row \<Rightarrow> reply_edge" where
  "row_reply_edge r =
     \<lparr>edge_source_message_id = row_source_message_id r,
      edge_reply_target_message_id = row_reply_target_message_id r,
      edge_reply_subject_actor_id = row_reply_subject_actor_id r,
      edge_reply_subject_label = row_reply_subject_label r,
      edge_reply_target_body = row_reply_target_body r,
      edge_audience_conversation_id = row_audience_conversation_id r,
      edge_reply_attribution_version = row_reply_attribution_version r,
      edge_audience_attribution_version = row_audience_attribution_version r\<rparr>"

definition edge_texts :: "reply_edge \<Rightarrow> string list" where
  "edge_texts e = [edge_source_message_id e, edge_reply_target_message_id e,
     edge_reply_subject_actor_id e, edge_reply_subject_label e, edge_reply_target_body e,
     edge_audience_conversation_id e]"

definition has_reply_edge :: "reply_edge \<Rightarrow> bool" where
  "has_reply_edge e \<longleftrightarrow>
     edge_reply_attribution_version e > 0 \<or> edge_audience_attribution_version e > 0
     \<or> list_ex (\<lambda>v. strip v \<noteq> []) (edge_texts e)"

definition sql_trim :: "string \<Rightarrow> string" where
  "sql_trim s = rev (dropWhile (\<lambda>c. c = CHR '' '') (rev (dropWhile (\<lambda>c. c = CHR '' '') s)))"

definition fill_column :: "string \<Rightarrow> string \<Rightarrow> string" where
  "fill_column value stored = (if strip value \<noteq> [] \<and> sql_blank stored then strip value else stored)"

definition no_column_conflict :: "string \<Rightarrow> string \<Rightarrow> bool" where
  "no_column_conflict value stored \<longleftrightarrow>
     strip value = [] \<or> sql_blank stored \<or> sql_trim stored = strip value"

definition fill_version :: "int \<Rightarrow> int \<Rightarrow> int" where
  "fill_version version stored = (if version \<le> 0 then stored else max stored version)"

definition fill_reply_edge :: "string \<Rightarrow> reply_edge \<Rightarrow> canonical_row \<Rightarrow> canonical_row" where
  "fill_reply_edge now e r =
     r\<lparr>row_source_message_id := fill_column (edge_source_message_id e) (row_source_message_id r),
       row_reply_target_message_id :=
         fill_column (edge_reply_target_message_id e) (row_reply_target_message_id r),
       row_reply_subject_actor_id :=
         fill_column (edge_reply_subject_actor_id e) (row_reply_subject_actor_id r),
       row_reply_subject_label :=
         fill_column (edge_reply_subject_label e) (row_reply_subject_label r),
       row_reply_target_body := fill_column (edge_reply_target_body e) (row_reply_target_body r),
       row_audience_conversation_id :=
         fill_column (edge_audience_conversation_id e) (row_audience_conversation_id r),
       row_reply_attribution_version :=
         fill_version (edge_reply_attribution_version e) (row_reply_attribution_version r),
       row_audience_attribution_version :=
         fill_version (edge_audience_attribution_version e) (row_audience_attribution_version r),
       row_updated_at := now\<rparr>"

definition update_canonical_turn_reply_roles_if_empty ::
  "bool \<Rightarrow> string \<Rightarrow> (string \<times> reply_edge) list \<Rightarrow> turn_store \<Rightarrow> turn_store" where
  "update_canonical_turn_reply_roles_if_empty epoch_ok now updates st =
     fold (\<lambda>(cid, e).
            if cid \<noteq> [] \<and> has_reply_edge e
            then update_row cid
                   (\<lambda>r. epoch_ok \<and> list_all2 no_column_conflict (edge_texts e)
                                       (edge_texts (row_reply_edge r)))
                   (fill_reply_edge now e)
            else id) updates st"

subsection \<open>Persisted anchors\<close>

definition replace_canonical_turn_anchors :: "anchor list \<Rightarrow> turn_store \<Rightarrow> turn_store" where
  "replace_canonical_turn_anchors anchors st =
     st\<lparr>st_anchors := filter (\<lambda>(w, h, i). h \<noteq> [] \<and> i \<noteq> []) anchors\<rparr>"

text \<open>Deletes first (every stored copy of a listed triple), then the inserts.\<close>

definition apply_canonical_turn_anchor_delta ::
  "anchor list \<Rightarrow> anchor list \<Rightarrow> turn_store \<Rightarrow> turn_store" where
  "apply_canonical_turn_anchor_delta inserts deletes st =
     (let ok = (\<lambda>(w, h, i). h \<noteq> [] \<and> i \<noteq> []);
          gone = filter ok deletes
      in st\<lparr>st_anchors := filter (\<lambda>a. a \<notin> set gone) (st_anchors st) @ filter ok inserts\<rparr>)"

text \<open>
  \<open>get_canonical_turn_anchor_positions\<close>: the anchors of one window size joined with the
  ordinals of their start rows, in ordinal order, grouped by digest.
\<close>

definition get_canonical_turn_anchor_positions ::
  "nat \<Rightarrow> turn_store \<Rightarrow> (string \<times> nat list) list" where
  "get_canonical_turn_anchor_positions w st =
     fold (\<lambda>(pos, h) m. if h = [] then m else setdefault_append m h pos)
       (concat (map (\<lambda>(pos, r). map (\<lambda>(w', h, i). (pos, h))
                    (filter (\<lambda>(w', h, i). w' = w \<and> i = row_canonical_turn_id r) (st_anchors st)))
                 (enumerate 0 (stored_rows st)))) []"

section \<open>The contract of an ordered store\<close>

text \<open>Saving a batch stops at the first error.\<close>

fun save_all :: "('r \<Rightarrow> 's \<Rightarrow> 'e + 's) \<Rightarrow> 'r list \<Rightarrow> 's \<Rightarrow> 'e + 's" where
  "save_all save [] s = Inr s"
| "save_all save (r # rs) s = (case save r s of Inl e \<Rightarrow> Inl e | Inr s' \<Rightarrow> save_all save rs s')"

text \<open>
  Reads come back in strictly increasing key order, and saving a row with a fresh id under a
  free key succeeds and adds exactly that row.
\<close>

locale ordered_store =
  fixes rows :: "'s \<Rightarrow> 'r list"
    and save :: "'r \<Rightarrow> 's \<Rightarrow> 'e + 's"
    and key :: "'r \<Rightarrow> 'k :: linorder"
    and ident :: "'r \<Rightarrow> 'i"
    and inv :: "'s \<Rightarrow> bool"
  assumes rows_sorted: "inv s \<Longrightarrow> sorted_wrt (<) (map key (rows s))"
    and save_fresh: "inv s \<Longrightarrow> ident r \<notin> ident ` set (rows s) \<Longrightarrow> key r \<notin> key ` set (rows s) \<Longrightarrow>
      \<exists>s'. save r s = Inr s' \<and> inv s' \<and> set (rows s') = insert r (set (rows s))"
begin

lemma rows_unique:
  assumes "inv s" "set (rows s) = set xs" "sorted_wrt (<) (map key xs)"
  shows "rows s = xs"
proof -
  have d: "distinct (map key (rows s))" "distinct (map key xs)"
    using rows_sorted[OF assms(1)] assms(3) by (auto dest: sorted_wrt_less_distinct)
  have k: "map key (rows s) = map key xs"
    using rows_sorted[OF assms(1)] assms(2,3)
    by (intro strict_sorted_equal) auto
  have inj: "inj_on key (set xs)" using d(2) by (simp add: distinct_map)
  have "inj_on key (set (rows s) \<union> set xs)" using inj assms(2) by simp
  with k show ?thesis by (rule map_inj_on)
qed

lemma save_between:
  assumes "inv s" "rows s = xs @ ys" "sorted_wrt (<) (map key (xs @ r # ys))"
    "ident r \<notin> ident ` set (rows s)"
  shows "\<exists>s'. save r s = Inr s' \<and> inv s' \<and> rows s' = xs @ r # ys"
proof -
  have "key r \<notin> key ` set (rows s)"
    using assms(2,3) by (force simp: sorted_wrt_append)
  then obtain s' where s': "save r s = Inr s'" "inv s'" "set (rows s') = insert r (set (rows s))"
    using save_fresh[OF assms(1,4)] by blast
  have "set (rows s') = set (xs @ r # ys)" using s'(3) assms(2) by auto
  from rows_unique[OF s'(2) this assms(3)] s' show ?thesis by auto
qed

lemma save_all_between:
  assumes "inv s" "rows s = xs @ ys" "sorted_wrt (<) (map key (xs @ rs @ ys))"
    "distinct (map ident rs)" "ident ` set rs \<inter> ident ` set (rows s) = {}"
  shows "\<exists>s'. save_all save rs s = Inr s' \<and> inv s' \<and> rows s' = xs @ rs @ ys"
  using assms
proof (induction rs arbitrary: s xs)
  case (Cons r rs)
  have "sorted_wrt (<) (map key (xs @ r # ys))"
    using Cons.prems(3) by (auto simp: sorted_wrt_append)
  then obtain s' where s': "save r s = Inr s'" "inv s'" "rows s' = xs @ r # ys"
    using save_between[OF Cons.prems(1,2), of r] Cons.prems(5) by auto
  have *: "rows s' = (xs @ [r]) @ ys" "sorted_wrt (<) (map key ((xs @ [r]) @ rs @ ys))"
    "distinct (map ident rs)" "ident ` set rs \<inter> ident ` set (rows s') = {}"
    using s' Cons.prems by auto
  show ?case using Cons.IH[OF s'(2) *] s'(1) by auto
qed simp

end

section \<open>The SQLite model meets the contract\<close>

definition store_inv :: "turn_store \<Rightarrow> bool" where
  "store_inv st \<longleftrightarrow> distinct (map row_sort_key (st_turns st))
     \<and> distinct (map row_canonical_turn_id (st_turns st))"

lemma set_stored_rows [simp]: "set (stored_rows st) = set (st_turns st)"
  by (simp add: stored_rows_def)

lemma distinct_ids_stored: "store_inv st \<Longrightarrow> distinct (map row_canonical_turn_id (stored_rows st))"
  by (simp add: store_inv_def stored_rows_def)

lemma stored_rows_strict: "store_inv st \<Longrightarrow> sorted_wrt (<) (map row_sort_key (stored_rows st))"
  by (simp add: strict_sorted_iff store_inv_def stored_rows_def)

interpretation turn_table: ordered_store stored_rows save_canonical_turn row_sort_key
  row_canonical_turn_id store_inv
proof unfold_locales
  show "store_inv s \<Longrightarrow> sorted_wrt (<) (map row_sort_key (stored_rows s))" for s
    by (rule stored_rows_strict)
next
  fix s and r :: canonical_row
  assume "store_inv s" "row_canonical_turn_id r \<notin> row_canonical_turn_id ` set (stored_rows s)"
    "row_sort_key r \<notin> row_sort_key ` set (stored_rows s)"
  then show "\<exists>s'. save_canonical_turn r s = Inr s' \<and> store_inv s' \<and>
      set (stored_rows s') = insert r (set (stored_rows s))"
    by (auto simp: save_canonical_turn_def list_ex_iff store_inv_def image_iff)
qed

end
