(* ===== verification/SortKeys.thy ===== *)
theory SortKeys
  imports TurnStore
begin

text \<open>
  Sort-key allocation of core/ingest\_reconciler.py: \<open>_allocate_sort_keys\<close>,
  \<open>_open_sort_key_gap\<close> and \<open>_allocate_bounded_sort_keys\<close>.  A key is a Python float
  in the source and an exact rational here; the float-precision guard is kept as the loop it
  is, although over rationals it never fires.  The lemmas show that the keys land strictly
  inside the gap, that a gap is always reopened when it is full, and that the retry after a
  rebalance cannot fail.
\<close>

section \<open>Allocation\<close>

definition min_sort_key_step :: rat where
  "min_sort_key_step = 1 / 1000"

text \<open>The guard loop: every key strictly above its predecessor and below \<open>right_key\<close>.\<close>

fun strictly_inside :: "rat \<Rightarrow> rat list \<Rightarrow> rat \<Rightarrow> bool" where
  "strictly_inside prev [] right = True"
| "strictly_inside prev (key # keys) right =
     (if \<not> (prev < key \<and> key < right) then False else strictly_inside key keys right)"

definition allocate_sort_keys :: "rat option \<Rightarrow> rat option \<Rightarrow> nat \<Rightarrow> rat list option" where
  "allocate_sort_keys left_key right_key cnt =
     (if cnt = 0 then Some []
      else case (left_key, right_key) of
        (None, None) \<Rightarrow> Some (map (\<lambda>idx. (of_nat idx + 1) * 1000) [0..<cnt])
      | (None, Some right) \<Rightarrow>
          (let start = right - 1000 * of_nat cnt
           in Some (map (\<lambda>idx. start + 1000 * of_nat idx) [0..<cnt]))
      | (Some left, None) \<Rightarrow> Some (map (\<lambda>idx. left + 1000 * (of_nat idx + 1)) [0..<cnt])
      | (Some left, Some right) \<Rightarrow>
          (let step = (right - left) / (of_nat cnt + 1)
           in if step < min_sort_key_step then None
              else let keys = map (\<lambda>idx. left + step * (of_nat idx + 1)) [0..<cnt]
                   in if strictly_inside left keys right then Some keys else None))"

text \<open>What the caller needs of keys for the gap between two neighbours.\<close>

definition keys_in_gap :: "rat option \<Rightarrow> rat list \<Rightarrow> rat option \<Rightarrow> bool" where
  "keys_in_gap left keys right \<longleftrightarrow> sorted_wrt (<) keys
     \<and> (case left of None \<Rightarrow> True | Some l \<Rightarrow> list_all (\<lambda>k. l < k) keys)
     \<and> (case right of None \<Rightarrow> True | Some r \<Rightarrow> list_all (\<lambda>k. k < r) keys)"

lemma sorted_wrt_map_upt:
  fixes f :: "nat \<Rightarrow> rat"
  assumes "\<And>i j. i < j \<Longrightarrow> f i < f j"
  shows "sorted_wrt (<) (map f [0..<n])"
  using assms by (auto simp: sorted_wrt_map sorted_wrt_iff_nth_less)

lemma strictly_inside_iff:
  "strictly_inside prev keys right \<longleftrightarrow>
     sorted_wrt (<) keys \<and> list_all (\<lambda>k. prev < k) keys \<and> list_all (\<lambda>k. k < right) keys"
proof (induction keys arbitrary: prev)
  case (Cons k keys)
  then show ?case by (auto simp: list_all_iff intro: less_trans)
qed simp

lemma allocate_sort_keys_in_gap:
  assumes "allocate_sort_keys left right cnt = Some keys"
  shows "length keys = cnt \<and> keys_in_gap left keys right"
proof (cases "cnt = 0")
  case True
  with assms show ?thesis
    by (auto simp: allocate_sort_keys_def keys_in_gap_def split: option.splits)
next
  case False
  then show ?thesis
    using assms unfolding allocate_sort_keys_def keys_in_gap_def
    by (auto simp: Let_def list_all_iff strictly_inside_iff field_simps sorted_wrt_map_upt
        split: option.splits if_splits intro!: sorted_wrt_map_upt)
qed

text \<open>Only a two-sided gap can be full, and only when it is narrower than the least step.\<close>

lemma allocate_sort_keys_None_iff:
  "allocate_sort_keys left right cnt = None \<longleftrightarrow>
     cnt \<noteq> 0 \<and> (\<exists>l r. left = Some l \<and> right = Some r
       \<and> (r - l) / (of_nat cnt + 1) < min_sort_key_step)"
proof (cases "\<exists>l r. left = Some l \<and> right = Some r \<and> cnt \<noteq> 0")
  case True
  then obtain l r where lr: "left = Some l" "right = Some r" "cnt \<noteq> 0" by blast
  let ?step = "(r - l) / (of_nat cnt + 1)"
  let ?keys = "map (\<lambda>idx. l + ?step * (of_nat idx + 1)) [0..<cnt]"
  have "strictly_inside l ?keys r" if "\<not> ?step < min_sort_key_step"
  proof -
    from that have pos: "0 < ?step" by (simp add: min_sort_key_step_def)
    have "?step * (of_nat i + 1) < r - l" if "i < cnt" for i
    proof -
      have "(of_nat i + 1 :: rat) < of_nat cnt + 1" using that by simp
      with pos have "?step * (of_nat i + 1) < ?step * (of_nat cnt + 1)" by (rule mult_strict_left_mono[rotated])
      then show ?thesis by simp
    qed
    moreover have "0 < ?step * (of_nat i + 1)" for i :: nat
      using pos by (rule mult_pos_pos) simp
    moreover have "sorted_wrt (<) ?keys"
    proof (rule sorted_wrt_map_upt)
      fix i j :: nat assume "i < j"
      then have "(of_nat i + 1 :: rat) < of_nat j + 1" by simp
      with pos have "?step * (of_nat i + 1) < ?step * (of_nat j + 1)"
        by (rule mult_strict_left_mono[rotated])
      then show "l + ?step * (of_nat i + 1) < l + ?step * (of_nat j + 1)" by simp
    qed
    ultimately show ?thesis
      by (auto simp: strictly_inside_iff list_all_iff less_diff_eq add.commute)
  qed
  with lr show ?thesis by (auto simp: allocate_sort_keys_def Let_def)
next
  case False
  then show ?thesis by (auto simp: allocate_sort_keys_def split: option.splits)
qed

section \<open>Opening a full gap\<close>

text \<open>
  \<open>_open_sort_key_gap\<close> shifts every stored row at or beyond \<open>right_key\<close> and keeps the
  two in-memory mirrors (\<open>existing\<close> and \<open>rows_touched\<close>) in step.  The model takes the
  bulk shift the SQLite store provides.
\<close>

definition gap_delta :: "canonical_row list \<Rightarrow> rat \<Rightarrow> nat \<Rightarrow> rat" where
  "gap_delta existing right_key cnt =
     (case map row_sort_key existing of
        [] \<Rightarrow> 1000 * (of_nat cnt + 1)
      | k # ks \<Rightarrow> (fold max ks k - right_key) + 1000 * (of_nat cnt + 1))"

definition open_sort_key_gap ::
  "rat \<Rightarrow> nat \<Rightarrow> canonical_row list \<Rightarrow> canonical_row list \<Rightarrow> turn_store \<Rightarrow>
     store_error + (rat \<times> canonical_row list \<times> canonical_row list \<times> turn_store)" where
  "open_sort_key_gap right_key cnt existing touched st =
     (let delta = gap_delta existing right_key cnt
      in case shift_canonical_turn_sort_keys right_key delta st of
           Inl e \<Rightarrow> Inl e
         | Inr (st', shifted) \<Rightarrow>
             Inr (delta, map (shift_row right_key delta) existing,
                  map (shift_row right_key delta) touched, st'))"

text \<open>
  \<open>_allocate_bounded_sort_keys\<close>; the result carries the mirrors and the store along.
\<close>

definition allocate_bounded_sort_keys ::
  "rat option \<Rightarrow> rat option \<Rightarrow> nat \<Rightarrow> canonical_row list \<Rightarrow> canonical_row list \<Rightarrow> turn_store \<Rightarrow>
     store_error + (rat list \<times> canonical_row list \<times> canonical_row list \<times> turn_store)" where
  "allocate_bounded_sort_keys left_key right_key cnt existing touched st =
     (case allocate_sort_keys left_key right_key cnt of
        Some keys \<Rightarrow> Inr (keys, existing, touched, st)
      | None \<Rightarrow>
          (case right_key of
             None \<Rightarrow> Inl AllocationFailed
           | Some right \<Rightarrow>
               (case open_sort_key_gap right cnt existing touched st of
                  Inl e \<Rightarrow> Inl e
                | Inr (delta, existing', touched', st') \<Rightarrow>
                    (case allocate_sort_keys left_key (Some (right + delta)) cnt of
                       None \<Rightarrow> Inl AllocationFailed
                     | Some keys \<Rightarrow> Inr (keys, existing', touched', st')))))"

subsection \<open>The shift keeps the order\<close>

lemma shift_row_simps [simp]:
  "row_canonical_turn_id (shift_row m d r) = row_canonical_turn_id r"
  "row_turn_hash (shift_row m d r) = row_turn_hash r"
  "row_sort_key (shift_row m d r) = (if m \<le> row_sort_key r then row_sort_key r + d else row_sort_key r)"
  by (simp_all add: shift_row_def)

lemma shift_row_strict_mono:
  "0 \<le> d \<Longrightarrow> row_sort_key r < row_sort_key r' \<Longrightarrow>
     row_sort_key (shift_row m d r) < row_sort_key (shift_row m d r')"
  by auto

lemma sorted_shift:
  "0 \<le> d \<Longrightarrow> sorted_wrt (<) (map row_sort_key rows) \<Longrightarrow>
     sorted_wrt (<) (map row_sort_key (map (shift_row m d) rows))"
  unfolding sorted_wrt_map map_map o_def
  by (erule sorted_wrt_mono_rel[rotated]) (blast intro: shift_row_strict_mono)

lemma store_inv_shift:
  assumes "store_inv st" "0 \<le> d"
  shows "store_inv (st\<lparr>st_turns := map (shift_row m d) (st_turns st)\<rparr>)"
proof -
  have "inj_on row_sort_key (set (st_turns st))" "distinct (st_turns st)"
    using assms(1) by (auto simp: store_inv_def distinct_map)
  then have "inj_on (row_sort_key \<circ> shift_row m d) (set (st_turns st))"
    using assms(2) by (auto simp: inj_on_def not_le)
  moreover have "row_canonical_turn_id \<circ> shift_row m d = row_canonical_turn_id" by auto
  ultimately show ?thesis
    using assms(1) \<open>distinct (st_turns st)\<close>
    by (auto simp: store_inv_def distinct_map comp_def)
qed

lemma stored_rows_shift:
  assumes "store_inv st" "0 \<le> d"
  shows "stored_rows (st\<lparr>st_turns := map (shift_row m d) (st_turns st)\<rparr>)
    = map (shift_row m d) (stored_rows st)"
proof (rule turn_table.rows_unique)
  show "store_inv (st\<lparr>st_turns := map (shift_row m d) (st_turns st)\<rparr>)"
    using assms by (rule store_inv_shift)
  show "sorted_wrt (<) (map row_sort_key (map (shift_row m d) (stored_rows st)))"
    using assms by (intro sorted_shift stored_rows_strict)
qed simp

subsection \<open>A rebalance always succeeds\<close>

lemma gap_delta_exceeds:
  assumes "r \<in> set existing" "right_key \<le> row_sort_key r"
  shows "row_sort_key r - right_key + 1000 \<le> gap_delta existing right_key cnt"
proof -
  obtain a es where e: "existing = a # es" using assms(1) by (cases existing) auto
  have "row_sort_key r \<le> fold max (map row_sort_key es) (row_sort_key a)"
    using assms(1) e by (intro fold_max_ge) auto
  moreover have "(1000::rat) * (of_nat cnt + 1) \<ge> 1000" by simp
  ultimately show ?thesis using e by (simp add: gap_delta_def)
qed

text \<open>The in-memory mirror agrees with the store on the rows that a shift would move.\<close>

definition mirrors_above :: "rat \<Rightarrow> canonical_row list \<Rightarrow> turn_store \<Rightarrow> bool" where
  "mirrors_above right existing st \<longleftrightarrow>
     {k \<in> row_sort_key ` set existing. right \<le> k} = {k \<in> row_sort_key ` set (st_turns st). right \<le> k}"

lemma mirrors_aboveI:
  "map row_sort_key existing = map row_sort_key (stored_rows st) \<Longrightarrow> mirrors_above right existing st"
  by (drule arg_cong[where f = set]) (simp add: mirrors_above_def)

lemma open_sort_key_gap_ok:
  assumes inv: "store_inv st" and ex: "mirrors_above right_key existing st"
    and r: "r \<in> set existing" "row_sort_key r = right_key"
  shows "\<exists>d. d = gap_delta existing right_key cnt \<and> 1000 * (of_nat cnt + 1) \<le> d \<and>
    open_sort_key_gap right_key cnt existing touched st =
      Inr (d, map (shift_row right_key d) existing, map (shift_row right_key d) touched,
           st\<lparr>st_turns := map (shift_row right_key d) (st_turns st)\<rparr>)"
proof -
  let ?d = "gap_delta existing right_key cnt"
  obtain a es where e: "existing = a # es" using r(1) by (cases existing) auto
  have "right_key \<le> fold max (map row_sort_key es) (row_sort_key a)"
    using r e by (metis fold_max_ge image_insert list.simps(15) list.set_map image_eqI)
  then have big: "1000 * (of_nat cnt + 1) \<le> ?d" using e by (simp add: gap_delta_def)
  have pos: "0 < ?d" using big by (rule less_le_trans[rotated]) simp
  let ?f = "filter (\<lambda>k. right_key \<le> k) (map row_sort_key (st_turns st))"
  have f_eq: "set ?f = {k \<in> row_sort_key ` set existing. right_key \<le> k}"
    using ex by (simp add: mirrors_above_def)
  then have "right_key \<in> set ?f" using r by auto
  then obtain k ks where f: "?f = k # ks" by (cases ?f) auto
  have "fold max ks k \<in> set (k # ks)"
    by (metis List.finite_set Max.set_eq_fold Max_in list.distinct(1) set_empty)
  then have "fold max ks k \<in> set ?f" using f by simp
  then obtain q where q: "q \<in> set existing" "fold max ks k = row_sort_key q" "right_key \<le> row_sort_key q"
    unfolding f_eq by auto
  have "\<not> ?d \<le> fold max ks k - right_key"
    using gap_delta_exceeds[OF q(1,3), of cnt] q(2) by simp
  then show ?thesis using f pos big
    by (auto simp: open_sort_key_gap_def shift_canonical_turn_sort_keys_def Let_def)
qed

text \<open>
  The contract of a bounded allocation: it never fails on the boundaries the reconciler
  passes, the keys lie in the (possibly widened) gap, and rows only moved upwards in step.
\<close>

definition rebalanced :: "rat option \<Rightarrow> rat \<Rightarrow> canonical_row list \<Rightarrow> canonical_row list \<Rightarrow> bool" where
  "rebalanced right d rows rows' \<longleftrightarrow>
     rows' = (case right of None \<Rightarrow> rows | Some r \<Rightarrow> map (shift_row r d) rows)"

lemma shift_row_0 [simp]: "shift_row m 0 r = r"
  by (simp add: shift_row_def)

lemma map_shift_row_0 [simp]: "map (shift_row m 0) rows = rows"
  by (simp add: map_idI)

lemma store_shift_0 [simp]: "st\<lparr>st_turns := map (shift_row m 0) (st_turns st)\<rparr> = st"
  by simp

lemma allocate_bounded_ok:
  assumes inv: "store_inv st" and ex: "\<And>r. right_key = Some r \<Longrightarrow> mirrors_above r existing st"
    and right: "\<And>r. right_key = Some r \<Longrightarrow> \<exists>x\<in>set existing. row_sort_key x = r"
    and gap: "\<And>l r. left_key = Some l \<Longrightarrow> right_key = Some r \<Longrightarrow> l < r"
  shows "\<exists>d keys. 0 \<le> d \<and> length keys = cnt \<and>
     keys_in_gap left_key keys (map_option (\<lambda>r. r + d) right_key) \<and>
     (right_key = None \<longrightarrow> d = 0) \<and>
     allocate_bounded_sort_keys left_key right_key cnt existing touched st =
       Inr (keys, map (shift_row (the right_key) d) existing, map (shift_row (the right_key) d) touched,
            st\<lparr>st_turns := map (shift_row (the right_key) d) (st_turns st)\<rparr>)"
proof (cases "allocate_sort_keys left_key right_key cnt")
  case (Some keys)
  with allocate_sort_keys_in_gap[OF Some] show ?thesis
    by (intro exI[of _ 0] exI[of _ keys])
       (auto simp: allocate_bounded_sort_keys_def option.map_ident)
next
  case None
  then obtain l r where lr: "left_key = Some l" "right_key = Some r" "cnt \<noteq> 0"
    by (auto simp: allocate_sort_keys_None_iff)
  obtain x where x: "x \<in> set existing" "row_sort_key x = r" using right lr(2) by blast
  obtain d where d: "1000 * (of_nat cnt + 1) \<le> d"
    "open_sort_key_gap r cnt existing touched st =
      Inr (d, map (shift_row r d) existing, map (shift_row r d) touched,
           st\<lparr>st_turns := map (shift_row r d) (st_turns st)\<rparr>)"
    using open_sort_key_gap_ok[OF inv ex[OF lr(2)] x] by blast
  have "1000 \<le> (r + d - l) / (of_nat cnt + 1)"
    using d(1) gap[OF lr(1,2)] by (simp add: field_simps)
  then have "\<not> (r + d - l) / (of_nat cnt + 1) < min_sort_key_step"
    unfolding min_sort_key_step_def by linarith
  then have "allocate_sort_keys left_key (Some (r + d)) cnt \<noteq> None"
    using lr by (auto simp: allocate_sort_keys_None_iff)
  then obtain keys where keys: "allocate_sort_keys left_key (Some (r + d)) cnt = Some keys" by blast
  have "0 \<le> d" using d(1) by (rule order_trans[rotated]) simp
  with allocate_sort_keys_in_gap[OF keys] keys None lr d(2) show ?thesis
    by (intro exI[of _ d] exI[of _ keys]) (auto simp: allocate_bounded_sort_keys_def)
qed

end
