(* ===== verification/Alignment.thy ===== *)
theory Alignment
  imports TurnStore
begin

text \<open>
  Alignment of a payload with the stored conversation: \<open>_find_alignment\<close>,
  \<open>_load_existing_anchor_index\<close> and \<open>_build_anchor_rows\<close> of
  core/ingest\_reconciler.py.  The lemmas show that every alignment found is a genuine
  common block of the two hash sequences that cannot be extended on either side.
\<close>

section \<open>Anchors of a row sequence\<close>

definition anchor_window_sizes :: "nat list" where
  "anchor_window_sizes = [3, 4, 5]"

definition alignment_window_sizes :: "nat list" where
  "alignment_window_sizes = rev anchor_window_sizes"

definition anchor_at :: "(string \<Rightarrow> string) \<Rightarrow> canonical_row list \<Rightarrow> nat \<Rightarrow> nat \<Rightarrow> anchor list" where
  "anchor_at sha rows w start =
     (let start_turn_id = row_canonical_turn_id (rows ! start)
      in if start_turn_id = [] then [] else [(w, compute_anchor_hash sha rows start w, start_turn_id)])"

definition window_anchors :: "(string \<Rightarrow> string) \<Rightarrow> canonical_row list \<Rightarrow> nat \<Rightarrow> anchor list" where
  "window_anchors sha rows w =
     (if length rows < w then []
      else concat (map (anchor_at sha rows w) [0..<length rows - w + 1]))"

definition build_anchor_rows :: "(string \<Rightarrow> string) \<Rightarrow> canonical_row list \<Rightarrow> anchor list" where
  "build_anchor_rows sha rows = concat (map (window_anchors sha rows) anchor_window_sizes)"

definition load_existing_anchor_index ::
  "(string \<Rightarrow> string) \<Rightarrow> turn_store \<Rightarrow> canonical_row list \<Rightarrow> nat \<Rightarrow> (string \<times> nat list) list" where
  "load_existing_anchor_index sha st existing w =
     (let anchors = get_canonical_turn_anchor_positions w st
      in if anchors \<noteq> [] then anchors else build_anchor_index sha existing w)"

section \<open>The search\<close>

datatype merge_mode =
    ExactResend | TailAppend | PrefixWidening | InteriorOverlap
  | NoOverlapAppend | EmptyPayload | FragmentRejected

record alignment =
  al_existing_start :: nat
  al_incoming_start :: nat
  al_overlap_len :: nat
  al_window_size :: nat
  al_merge_mode :: merge_mode

definition mk_alignment :: "nat \<Rightarrow> nat \<Rightarrow> nat \<Rightarrow> nat \<Rightarrow> merge_mode \<Rightarrow> alignment" where
  "mk_alignment es is len w m = \<lparr>al_existing_start = es, al_incoming_start = is,
     al_overlap_len = len, al_window_size = w, al_merge_mode = m\<rparr>"

definition alignment_mode :: "nat \<Rightarrow> nat \<Rightarrow> nat \<Rightarrow> nat \<Rightarrow> merge_mode" where
  "alignment_mode n_incoming existing_start incoming_start overlap_len =
     (if overlap_len = n_incoming then ExactResend
      else if incoming_start = 0 \<and> existing_start = 0
        then (if n_incoming > overlap_len then TailAppend else ExactResend)
      else if existing_start = 0 \<and> incoming_start > 0 \<and> incoming_start + overlap_len = n_incoming
        then PrefixWidening
      else InteriorOverlap)"

text \<open>Short payloads: the first common block, longest first, then leftmost.\<close>

definition blocks_of :: "string list \<Rightarrow> string list \<Rightarrow> nat \<Rightarrow> (nat \<times> nat \<times> nat) list" where
  "blocks_of existing incoming overlap_len =
     [(overlap_len, incoming_start, existing_start).
        incoming_start \<leftarrow> [0..<length incoming - overlap_len + 1],
        existing_start \<leftarrow> [0..<length existing - overlap_len + 1],
        slice existing_start overlap_len existing = slice incoming_start overlap_len incoming]"

definition short_blocks :: "string list \<Rightarrow> string list \<Rightarrow> (nat \<times> nat \<times> nat) list" where
  "short_blocks existing incoming =
     concat (map (blocks_of existing incoming)
               (rev [1..<Suc (min (length existing) (length incoming))]))"

definition short_overlap :: "string list \<Rightarrow> string list \<Rightarrow> alignment option" where
  "short_overlap existing incoming =
     (case short_blocks existing incoming of
        [] \<Rightarrow> None
      | (len, is, es) # _ \<Rightarrow>
          Some (mk_alignment es is len len (alignment_mode (length incoming) es is len)))"

text \<open>The two \<open>while\<close> loops that widen an anchor match to the left and to the right.\<close>

fun left_extension :: "string list \<Rightarrow> string list \<Rightarrow> nat \<Rightarrow> nat \<Rightarrow> nat" where
  "left_extension incoming existing (Suc i) (Suc e) =
     (if incoming ! i = existing ! e then Suc (left_extension incoming existing i e) else 0)"
| "left_extension incoming existing _ _ = 0"

function right_extension :: "string list \<Rightarrow> string list \<Rightarrow> nat \<Rightarrow> nat \<Rightarrow> nat" where
  "right_extension incoming existing i e =
     (if i < length incoming \<and> e < length existing \<and> incoming ! i = existing ! e
      then Suc (right_extension incoming existing (Suc i) (Suc e)) else 0)"
  by pat_completeness auto
termination
  by (relation "measure (\<lambda>(incoming, existing, i, e). length incoming - i)") auto

declare right_extension.simps [simp del]

definition widen :: "string list \<Rightarrow> string list \<Rightarrow> nat \<Rightarrow> nat \<Rightarrow> nat \<Rightarrow> alignment" where
  "widen existing incoming w incoming_start existing_start =
     (let left = left_extension incoming existing incoming_start existing_start;
          right = w + right_extension incoming existing (incoming_start + w) (existing_start + w);
          overlap_len = left + right;
          is = incoming_start - left;
          es = existing_start - left
      in mk_alignment es is overlap_len w (alignment_mode (length incoming) es is overlap_len))"

definition better :: "alignment \<Rightarrow> alignment option \<Rightarrow> alignment option" where
  "better candidate best =
     (case best of
        None \<Rightarrow> Some candidate
      | Some b \<Rightarrow>
          if al_overlap_len candidate > al_overlap_len b
             \<or> (al_overlap_len candidate = al_overlap_len b
                \<and> al_window_size candidate > al_window_size b)
          then Some candidate else Some b)"

definition anchor_pairs ::
  "(string \<times> nat list) list \<Rightarrow> (string \<times> nat list) list \<Rightarrow> (nat \<times> nat) list" where
  "anchor_pairs existing_index incoming_index =
     [(i, e). (digest, incoming_positions) \<leftarrow> incoming_index,
              i \<leftarrow> incoming_positions,
              e \<leftarrow> lookup_list existing_index digest]"

fun search_windows ::
  "(string \<Rightarrow> string) \<Rightarrow> turn_store \<Rightarrow> canonical_row list \<Rightarrow> canonical_row list \<Rightarrow> nat list \<Rightarrow>
     alignment option" where
  "search_windows sha st existing incoming [] = None"
| "search_windows sha st existing incoming (w # ws) =
     (let existing_index = load_existing_anchor_index sha st existing w
      in if existing_index = [] then search_windows sha st existing incoming ws
         else (case fold (\<lambda>(i, e). better (widen (map row_turn_hash existing)
                                                 (map row_turn_hash incoming) w i e))
                      (anchor_pairs existing_index (build_anchor_index sha incoming w)) None of
                 Some best \<Rightarrow> Some best
               | None \<Rightarrow> search_windows sha st existing incoming ws))"

definition find_alignment ::
  "(string \<Rightarrow> string) \<Rightarrow> turn_store \<Rightarrow> canonical_row list \<Rightarrow> canonical_row list \<Rightarrow> bool \<Rightarrow>
     alignment option" where
  "find_alignment sha st existing incoming allow_short_overlap =
     (let ex = map row_turn_hash existing; inc = map row_turn_hash incoming;
          n = length ex; m = length inc
      in if existing = [] \<or> incoming = [] then None
         else if ex = inc then Some (mk_alignment 0 0 n 0 ExactResend)
         else if n \<le> m \<and> take n inc = ex then Some (mk_alignment 0 0 n 0 TailAppend)
         else if n \<le> m \<and> take_last n inc = ex
           then Some (mk_alignment 0 (m - n) n 0 PrefixWidening)
         else (case (if allow_short_overlap \<and> min n m < 3 then short_overlap ex inc else None) of
                 Some a \<Rightarrow> Some a
               | None \<Rightarrow> search_windows sha st existing incoming alignment_window_sizes))"

section \<open>Every alignment is a common block\<close>

definition common_block :: "string list \<Rightarrow> string list \<Rightarrow> alignment \<Rightarrow> bool" where
  "common_block ex inc a \<longleftrightarrow>
     0 < al_overlap_len a
     \<and> al_existing_start a + al_overlap_len a \<le> length ex
     \<and> al_incoming_start a + al_overlap_len a \<le> length inc
     \<and> slice (al_existing_start a) (al_overlap_len a) ex
       = slice (al_incoming_start a) (al_overlap_len a) inc"

text \<open>The block can be extended neither to the left nor to the right.\<close>

definition maximal_block :: "string list \<Rightarrow> string list \<Rightarrow> alignment \<Rightarrow> bool" where
  "maximal_block ex inc a \<longleftrightarrow>
     (al_existing_start a = 0 \<or> al_incoming_start a = 0
        \<or> ex ! (al_existing_start a - 1) \<noteq> inc ! (al_incoming_start a - 1))
     \<and> (al_existing_start a + al_overlap_len a = length ex
        \<or> al_incoming_start a + al_overlap_len a = length inc
        \<or> ex ! (al_existing_start a + al_overlap_len a)
            \<noteq> inc ! (al_incoming_start a + al_overlap_len a))"

lemma mk_alignment_sel [simp]:
  "al_existing_start (mk_alignment es is len w m) = es"
  "al_incoming_start (mk_alignment es is len w m) = is"
  "al_overlap_len (mk_alignment es is len w m) = len"
  "al_window_size (mk_alignment es is len w m) = w"
  "al_merge_mode (mk_alignment es is len w m) = m"
  by (simp_all add: mk_alignment_def)

lemma left_extension_spec:
  "left_extension inc ex i e \<le> i \<and> left_extension inc ex i e \<le> e
   \<and> (\<forall>k<left_extension inc ex i e. inc ! (i - Suc k) = ex ! (e - Suc k))
   \<and> (i - left_extension inc ex i e = 0 \<or> e - left_extension inc ex i e = 0
      \<or> inc ! (i - Suc (left_extension inc ex i e)) \<noteq> ex ! (e - Suc (left_extension inc ex i e)))"
proof (induction inc ex i e rule: left_extension.induct)
  case (1 inc ex i e)
  then show ?case by (auto simp: less_Suc_eq_0_disj)
qed auto

lemma right_extension_spec:
  "i \<le> length inc \<Longrightarrow> e \<le> length ex \<Longrightarrow>
     i + right_extension inc ex i e \<le> length inc \<and> e + right_extension inc ex i e \<le> length ex
   \<and> (\<forall>k<right_extension inc ex i e. inc ! (i + k) = ex ! (e + k))
   \<and> (i + right_extension inc ex i e = length inc \<or> e + right_extension inc ex i e = length ex
      \<or> inc ! (i + right_extension inc ex i e) \<noteq> ex ! (e + right_extension inc ex i e))"
proof (induction inc ex i e rule: right_extension.induct)
  case (1 inc ex i e)
  show ?case
  proof (cases "i < length inc \<and> e < length ex \<and> inc ! i = ex ! e")
    case True
    from "1.IH"[OF True] True show ?thesis
      by (subst right_extension.simps[of inc ex i e])+ (auto simp: less_Suc_eq_0_disj)
  next
    case False
    with "1.prems" show ?thesis by (auto simp: right_extension.simps[of inc ex i e])
  qed
qed

lemma widen_block:
  assumes "0 < w" "i + w \<le> length inc" "e + w \<le> length ex"
    and eq: "slice i w inc = slice e w ex"
  shows "common_block ex inc (widen ex inc w i e) \<and> maximal_block ex inc (widen ex inc w i e)
    \<and> w \<le> al_overlap_len (widen ex inc w i e)"
proof -
  let ?l = "left_extension inc ex i e" and ?r = "right_extension inc ex (i + w) (e + w)"
  have l: "?l \<le> i" "?l \<le> e" "\<And>k. k < ?l \<Longrightarrow> inc ! (i - Suc k) = ex ! (e - Suc k)"
    "i - ?l = 0 \<or> e - ?l = 0 \<or> inc ! (i - Suc ?l) \<noteq> ex ! (e - Suc ?l)"
    using left_extension_spec[of inc ex i e] by auto
  have r: "i + w + ?r \<le> length inc" "e + w + ?r \<le> length ex"
    "\<And>k. k < ?r \<Longrightarrow> inc ! (i + w + k) = ex ! (e + w + k)"
    "i + w + ?r = length inc \<or> e + w + ?r = length ex \<or> inc ! (i + w + ?r) \<noteq> ex ! (e + w + ?r)"
    using right_extension_spec[of "i + w" inc "e + w" ex] assms(2,3) by auto
  have m: "\<And>k. k < w \<Longrightarrow> inc ! (i + k) = ex ! (e + k)"
    using eq assms(2,3) by (simp add: slice_eq_iff)
  have "inc ! (i - ?l + k) = ex ! (e - ?l + k)" if k: "k < ?l + w + ?r" for k
  proof -
    consider "k < ?l" | "?l \<le> k" "k < ?l + w" | "?l + w \<le> k" by linarith
    then show ?thesis
    proof cases
      case 1
      then have "i - ?l + k = i - Suc (?l - Suc k)" "e - ?l + k = e - Suc (?l - Suc k)"
        using l(1,2) by auto
      then show ?thesis using l(3)[of "?l - Suc k"] 1 by simp
    next
      case 2
      then show ?thesis using m[of "k - ?l"] l(1,2) by simp
    next
      case 3
      then have "i - ?l + k = i + w + (k - ?l - w)" "e - ?l + k = e + w + (k - ?l - w)"
        using l(1,2) by auto
      then show ?thesis using r(3)[of "k - ?l - w"] 3 k by simp
    qed
  qed
  then have "slice (e - ?l) (?l + w + ?r) ex = slice (i - ?l) (?l + w + ?r) inc"
    using l(1,2) r(1,2) by (subst slice_eq_iff) auto
  then show ?thesis
    using assms(1) l(1,2,4) r(1,2,4)
    by (auto simp: widen_def Let_def common_block_def maximal_block_def add.assoc)
qed

section \<open>The persisted anchors describe the stored rows\<close>

definition anchors_current :: "(string \<Rightarrow> string) \<Rightarrow> turn_store \<Rightarrow> bool" where
  "anchors_current sha st \<longleftrightarrow> set (st_anchors st) = set (build_anchor_rows sha (stored_rows st))"

text \<open>What every stored row looks like: it has an id, and its turn hash is hex.\<close>

definition rows_wf :: "canonical_row list \<Rightarrow> bool" where
  "rows_wf rows \<longleftrightarrow> list_all (\<lambda>r. row_canonical_turn_id r \<noteq> []) rows
     \<and> list_all (\<lambda>r. nul_free (row_turn_hash r)) rows"

definition hashes_wf :: "canonical_row list \<Rightarrow> bool" where
  "hashes_wf rows \<longleftrightarrow> list_all (\<lambda>r. nul_free (row_turn_hash r)) rows"

lemma window_anchors_map:
  "window_anchors sha rows w =
     map (\<lambda>s. (w, compute_anchor_hash sha rows s w, row_canonical_turn_id (rows ! s)))
       (filter (\<lambda>s. row_canonical_turn_id (rows ! s) \<noteq> [])
          (if length rows < w then [] else [0..<length rows - w + 1]))"
proof -
  have "concat (map (anchor_at sha rows w) L) =
      map (\<lambda>s. (w, compute_anchor_hash sha rows s w, row_canonical_turn_id (rows ! s)))
        (filter (\<lambda>s. row_canonical_turn_id (rows ! s) \<noteq> []) L)" for L
    by (induction L) (simp_all add: anchor_at_def Let_def)
  then show ?thesis by (simp add: window_anchors_def del: upt_Suc)
qed

lemma window_anchors_mem:
  assumes "0 < w"
  shows "(w', h, i) \<in> set (window_anchors sha rows w) \<longleftrightarrow>
     w' = w \<and> i \<noteq> [] \<and> (\<exists>s. s + w \<le> length rows \<and> i = row_canonical_turn_id (rows ! s)
        \<and> h = compute_anchor_hash sha rows s w)"
proof -
  have "s \<in> set (if length rows < w then [] else [0..<length rows - w + 1]) \<longleftrightarrow> s + w \<le> length rows" for s
    by auto
  then show ?thesis
    by (auto simp only: window_anchors_map set_map set_filter mem_Collect_eq image_iff prod.inject)
qed

lemma build_anchor_rows_mem:
  "(w, h, i) \<in> set (build_anchor_rows sha rows) \<longleftrightarrow>
     w \<in> set anchor_window_sizes \<and> i \<noteq> [] \<and>
     (\<exists>s. s + w \<le> length rows \<and> i = row_canonical_turn_id (rows ! s)
        \<and> h = compute_anchor_hash sha rows s w)"
  unfolding build_anchor_rows_def anchor_window_sizes_def by (auto simp: window_anchors_mem)

lemma get_positions_lookup:
  "lookup_list (get_canonical_turn_anchor_positions w st) d =
     map fst (filter (\<lambda>(p, h). h = d \<and> h \<noteq> [])
       (concat (map (\<lambda>(pos, r). map (\<lambda>(w', h, i). (pos, h))
                    (filter (\<lambda>(w', h, i). w' = w \<and> i = row_canonical_turn_id r) (st_anchors st)))
                 (enumerate 0 (stored_rows st)))))"
proof -
  have *: "fold (\<lambda>(p, h) m. if h = [] then m else setdefault_append m h p) L m
      = fold (\<lambda>(p, h) m. setdefault_append m h p) (filter (\<lambda>(p, h). h \<noteq> []) L) m"
    for L :: "(nat \<times> string) list" and m
    by (induction L arbitrary: m) auto
  show ?thesis
    unfolding get_canonical_turn_anchor_positions_def * lookup_fold_append
    by (simp add: case_prod_unfold conj_commute)
qed

lemma get_positions_mem:
  assumes inv: "store_inv st" and cur: "anchors_current sha st" and w: "w \<in> set anchor_window_sizes"
    and ids: "list_all (\<lambda>r. row_canonical_turn_id r \<noteq> []) (stored_rows st)"
  shows "p \<in> set (lookup_list (get_canonical_turn_anchor_positions w st) d) \<longleftrightarrow>
    d \<noteq> [] \<and> p + w \<le> length (stored_rows st) \<and> d = compute_anchor_hash sha (stored_rows st) p w"
proof -
  let ?rows = "stored_rows st"
  have lk: "p \<in> set (lookup_list (get_canonical_turn_anchor_positions w st) d) \<longleftrightarrow>
      d \<noteq> [] \<and> p < length ?rows \<and> (w, d, row_canonical_turn_id (?rows ! p)) \<in> set (st_anchors st)"
    unfolding get_positions_lookup by (force simp: in_set_enumerate_eq)
  have inj: "row_canonical_turn_id (?rows ! p) = row_canonical_turn_id (?rows ! s) \<longleftrightarrow> p = s"
    if "p < length ?rows" "s < length ?rows" for p s
    using distinct_ids_stored[OF inv] that by (metis length_map nth_eq_iff_index_eq nth_map)
  have "0 < w" using w by (auto simp: anchor_window_sizes_def)
  then have "(w, d, row_canonical_turn_id (?rows ! p)) \<in> set (st_anchors st) \<longleftrightarrow>
      p + w \<le> length ?rows \<and> d = compute_anchor_hash sha ?rows p w" if "p < length ?rows"
    using cur w ids that inj by (auto simp: anchors_current_def build_anchor_rows_mem list_all_length)
  then show ?thesis using lk \<open>0 < w\<close> by auto
qed

text \<open>
  Whichever index is loaded, its entries are true of the stored rows, and it holds every
  window unless the digest function returns the empty string.
\<close>

lemma load_index_mem:
  assumes "store_inv st" "anchors_current sha st" "w \<in> set anchor_window_sizes"
    "list_all (\<lambda>r. row_canonical_turn_id r \<noteq> []) (stored_rows st)"
  shows "p \<in> set (lookup_list (load_existing_anchor_index sha st (stored_rows st) w) d) \<Longrightarrow>
      p + w \<le> length (stored_rows st) \<and> d = compute_anchor_hash sha (stored_rows st) p w"
    and "sha (anchor_payload (map row_turn_hash (slice p w (stored_rows st)))) \<noteq> [] \<Longrightarrow>
      p + w \<le> length (stored_rows st) \<Longrightarrow>
      p \<in> set (lookup_list (load_existing_anchor_index sha st (stored_rows st) w)
                (compute_anchor_hash sha (stored_rows st) p w))"
proof -
  have "0 < w" using assms(3) by (auto simp: anchor_window_sizes_def)
  then show "p + w \<le> length (stored_rows st) \<and> d = compute_anchor_hash sha (stored_rows st) p w"
    if "p \<in> set (lookup_list (load_existing_anchor_index sha st (stored_rows st) w) d)"
    using that get_positions_mem[OF assms, of p d]
    by (auto simp: load_existing_anchor_index_def Let_def lookup_build_anchor_index split: if_splits)
  show "p \<in> set (lookup_list (load_existing_anchor_index sha st (stored_rows st) w)
                (compute_anchor_hash sha (stored_rows st) p w))"
    if "sha (anchor_payload (map row_turn_hash (slice p w (stored_rows st)))) \<noteq> []"
      "p + w \<le> length (stored_rows st)"
    using that \<open>0 < w\<close> get_positions_mem[OF assms, of p "compute_anchor_hash sha (stored_rows st) p w"]
    by (auto simp: load_existing_anchor_index_def Let_def lookup_build_anchor_index
        compute_anchor_hash_def)
qed

section \<open>The best candidate\<close>

lemma fold_better_Some:
  "fold better L (Some b) = Some r \<Longrightarrow>
     r \<in> insert b (set L) \<and> (\<forall>a\<in>insert b (set L). al_overlap_len a \<le> al_overlap_len r)"
proof (induction L arbitrary: b)
  case (Cons a L)
  show ?case
  proof (cases "al_overlap_len a > al_overlap_len b
      \<or> (al_overlap_len a = al_overlap_len b \<and> al_window_size a > al_window_size b)")
    case True
    then have "better a (Some b) = Some a" by (simp add: better_def)
    with Cons.prems have "fold better L (Some a) = Some r" by simp
    from Cons.IH[OF this] True show ?thesis by auto
  next
    case False
    then have "better a (Some b) = Some b" by (auto simp: better_def)
    with Cons.prems have "fold better L (Some b) = Some r" by simp
    from Cons.IH[OF this] False show ?thesis by auto
  qed
qed auto

lemma fold_better_total: "\<exists>r. fold better L (Some b) = Some r"
  by (induction L arbitrary: b) (auto simp: better_def)

lemma fold_better:
  "fold better L None = (if L = [] then None else fold better (tl L) (Some (hd L)))"
  by (cases L) (auto simp: better_def)

lemma fold_better_max:
  assumes "fold better L None = Some r"
  shows "r \<in> set L" "a \<in> set L \<Longrightarrow> al_overlap_len a \<le> al_overlap_len r"
proof -
  from assms have "L \<noteq> []" by auto
  then have "L = hd L # tl L" by simp
  with assms \<open>L \<noteq> []\<close> have "r \<in> set L \<and> (\<forall>a\<in>set L. al_overlap_len a \<le> al_overlap_len r)"
    using fold_better_Some[of "tl L" "hd L" r] by (metis fold_better list.simps(15))
  then show "r \<in> set L" "a \<in> set L \<Longrightarrow> al_overlap_len a \<le> al_overlap_len r" by auto
qed

lemma fold_better_exists: "L \<noteq> [] \<Longrightarrow> \<exists>r. fold better L None = Some r"
  using fold_better_total by (simp add: fold_better)

definition window_candidates ::
  "(string \<Rightarrow> string) \<Rightarrow> turn_store \<Rightarrow> canonical_row list \<Rightarrow> canonical_row list \<Rightarrow> nat \<Rightarrow> alignment list" where
  "window_candidates sha st existing incoming w =
     map (\<lambda>(i, e). widen (map row_turn_hash existing) (map row_turn_hash incoming) w i e)
       (anchor_pairs (load_existing_anchor_index sha st existing w) (build_anchor_index sha incoming w))"

lemma search_windows_step:
  "search_windows sha st existing incoming (w # ws) =
     (if load_existing_anchor_index sha st existing w = [] then search_windows sha st existing incoming ws
      else case fold better (window_candidates sha st existing incoming w) None of
             Some best \<Rightarrow> Some best
           | None \<Rightarrow> search_windows sha st existing incoming ws)"
  by (simp add: window_candidates_def fold_map comp_def case_prod_unfold Let_def)

lemma search_windows_Some:
  "search_windows sha st existing incoming ws = Some a \<Longrightarrow>
     \<exists>w\<in>set ws. a \<in> set (window_candidates sha st existing incoming w)"
proof (induction ws)
  case (Cons w ws)
  then show ?case
    by (auto simp: search_windows_step simp del: search_windows.simps(2)
        dest: fold_better_max(1) split: if_splits option.splits)
qed simp

lemma anchor_pairs_mem:
  "(i, e) \<in> set (anchor_pairs m (build_anchor_index sha rows w)) \<longleftrightarrow>
     0 < w \<and> i + w \<le> length rows \<and> e \<in> set (lookup_list m (compute_anchor_hash sha rows i w))"
proof -
  let ?n = "build_anchor_index sha rows w"
  have *: "(i, e) \<in> set (anchor_pairs m n) \<longleftrightarrow>
      (\<exists>(d, ps)\<in>set n. i \<in> set ps \<and> e \<in> set (lookup_list m d))" for n
    by (fastforce simp: anchor_pairs_def)
  have "(\<exists>(d, ps)\<in>set ?n. i \<in> set ps \<and> P d) \<longleftrightarrow> (\<exists>d. i \<in> set (lookup_list ?n d) \<and> P d)" for P
  proof
    assume "\<exists>(d, ps)\<in>set ?n. i \<in> set ps \<and> P d"
    then show "\<exists>d. i \<in> set (lookup_list ?n d) \<and> P d"
      using member_lookup[OF distinct_build_anchor_index] by fastforce
  next
    assume "\<exists>d. i \<in> set (lookup_list ?n d) \<and> P d"
    then show "\<exists>(d, ps)\<in>set ?n. i \<in> set ps \<and> P d"
      using lookup_member[of i ?n] by fastforce
  qed
  then show ?thesis by (auto simp: * lookup_build_anchor_index)
qed

text \<open>The hypotheses under which anchors can be trusted.\<close>

definition anchors_trusted ::
  "(string \<Rightarrow> string) \<Rightarrow> turn_store \<Rightarrow> canonical_row list \<Rightarrow> bool" where
  "anchors_trusted sha st incoming \<longleftrightarrow>
     store_inv st \<and> anchors_current sha st \<and> rows_wf (stored_rows st) \<and> hashes_wf incoming
     \<and> inj_on sha (window_payloads (stored_rows st) \<union> window_payloads incoming)"

lemma window_candidates_sound:
  assumes tr: "anchors_trusted sha st incoming" and w: "w \<in> set anchor_window_sizes"
    and a: "a \<in> set (window_candidates sha st (stored_rows st) incoming w)"
  shows "common_block (map row_turn_hash (stored_rows st)) (map row_turn_hash incoming) a
    \<and> maximal_block (map row_turn_hash (stored_rows st)) (map row_turn_hash incoming) a"
proof -
  let ?ex = "map row_turn_hash (stored_rows st)" and ?in = "map row_turn_hash incoming"
  from tr have inv: "store_inv st" "anchors_current sha st" "rows_wf (stored_rows st)"
    "hashes_wf incoming" "inj_on sha (window_payloads (stored_rows st) \<union> window_payloads incoming)"
    by (auto simp: anchors_trusted_def)
  from a obtain i e where ie: "a = widen ?ex ?in w i e" "0 < w" "i + w \<le> length incoming"
    "e \<in> set (lookup_list (load_existing_anchor_index sha st (stored_rows st) w)
              (compute_anchor_hash sha incoming i w))"
    by (auto simp: window_candidates_def anchor_pairs_mem)
  then have e: "e + w \<le> length (stored_rows st)"
    "compute_anchor_hash sha incoming i w = compute_anchor_hash sha (stored_rows st) e w"
    using load_index_mem(1)[OF inv(1,2) w] inv(3) by (auto simp: rows_wf_def)
  have "slice e w ?ex = slice i w ?in"
    using compute_anchor_hash_inj[OF inv(5) _ _ e(1) ie(3)] e(2) inv(3,4)
    by (simp add: rows_wf_def hashes_wf_def list_all_iff)
  then show ?thesis using widen_block[of w i ?in e ?ex] ie e by simp
qed

lemma window_candidates_mode:
  "a \<in> set (window_candidates sha st existing incoming w) \<Longrightarrow>
     al_merge_mode a = alignment_mode (length incoming) (al_existing_start a)
       (al_incoming_start a) (al_overlap_len a)"
  by (auto simp: window_candidates_def widen_def Let_def)

section \<open>Short payloads\<close>

lemma hd_concat_longest:
  assumes g: "\<And>l y. y \<in> set (g l) \<Longrightarrow> fst y = (l::nat)"
    and "concat (map g (rev [1..<Suc m])) = x # xs" "y \<in> set (x # xs)"
  shows "fst y \<le> fst x"
  using assms(2,3)
proof (induction m arbitrary: x xs)
  case (Suc m)
  show ?case
  proof (cases "g (Suc m)")
    case Nil
    with Suc show ?thesis by simp
  next
    case (Cons z zs)
    with Suc.prems(1) have "x = z" by simp
    with Cons g have "fst x = Suc m" by (metis list.set_intros(1))
    moreover have "fst y \<le> Suc m"
    proof -
      have "y \<in> set (concat (map g (rev [1..<Suc (Suc m)])))" using Suc.prems by metis
      then obtain l where "l \<in> {1..<Suc (Suc m)}" "y \<in> set (g l)"
        by (auto simp del: upt_Suc)
      with g show ?thesis by fastforce
    qed
    ultimately show ?thesis by simp
  qed
qed simp

lemma blocks_of_mem:
  "(l, i, e) \<in> set (blocks_of ex inc n) \<longleftrightarrow>
     l = n \<and> i \<le> length inc - n \<and> e \<le> length ex - n \<and> slice e n ex = slice i n inc"
  by (auto simp: blocks_of_def simp del: upt_Suc split: if_splits)

lemma short_blocks_mem:
  "(l, i, e) \<in> set (short_blocks ex inc) \<longleftrightarrow>
     0 < l \<and> i + l \<le> length inc \<and> e + l \<le> length ex \<and> slice e l ex = slice i l inc"
  by (auto simp: short_blocks_def blocks_of_mem simp del: upt_Suc)

lemma slice_append_last:
  "a + n < length xs \<Longrightarrow> slice a (Suc n) xs = slice a n xs @ [xs ! (a + n)]"
  by (simp add: slice_def take_Suc_conv_app_nth)

lemma slice_Cons_first:
  "0 < a \<Longrightarrow> 0 < n \<Longrightarrow> a + n \<le> length xs \<Longrightarrow>
     slice (a - Suc 0) (Suc n) xs = xs ! (a - Suc 0) # slice a n xs"
  by (cases a) (simp_all add: slice_def Cons_nth_drop_Suc[symmetric])

lemma short_overlap_spec:
  assumes "short_overlap ex inc = Some a"
  shows "common_block ex inc a \<and> maximal_block ex inc a
    \<and> al_merge_mode a = alignment_mode (length inc) (al_existing_start a) (al_incoming_start a) (al_overlap_len a)"
    "0 < l \<Longrightarrow> i + l \<le> length inc \<Longrightarrow> e + l \<le> length ex \<Longrightarrow> slice e l ex = slice i l inc
       \<Longrightarrow> l \<le> al_overlap_len a"
proof -
  from assms obtain len ist est xs where sb: "short_blocks ex inc = (len, ist, est) # xs"
    and a: "a = mk_alignment est ist len len (alignment_mode (length inc) est ist len)"
    by (auto simp: short_overlap_def split: list.splits)
  have longest: "fst y \<le> len" if "y \<in> set (short_blocks ex inc)" for y
  proof -
    have "fst y \<le> fst (len, ist, est)"
    proof (rule hd_concat_longest)
      show "concat (map (blocks_of ex inc) (rev [1..<Suc (min (length ex) (length inc))]))
          = (len, ist, est) # xs" using sb by (simp only: short_blocks_def)
      show "y \<in> set ((len, ist, est) # xs)" using that sb by simp
    qed (auto simp: blocks_of_mem)
    then show ?thesis by simp
  qed
  have mem: "(len, ist, est) \<in> set (short_blocks ex inc)" by (simp add: sb)
  then have blk: "0 < len" "ist + len \<le> length inc" "est + len \<le> length ex"
    "slice est len ex = slice ist len inc" by (simp_all add: short_blocks_mem)
  have none: "\<not> (i + Suc len \<le> length inc \<and> e + Suc len \<le> length ex
      \<and> slice e (Suc len) ex = slice i (Suc len) inc)" for i e
    using longest[of "(Suc len, i, e)"] by (auto simp: short_blocks_mem)
  have "est = 0 \<or> ist = 0 \<or> ex ! (est - 1) \<noteq> inc ! (ist - 1)"
    using none[of "ist - 1" "est - 1"] blk by (auto simp: slice_Cons_first)
  moreover have "est + len = length ex \<or> ist + len = length inc \<or> ex ! (est + len) \<noteq> inc ! (ist + len)"
    using none[of ist est] blk by (auto simp: slice_append_last)
  ultimately show "common_block ex inc a \<and> maximal_block ex inc a
    \<and> al_merge_mode a = alignment_mode (length inc) (al_existing_start a) (al_incoming_start a) (al_overlap_len a)"
    using blk by (auto simp: a common_block_def maximal_block_def)
  show "l \<le> al_overlap_len a"
    if "0 < l" "i + l \<le> length inc" "e + l \<le> length ex" "slice e l ex = slice i l inc"
    using longest[of "(l, i, e)"] that by (simp add: short_blocks_mem a)
qed

section \<open>What an alignment promises\<close>

lemma exact_branches:
  assumes "ex \<noteq> []" "inc \<noteq> []"
  shows "ex = inc \<Longrightarrow> common_block ex inc (mk_alignment 0 0 (length ex) w m)
           \<and> maximal_block ex inc (mk_alignment 0 0 (length ex) w m)"
    "length ex \<le> length inc \<Longrightarrow> take (length ex) inc = ex \<Longrightarrow>
       common_block ex inc (mk_alignment 0 0 (length ex) w m)
       \<and> maximal_block ex inc (mk_alignment 0 0 (length ex) w m)"
    "length ex \<le> length inc \<Longrightarrow> take_last (length ex) inc = ex \<Longrightarrow>
       common_block ex inc (mk_alignment 0 (length inc - length ex) (length ex) w m)
       \<and> maximal_block ex inc (mk_alignment 0 (length inc - length ex) (length ex) w m)"
  using assms by (auto simp: common_block_def maximal_block_def slice_def take_last_def)

lemma find_alignment_block_max:
  assumes tr: "anchors_trusted sha st incoming"
    and fa: "find_alignment sha st (stored_rows st) incoming short = Some a"
  shows "common_block (map row_turn_hash (stored_rows st)) (map row_turn_hash incoming) a
    \<and> maximal_block (map row_turn_hash (stored_rows st)) (map row_turn_hash incoming) a"
proof -
  let ?ex = "map row_turn_hash (stored_rows st)" and ?in = "map row_turn_hash incoming"
  from fa have ne: "?ex \<noteq> []" "?in \<noteq> []" by (auto simp: find_alignment_def split: if_splits)
  note ex = exact_branches[OF ne]
  from fa ne consider "?ex = ?in" "a = mk_alignment 0 0 (length ?ex) 0 ExactResend"
    | "length ?ex \<le> length ?in" "take (length ?ex) ?in = ?ex"
      "a = mk_alignment 0 0 (length ?ex) 0 TailAppend"
    | "length ?ex \<le> length ?in" "take_last (length ?ex) ?in = ?ex"
      "a = mk_alignment 0 (length ?in - length ?ex) (length ?ex) 0 PrefixWidening"
    | "short_overlap ?ex ?in = Some a"
    | "search_windows sha st (stored_rows st) incoming alignment_window_sizes = Some a"
    by (auto simp: find_alignment_def Let_def split: if_splits option.splits)
  then show ?thesis
  proof cases
    case 4 then show ?thesis by (simp add: short_overlap_spec)
  next
    case 5
    then obtain w where "w \<in> set anchor_window_sizes"
      "a \<in> set (window_candidates sha st (stored_rows st) incoming w)"
      using search_windows_Some by (fastforce simp: alignment_window_sizes_def)
    with tr show ?thesis by (intro window_candidates_sound)
  qed (use ex in auto)
qed

lemma find_alignment_block:
  "anchors_trusted sha st incoming \<Longrightarrow> find_alignment sha st (stored_rows st) incoming short = Some a \<Longrightarrow>
     common_block (map row_turn_hash (stored_rows st)) (map row_turn_hash incoming) a"
  using find_alignment_block_max by blast

text \<open>
  The payload occurs at position \<open>e\<close> of the stored conversation: every anchor window that
  fits finds it from the payload's first row, and widening recovers all of it.
\<close>

definition occurs_at :: "canonical_row list \<Rightarrow> canonical_row list \<Rightarrow> nat \<Rightarrow> bool" where
  "occurs_at existing incoming e \<longleftrightarrow>
     e + length incoming \<le> length existing
     \<and> slice e (length incoming) (map row_turn_hash existing) = map row_turn_hash incoming"

lemma occurs_at_nth:
  "occurs_at existing incoming e \<Longrightarrow> k < length incoming \<Longrightarrow>
     map row_turn_hash existing ! (e + k) = map row_turn_hash incoming ! k"
  unfolding occurs_at_def
  by (metis length_map nat_add_left_cancel_less nth_slice order_less_le_trans)

lemma resend_hit:
  assumes tr: "anchors_trusted sha st incoming" and dig: "[] \<notin> range sha"
    and occ: "occurs_at (stored_rows st) incoming e"
    and w: "w \<in> set anchor_window_sizes" "w \<le> length incoming"
  shows "\<exists>a\<in>set (window_candidates sha st (stored_rows st) incoming w).
    length incoming \<le> al_overlap_len a"
proof -
  let ?ex = "map row_turn_hash (stored_rows st)" and ?in = "map row_turn_hash incoming"
  let ?a = "widen ?ex ?in w 0 e"
  have inv: "store_inv st" "anchors_current sha st" "rows_wf (stored_rows st)"
    using tr by (auto simp: anchors_trusted_def)
  then have ids: "list_all (\<lambda>r. row_canonical_turn_id r \<noteq> []) (stored_rows st)"
    by (simp add: rows_wf_def)
  have w0: "0 < w" using w by (auto simp: anchor_window_sizes_def)
  have ew: "e + w \<le> length (stored_rows st)" "e + length incoming \<le> length (stored_rows st)"
    using occ w by (auto simp: occurs_at_def)
  have sub: "slice 0 w ?in = slice e w ?ex"
    using occurs_at_nth[OF occ] ew w by (subst slice_eq_iff) auto
  then have "compute_anchor_hash sha incoming 0 w = compute_anchor_hash sha (stored_rows st) e w"
    by (simp add: compute_anchor_hash_def map_slice)
  moreover have "e \<in> set (lookup_list (load_existing_anchor_index sha st (stored_rows st) w)
      (compute_anchor_hash sha (stored_rows st) e w))"
    using load_index_mem(2)[OF inv(1,2) w(1) ids] dig ew by (metis rangeI)
  ultimately have mem: "?a \<in> set (window_candidates sha st (stored_rows st) incoming w)"
    using w0 w by (force simp: window_candidates_def anchor_pairs_mem)
  have blk: "maximal_block ?ex ?in ?a" "common_block ?ex ?in ?a"
    using widen_block[of w 0 ?in e ?ex] w0 w ew sub by simp_all
  have st: "al_incoming_start ?a = 0" "al_existing_start ?a = e"
    by (simp_all add: widen_def Let_def)
  have "length incoming \<le> al_overlap_len ?a"
  proof (rule ccontr)
    assume "\<not> length incoming \<le> al_overlap_len ?a"
    with occurs_at_nth[OF occ, of "al_overlap_len ?a"] blk st ew show False
      by (auto simp: maximal_block_def common_block_def)
  qed
  with mem show ?thesis by blast
qed

lemma window_candidates_empty:
  "length incoming < w \<Longrightarrow> window_candidates sha st existing incoming w = []"
  by (simp add: window_candidates_def build_anchor_index_def anchor_pairs_def)

lemma resend_search:
  assumes "anchors_trusted sha st incoming" "[] \<notin> range sha" "occurs_at (stored_rows st) incoming e"
    and "set ws \<subseteq> set anchor_window_sizes" "\<exists>w\<in>set ws. w \<le> length incoming"
  shows "\<exists>a. search_windows sha st (stored_rows st) incoming ws = Some a
    \<and> length incoming \<le> al_overlap_len a"
  using assms(4,5)
proof (induction ws)
  case (Cons w ws)
  show ?case
  proof (cases "w \<le> length incoming")
    case True
    let ?c = "window_candidates sha st (stored_rows st) incoming w"
    obtain h where h: "h \<in> set ?c" "length incoming \<le> al_overlap_len h"
      using resend_hit[OF assms(1-3), of w] Cons.prems True by auto
    then have "?c \<noteq> []" by auto
    then obtain r where r: "fold better ?c None = Some r" using fold_better_exists by blast
    have "load_existing_anchor_index sha st (stored_rows st) w \<noteq> []"
      using h(1) by (auto simp: window_candidates_def anchor_pairs_def)
    moreover have "length incoming \<le> al_overlap_len r"
      using fold_better_max(2)[OF r h(1)] h(2) by simp
    ultimately show ?thesis using r by (simp add: search_windows_step del: search_windows.simps(2))
  next
    case False
    then show ?thesis using Cons window_candidates_empty[of incoming w]
      by (auto simp: search_windows_step simp del: search_windows.simps(2))
  qed
qed simp

lemma search_windows_mode:
  "search_windows sha st existing incoming ws = Some a \<Longrightarrow>
     al_merge_mode a = alignment_mode (length incoming) (al_existing_start a)
       (al_incoming_start a) (al_overlap_len a)"
  by (meson search_windows_Some window_candidates_mode)

lemma full_overlap_mode:
  assumes "common_block ex inc a" "length inc \<le> al_overlap_len a"
    "al_merge_mode a = alignment_mode (length inc) (al_existing_start a) (al_incoming_start a) (al_overlap_len a)"
  shows "al_incoming_start a = 0 \<and> al_overlap_len a = length inc \<and> al_merge_mode a = ExactResend"
  using assms by (auto simp: common_block_def alignment_mode_def)

lemma resend_aligns:
  assumes tr: "anchors_trusted sha st incoming" and dig: "[] \<notin> range sha"
    and occ: "occurs_at (stored_rows st) incoming e"
    and len: "if short then incoming \<noteq> [] else 3 \<le> length incoming"
  shows "map_option (\<lambda>a. (al_incoming_start a, al_overlap_len a, al_merge_mode a))
      (find_alignment sha st (stored_rows st) incoming short) = Some (0, length incoming, ExactResend)"
proof -
  let ?ex = "map row_turn_hash (stored_rows st)" and ?in = "map row_turn_hash incoming"
  let ?m = "length incoming"
  have ne: "incoming \<noteq> []" "stored_rows st \<noteq> []" using len occ by (auto simp: occurs_at_def split: if_splits)
  consider "?ex = ?in" | "?ex \<noteq> ?in" "?m < length (stored_rows st)"
  proof (cases "?m < length (stored_rows st)")
    case False
    with occ have "e = 0" "length (stored_rows st) = ?m" by (auto simp: occurs_at_def)
    with occ have "?ex = ?in" by (simp add: occurs_at_def slice_def)
    with that show ?thesis by blast
  qed (use that in blast)
  then show ?thesis
  proof cases
    case 1
    then have "length (stored_rows st) = ?m" by (metis length_map)
    with 1 ne show ?thesis by (simp add: find_alignment_def)
  next
    case 2
    show ?thesis
    proof (cases "short \<and> ?m < 3")
      case True
      have occ': "0 + ?m \<le> length ?in" "e + ?m \<le> length ?ex" "slice e ?m ?ex = slice 0 ?m ?in"
        using occ by (auto simp: occurs_at_def slice_def)
      then have "short_blocks ?ex ?in \<noteq> []"
        using short_blocks_mem[of ?m 0 e ?ex ?in] ne by auto
      then obtain a where sa: "short_overlap ?ex ?in = Some a"
        by (cases "short_blocks ?ex ?in") (auto simp: short_overlap_def)
      have "?m \<le> al_overlap_len a" using short_overlap_spec(2)[OF sa _ occ'] ne by simp
      then have "al_incoming_start a = 0 \<and> al_overlap_len a = length ?in \<and> al_merge_mode a = ExactResend"
        using short_overlap_spec(1)[OF sa] by (intro full_overlap_mode[of ?ex]) (simp_all only: length_map)
      then have m: "al_incoming_start a = 0" "al_overlap_len a = ?m" "al_merge_mode a = ExactResend" by simp_all
      have "find_alignment sha st (stored_rows st) incoming short = Some a"
        using True 2 ne sa by (simp add: find_alignment_def)
      then show ?thesis by (simp add: m)
    next
      case False
      then have "\<exists>w\<in>set alignment_window_sizes. w \<le> ?m"
        using len by (auto simp: alignment_window_sizes_def anchor_window_sizes_def split: if_splits)
      then obtain a where a: "search_windows sha st (stored_rows st) incoming alignment_window_sizes = Some a"
        "?m \<le> al_overlap_len a"
        using resend_search[OF tr dig occ, of alignment_window_sizes]
        by (auto simp: alignment_window_sizes_def simp del: search_windows.simps)
      then have fa: "find_alignment sha st (stored_rows st) incoming short = Some a"
        using 2 ne False by (auto simp: find_alignment_def)
      have "common_block ?ex ?in a"
        using search_windows_Some[OF a(1)] window_candidates_sound[OF tr]
        by (auto simp: alignment_window_sizes_def)
      then have "al_incoming_start a = 0 \<and> al_overlap_len a = length ?in \<and> al_merge_mode a = ExactResend"
        using a search_windows_mode[OF a(1)] by (intro full_overlap_mode[of ?ex]) (simp_all only: length_map)
      then have m: "al_incoming_start a = 0" "al_overlap_len a = ?m" "al_merge_mode a = ExactResend" by simp_all
      show ?thesis by (simp add: fa m)
    qed
  qed
qed

end
