(* ===== verification/Ingest.thy ===== *)
theory Ingest
  imports SortKeys Alignment
begin

text \<open>
  The merge of a prepared payload into the stored conversation:
  \<open>_ingest_prepared_turns_locked\<close>, \<open>_preserve_existing_enrichment\<close>, \<open>_write_turn\<close>,
  \<open>_refresh_persisted_anchors\<close> and the unattested branches of \<open>ingest_single\<close>
  (core/ingest\_reconciler.py).  The rows are prepared rows without a source claim.
  Identifiers come from the supply \<open>new_id\<close> (\<open>generate_canonical_turn_id\<close>): the batch
  takes \<open>new_id 0\<close>, the \<open>k\<close>-th row written takes \<open>new_id (Suc k)\<close>.  All clock readings
  of one call are \<open>now\<close>; \<open>epoch_ok\<close> is the outcome of the epoch predicate of the
  compare-and-set statements; \<open>delta_ok\<close> is the store's
  \<open>reconcile_excludes_concurrent_writers\<close>.
\<close>

section \<open>Rows written and rows mirrored\<close>

text \<open>
  \<open>_write_turn\<close> followed by the defaults \<open>save_canonical_turn\<close> applies to empty
  timestamps; the optional timestamps of the call are the first two arguments.
\<close>

definition written_row :: "string \<Rightarrow> string \<Rightarrow> string \<Rightarrow> canonical_row \<Rightarrow> canonical_row" where
  "written_row first_seen last_seen now row =
     (let created = str_or (row_created_at row) (str_or first_seen now);
          seen_first = str_or (str_or first_seen (row_first_seen_at row)) created;
          seen_last = str_or (str_or last_seen (row_last_seen_at row)) now
      in row\<lparr>row_created_at := created, row_first_seen_at := seen_first,
             row_last_seen_at := seen_last, row_updated_at := now\<rparr>)"

definition write_turn ::
  "string \<Rightarrow> string \<Rightarrow> string \<Rightarrow> canonical_row \<Rightarrow> turn_store \<Rightarrow> store_error + turn_store" where
  "write_turn first_seen last_seen now row st =
     save_canonical_turn (written_row first_seen last_seen now row) st"

definition stamp_row :: "string \<Rightarrow> string \<Rightarrow> string \<Rightarrow> rat \<Rightarrow> canonical_row \<Rightarrow> canonical_row" where
  "stamp_row batch_id now cid key row =
     row\<lparr>row_canonical_turn_id := cid, row_sort_key := key, row_source_batch_id := batch_id,
         row_last_seen_at := now\<rparr>"

text \<open>The loops \<open>for row, key in zip(rows, keys)\<close>; \<open>k\<close> counts the ids already taken.\<close>

fun stamp_rows ::
  "(nat \<Rightarrow> string) \<Rightarrow> string \<Rightarrow> nat \<Rightarrow> canonical_row list \<Rightarrow> rat list \<Rightarrow> canonical_row list" where
  "stamp_rows new_id now k (row # rows) (key # keys) =
     stamp_row (new_id 0) now (new_id (Suc k)) key row # stamp_rows new_id now (Suc k) rows keys"
| "stamp_rows new_id now k _ _ = []"

definition write_rows ::
  "string \<Rightarrow> canonical_row list \<Rightarrow> turn_store \<Rightarrow> store_error + turn_store" where
  "write_rows now rows st = save_all (write_turn [] [] now) rows st"

text \<open>An overlap row takes over the identity of the stored row it matched.\<close>

definition mirror_row :: "canonical_row \<Rightarrow> canonical_row \<Rightarrow> canonical_row" where
  "mirror_row row stored =
     row\<lparr>row_canonical_turn_id := row_canonical_turn_id stored,
         row_sort_key := row_sort_key stored,
         row_source_batch_id := row_source_batch_id stored,
         row_first_seen_at := str_or (row_first_seen_at stored) (row_first_seen_at row),
         row_last_seen_at := str_or (row_last_seen_at stored) (row_last_seen_at row)\<rparr>"

definition keep_stored :: "string \<Rightarrow> string \<Rightarrow> string" where
  "keep_stored incoming stored =
     (if strip incoming = [] \<and> strip stored \<noteq> [] then stored else incoming)"

definition edge_conflict :: "reply_edge \<Rightarrow> reply_edge \<Rightarrow> bool" where
  "edge_conflict incoming stored \<longleftrightarrow>
     list_ex (\<lambda>(i, s). strip s \<noteq> [] \<and> strip i \<noteq> [] \<and> strip s \<noteq> strip i)
       (zip (edge_texts incoming) (edge_texts stored))"

definition keep_edge :: "bool \<Rightarrow> string \<Rightarrow> string \<Rightarrow> string" where
  "keep_edge conflict incoming stored = (if conflict then stored else keep_stored incoming stored)"

definition keep_version :: "bool \<Rightarrow> int \<Rightarrow> int \<Rightarrow> int" where
  "keep_version conflict incoming stored = (if conflict then stored else max incoming stored)"

definition preserve_existing_enrichment :: "canonical_row \<Rightarrow> canonical_row \<Rightarrow> canonical_row" where
  "preserve_existing_enrichment row stored =
     (let c = edge_conflict (row_reply_edge row) (row_reply_edge stored)
      in row\<lparr>row_session_date := keep_stored (row_session_date row) (row_session_date stored),
           row_turn_group_number :=
             (if row_turn_group_number row < 0 \<and> row_turn_group_number stored \<ge> 0
              then row_turn_group_number stored else row_turn_group_number row),
           row_sender := keep_stored (row_sender row) (row_sender stored),
           row_origin_channel_id :=
             keep_stored (row_origin_channel_id row) (row_origin_channel_id stored),
           row_origin_channel_label :=
             keep_stored (row_origin_channel_label row) (row_origin_channel_label stored),
           row_sender_actor_id :=
             (if strip (row_sender_actor_id stored) \<noteq> [] then row_sender_actor_id stored
              else row_sender_actor_id row),
           row_source_message_id :=
             keep_edge c (row_source_message_id row) (row_source_message_id stored),
           row_reply_target_message_id :=
             keep_edge c (row_reply_target_message_id row) (row_reply_target_message_id stored),
           row_reply_subject_actor_id :=
             keep_edge c (row_reply_subject_actor_id row) (row_reply_subject_actor_id stored),
           row_reply_subject_label :=
             keep_edge c (row_reply_subject_label row) (row_reply_subject_label stored),
           row_reply_target_body :=
             keep_edge c (row_reply_target_body row) (row_reply_target_body stored),
           row_audience_conversation_id :=
             keep_edge c (row_audience_conversation_id row) (row_audience_conversation_id stored),
           row_reply_attribution_version :=
             keep_version c (row_reply_attribution_version row) (row_reply_attribution_version stored),
           row_audience_attribution_version :=
             keep_version c (row_audience_attribution_version row)
               (row_audience_attribution_version stored)\<rparr>)"

section \<open>Newly derivable columns of overlap rows\<close>

type_synonym overlap = "canonical_row \<times> canonical_row"   \<comment> \<open>incoming, stored\<close>

definition sender_upgrades :: "overlap list \<Rightarrow> (string \<times> string) list" where
  "sender_upgrades ovs =
     [(row_canonical_turn_id stored, strip (row_sender row)). (row, stored) \<leftarrow> ovs,
        strip (row_sender row) \<noteq> [] \<and> strip (row_sender stored) = []
        \<and> row_has_user_content row \<and> row_canonical_turn_id stored \<noteq> []]"

definition channel_upgrades :: "overlap list \<Rightarrow> (string \<times> string \<times> string) list" where
  "channel_upgrades ovs =
     [(row_canonical_turn_id stored,
       if fills_id then strip (row_origin_channel_id row) else [],
       if fills_label then strip (row_origin_channel_label row) else []).
        (row, stored) \<leftarrow> ovs,
        fills_id \<leftarrow> [strip (row_origin_channel_id row) \<noteq> [] \<and> strip (row_origin_channel_id stored) = []],
        fills_label \<leftarrow> [strip (row_origin_channel_label row) \<noteq> []
                         \<and> strip (row_origin_channel_label stored) = []],
        row_canonical_turn_id stored \<noteq> [] \<and> (fills_id \<or> fills_label)]"

definition actor_upgrades :: "overlap list \<Rightarrow> (string \<times> string) list" where
  "actor_upgrades ovs =
     [(row_canonical_turn_id stored, strip (row_sender_actor_id row)). (row, stored) \<leftarrow> ovs,
        strip (row_sender_actor_id row) \<noteq> [] \<and> strip (row_sender_actor_id stored) = []
        \<and> row_has_user_content row \<and> row_canonical_turn_id stored \<noteq> []]"

definition reply_upgrades :: "overlap list \<Rightarrow> (string \<times> reply_edge) list" where
  "reply_upgrades ovs =
     [(row_canonical_turn_id stored, row_reply_edge row). (row, stored) \<leftarrow> ovs,
        row_canonical_turn_id stored \<noteq> [] \<and> row_has_user_content row
        \<and> has_reply_edge (row_reply_edge row)]"

text \<open>The four compare-and-set batches, in the order the code issues them.\<close>

definition upgrade_overlap :: "bool \<Rightarrow> string \<Rightarrow> overlap list \<Rightarrow> turn_store \<Rightarrow> turn_store" where
  "upgrade_overlap epoch_ok now ovs st =
     update_canonical_turn_reply_roles_if_empty epoch_ok now (reply_upgrades ovs)
       (update_canonical_turn_actors_if_empty epoch_ok now (actor_upgrades ovs)
         (update_canonical_turn_channels_if_empty epoch_ok now (channel_upgrades ovs)
           (update_canonical_turn_senders_if_empty epoch_ok now (sender_upgrades ovs) st)))"

section \<open>Derived data: groups and anchors\<close>

definition recompute_groups :: "turn_store \<Rightarrow> turn_store" where
  "recompute_groups st =
     st\<lparr>st_turns := fst (recompute_canonical_turn_groups (stored_rows st))\<rparr>"

text \<open>
  \<open>_refresh_persisted_anchors\<close>: a delta against the observed set where the store excludes
  concurrent writers, a full rebuild otherwise; with the number of anchor rows written.
\<close>

definition stored_count :: "anchor list \<Rightarrow> anchor \<Rightarrow> nat" where
  "stored_count stored a = length (filter (\<lambda>b. b = a) stored)"

definition refresh_persisted_anchors ::
  "(string \<Rightarrow> string) \<Rightarrow> bool \<Rightarrow> turn_store \<Rightarrow> turn_store \<times> nat" where
  "refresh_persisted_anchors sha delta_ok st =
     (let desired = build_anchor_rows sha (stored_rows st)
      in if delta_ok then
           (let stored = st_anchors st;
                to_delete = filter (\<lambda>a. a \<notin> set desired \<or> stored_count stored a > 1)
                              (remdups stored);
                to_insert = filter (\<lambda>a. stored_count stored a \<noteq> 1) desired
            in if to_insert = [] \<and> to_delete = [] then (st, 0)
               else (apply_canonical_turn_anchor_delta to_insert to_delete st,
                     length to_insert + length to_delete))
         else (replace_canonical_turn_anchors desired st, length desired))"

section \<open>The merge\<close>

record ingest_result =
  res_merge_mode :: merge_mode
  res_turns_written :: nat
  res_turns_matched :: nat
  res_turns_appended :: nat
  res_turns_prepended :: nat
  res_turns_inserted :: nat
  res_rows :: "canonical_row list"

definition mk_result :: "merge_mode \<Rightarrow> nat \<Rightarrow> nat \<Rightarrow> nat \<Rightarrow> nat \<Rightarrow> nat \<Rightarrow> canonical_row list \<Rightarrow> ingest_result" where
  "mk_result mode written matched appended prepended inserted rows =
     \<lparr>res_merge_mode = mode, res_turns_written = written, res_turns_matched = matched,
      res_turns_appended = appended, res_turns_prepended = prepended,
      res_turns_inserted = inserted, res_rows = rows\<rparr>"

text \<open>What follows a merge that wrote rows: regroup, then refresh the anchors.\<close>

definition settle :: "(string \<Rightarrow> string) \<Rightarrow> bool \<Rightarrow> nat \<Rightarrow> turn_store \<Rightarrow> turn_store" where
  "settle sha delta_ok written st =
     (if written > 0 then fst (refresh_persisted_anchors sha delta_ok (recompute_groups st)) else st)"

text \<open>
  One side of an aligned merge: allocate keys between the neighbours, then write.  The
  result carries the mirrors, the store and the number of rows written.
\<close>

definition insert_side ::
  "(nat \<Rightarrow> string) \<Rightarrow> string \<Rightarrow> nat \<Rightarrow> canonical_row list \<Rightarrow> rat option \<Rightarrow> rat option \<Rightarrow>
     canonical_row list \<Rightarrow> canonical_row list \<Rightarrow> turn_store \<Rightarrow>
     store_error + (canonical_row list \<times> canonical_row list \<times> turn_store)" where
  "insert_side new_id now k rows left_key right_key existing touched st =
     (if rows = [] then Inr (existing, touched, st)
      else case allocate_bounded_sort_keys left_key right_key (length rows) existing touched st of
             Inl e \<Rightarrow> Inl e
           | Inr (keys, existing', touched', st') \<Rightarrow>
               (let rows' = stamp_rows new_id now k rows keys
                in case write_rows now rows' st' of
                     Inl e \<Rightarrow> Inl e
                   | Inr st'' \<Rightarrow> Inr (existing', touched' @ rows', st'')))"

definition merge_aligned ::
  "(string \<Rightarrow> string) \<Rightarrow> (nat \<Rightarrow> string) \<Rightarrow> string \<Rightarrow> bool \<Rightarrow> bool \<Rightarrow> alignment \<Rightarrow>
     canonical_row list \<Rightarrow> canonical_row list \<Rightarrow> turn_store \<Rightarrow>
     store_error + (ingest_result \<times> turn_store)" where
  "merge_aligned sha new_id now epoch_ok delta_ok a prepared existing st =
     (let es = al_existing_start a; is = al_incoming_start a; len = al_overlap_len a;
          ovs = map (\<lambda>(row, stored). (mirror_row row stored, stored))
                  (zip (slice is len prepared) (slice es len existing));
          touched = map (\<lambda>(row, stored). preserve_existing_enrichment row stored) ovs;
          st1 = upgrade_overlap epoch_ok now ovs st;
          prefix = take is prepared; suffix = drop (is + len) prepared
      in case insert_side new_id now 0 prefix
                (if es > 0 then Some (row_sort_key (existing ! (es - 1))) else None)
                (Some (row_sort_key (existing ! es))) existing touched st1 of
           Inl e \<Rightarrow> Inl e
         | Inr (existing2, touched2, st2) \<Rightarrow>
             (case insert_side new_id now (length prefix) suffix
                     (Some (row_sort_key (existing2 ! (es + len - 1))))
                     (if es + len < length existing2
                      then Some (row_sort_key (existing2 ! (es + len))) else None)
                     existing2 touched2 st2 of
                Inl e \<Rightarrow> Inl e
              | Inr (existing3, touched3, st3) \<Rightarrow>
                  (let p = length prefix; s = length suffix; mode = al_merge_mode a;
                       prepended = (if mode = PrefixWidening then p else 0);
                       appended = (if mode = TailAppend then s else 0)
                   in Inr (mk_result mode (p + s) len appended prepended
                             ((p - prepended) + (s - appended)) touched3,
                           settle sha delta_ok (p + s) st3))))"

text \<open>Rows appended behind everything stored, one key step apart.\<close>

definition append_rows ::
  "(string \<Rightarrow> string) \<Rightarrow> (nat \<Rightarrow> string) \<Rightarrow> string \<Rightarrow> bool \<Rightarrow> rat \<Rightarrow> canonical_row list \<Rightarrow> turn_store \<Rightarrow>
     store_error + (ingest_result \<times> turn_store)" where
  "append_rows sha new_id now delta_ok start_key prepared st =
     (let n = length prepared;
          rows = stamp_rows new_id now 0 prepared
                   (map (\<lambda>idx. start_key + 1000 * of_nat idx) [0..<n])
      in case write_rows now rows st of
           Inl e \<Rightarrow> Inl e
         | Inr st' \<Rightarrow> Inr (mk_result NoOverlapAppend n 0 n 0 0 rows, settle sha delta_ok n st'))"

definition complete_pair :: "canonical_row list \<Rightarrow> bool" where
  "complete_pair rows \<longleftrightarrow> list_ex row_has_user_content rows \<and> list_ex row_has_assistant_content rows"

definition ingest_prepared_turns ::
  "(string \<Rightarrow> string) \<Rightarrow> (nat \<Rightarrow> string) \<Rightarrow> string \<Rightarrow> bool \<Rightarrow> bool \<Rightarrow> bool \<Rightarrow>
     canonical_row list \<Rightarrow> canonical_row list \<Rightarrow> turn_store \<Rightarrow>
     store_error + (ingest_result \<times> turn_store)" where
  "ingest_prepared_turns sha new_id now epoch_ok delta_ok allow_short prepared existing st =
     (if prepared = [] then Inr (mk_result EmptyPayload 0 0 0 0 0 [], st)
      else if existing = [] then append_rows sha new_id now delta_ok 1000 prepared st
      else case find_alignment sha st existing prepared allow_short of
             None \<Rightarrow>
               (if \<not> complete_pair prepared
                then Inr (mk_result FragmentRejected 0 0 0 0 0 [], st)
                else append_rows sha new_id now delta_ok (default_sort_key existing) prepared st)
           | Some a \<Rightarrow>
               merge_aligned sha new_id now epoch_ok delta_ok a prepared existing st)"

section \<open>Operations that only touch metadata\<close>

text \<open>
  The compare-and-set updates, the regrouping and the anchor refresh change neither which
  rows are stored nor their order, hashes or content.
\<close>

definition row_core :: "canonical_row \<Rightarrow> string \<times> rat \<times> string \<times> string \<times> string" where
  "row_core r = (row_canonical_turn_id r, row_sort_key r, row_turn_hash r, row_user_content r,
     row_assistant_content r)"

definition same_core :: "turn_store \<Rightarrow> turn_store \<Rightarrow> bool" where
  "same_core st st' \<longleftrightarrow> map row_core (st_turns st') = map row_core (st_turns st)"

lemma same_core_refl [simp]: "same_core st st"
  by (simp add: same_core_def)

lemma same_core_trans [trans]: "same_core a b \<Longrightarrow> same_core b c \<Longrightarrow> same_core a c"
  by (simp add: same_core_def)

lemma row_core_proj:
  "row_canonical_turn_id r = fst (row_core r)" "row_sort_key r = fst (snd (row_core r))"
  "row_turn_hash r = fst (snd (snd (row_core r)))"
  by (simp_all add: row_core_def)

lemma map_core_cong:
  assumes "map row_core xs = map row_core ys"
  shows "map row_canonical_turn_id xs = map row_canonical_turn_id ys"
    "map row_sort_key xs = map row_sort_key ys" "map row_turn_hash xs = map row_turn_hash ys"
proof -
  have "map (f \<circ> row_core) xs = map (f \<circ> row_core) ys" for f :: "_ \<Rightarrow> 'z"
    using assms by (metis map_map)
  from this[of fst] this[of "fst \<circ> snd"] this[of "fst \<circ> snd \<circ> snd"]
  show "map row_canonical_turn_id xs = map row_canonical_turn_id ys"
    "map row_sort_key xs = map row_sort_key ys" "map row_turn_hash xs = map row_turn_hash ys"
    by (simp_all add: row_core_def comp_def)
qed

lemma map_insort_proj:
  "map p (insort_key (\<lambda>x. k (p x)) x xs) = insort_key k (p x) (map p xs)"
  by (induction xs) auto

lemma sort_key_map_proj: "map p (sort_key (\<lambda>x. k (p x)) xs) = sort_key k (map p xs)"
  by (induction xs) (simp_all add: map_insort_proj)

lemma same_core_stored_rows:
  assumes "same_core st st'"
  shows "map row_core (stored_rows st') = map row_core (stored_rows st)"
proof -
  have "row_sort_key = (\<lambda>r. (fst \<circ> snd) (row_core r))" by (simp add: fun_eq_iff row_core_def)
  then show ?thesis
    using assms sort_key_map_proj[of row_core "fst \<circ> snd"] unfolding stored_rows_def same_core_def
    by metis
qed

lemma same_core_store_inv: "same_core st st' \<Longrightarrow> store_inv st \<Longrightarrow> store_inv st'"
  using map_core_cong[of "st_turns st'" "st_turns st"] by (simp add: store_inv_def same_core_def)

lemma same_core_update_row:
  "(\<And>r. row_core (f r) = row_core r) \<Longrightarrow> same_core st (update_row cid g f st)"
  by (simp add: same_core_def update_row_def)

lemma same_core_fold:
  "(\<And>x st. x \<in> set xs \<Longrightarrow> same_core st (f x st)) \<Longrightarrow> same_core st (fold f xs st)"
  by (induction xs arbitrary: st) (auto intro: same_core_trans)

lemma row_core_updates [simp]:
  "row_core (fill_channel now i l r) = row_core r"
  "row_core (fill_reply_edge now e r) = row_core r"
  "row_core (r\<lparr>row_sender := s, row_updated_at := now\<rparr>) = row_core r"
  "row_core (r\<lparr>row_sender_actor_id := s, row_updated_at := now\<rparr>) = row_core r"
  by (simp_all add: row_core_def fill_channel_def fill_reply_edge_def)

lemma same_core_senders: "same_core st (update_canonical_turn_senders_if_empty epoch_ok now u st)"
  unfolding update_canonical_turn_senders_if_empty_def
  by (rule same_core_fold) (simp add: same_core_update_row split: prod.split)

lemma same_core_actors: "same_core st (update_canonical_turn_actors_if_empty epoch_ok now u st)"
  unfolding update_canonical_turn_actors_if_empty_def
  by (rule same_core_fold) (simp add: same_core_update_row split: prod.split)

lemma same_core_channels: "same_core st (update_canonical_turn_channels_if_empty epoch_ok now u st)"
  unfolding update_canonical_turn_channels_if_empty_def
  by (rule same_core_fold) (simp add: same_core_update_row split: prod.split)

lemma same_core_reply_roles:
  "same_core st (update_canonical_turn_reply_roles_if_empty epoch_ok now u st)"
  unfolding update_canonical_turn_reply_roles_if_empty_def
  by (rule same_core_fold) (simp add: same_core_update_row split: prod.split)

lemma same_core_upgrade: "same_core st (upgrade_overlap epoch_ok now ovs st)"
  unfolding upgrade_overlap_def
  by (meson same_core_actors same_core_channels same_core_reply_roles same_core_senders same_core_trans)

lemma anchors_fold:
  "(\<And>x st. st_anchors (f x st) = st_anchors st) \<Longrightarrow> st_anchors (fold f xs st) = st_anchors st"
  by (induction xs arbitrary: st) auto

lemma anchors_upgrade [simp]: "st_anchors (upgrade_overlap epoch_ok now ovs st) = st_anchors st"
  unfolding upgrade_overlap_def update_canonical_turn_reply_roles_if_empty_def
    update_canonical_turn_actors_if_empty_def update_canonical_turn_channels_if_empty_def
    update_canonical_turn_senders_if_empty_def
  by (simp add: anchors_fold update_row_def split: prod.splits)

lemma set_groups_core: "length gs = length rows \<Longrightarrow> map row_core (set_groups gs rows) = map row_core rows"
  by (rule set_groups_map) (simp_all add: row_core_def)

lemma recompute_groups_core:
  assumes "store_inv st"
  shows "store_inv (recompute_groups st)"
    "map row_core (stored_rows (recompute_groups st)) = map row_core (stored_rows st)"
    "st_anchors (recompute_groups st) = st_anchors st"
proof -
  have core: "map row_core (st_turns (recompute_groups st)) = map row_core (stored_rows st)"
    by (simp add: recompute_groups_def recompute_canonical_turn_groups_def Let_def set_groups_core)
  note c = map_core_cong[OF core]
  show inv: "store_inv (recompute_groups st)"
    using assms stored_rows_strict[OF assms] distinct_ids_stored[OF assms]
    by (simp add: store_inv_def c) (simp add: stored_rows_def)
  have "sorted (map row_sort_key (st_turns (recompute_groups st)))"
    using stored_rows_strict[OF assms] by (simp add: c strict_sorted_iff)
  then have "stored_rows (recompute_groups st) = st_turns (recompute_groups st)"
    by (simp add: stored_rows_def sort_key_id_if_sorted)
  then show "map row_core (stored_rows (recompute_groups st)) = map row_core (stored_rows st)"
    by (simp add: core)
  show "st_anchors (recompute_groups st) = st_anchors st"
    by (simp add: recompute_groups_def)
qed

lemma compute_anchor_hash_cong:
  "map row_turn_hash xs = map row_turn_hash ys \<Longrightarrow>
     compute_anchor_hash sha xs i n = compute_anchor_hash sha ys i n"
  by (simp add: compute_anchor_hash_def map_slice)

lemma build_anchor_rows_cong:
  assumes "map row_core xs = map row_core ys"
  shows "build_anchor_rows sha xs = build_anchor_rows sha ys"
proof -
  note c = map_core_cong[OF assms]
  have len: "length xs = length ys" using assms by (metis length_map)
  have "row_canonical_turn_id (xs ! i) = row_canonical_turn_id (ys ! i)" if "i < length ys" for i
    using c(1) that len by (metis nth_map)
  then have "window_anchors sha xs w = window_anchors sha ys w" if "0 < w" for w
    using compute_anchor_hash_cong[OF c(3), of sha] len that
    by (auto simp: window_anchors_map simp del: upt_Suc intro!: map_cong filter_cong)
  then show ?thesis by (simp add: build_anchor_rows_def anchor_window_sizes_def)
qed

section \<open>The refreshed anchors\<close>

lemma distinct_map_imp_distinct: "distinct (map f xs) \<Longrightarrow> distinct xs"
  by (simp add: distinct_map)

lemma distinct_build_anchor_rows:
  assumes "distinct (map row_canonical_turn_id rows)"
  shows "distinct (build_anchor_rows sha rows)"
proof -
  have "distinct (window_anchors sha rows w)" if "0 < w" for w
  proof -
    let ?L = "filter (\<lambda>s. row_canonical_turn_id (rows ! s) \<noteq> [])
      (if length rows < w then [] else [0..<length rows - w + 1])"
    have "distinct (map (\<lambda>s. row_canonical_turn_id (rows ! s)) ?L)"
    proof -
      have "inj_on (\<lambda>s. row_canonical_turn_id (rows ! s)) {..<length rows}"
        using assms by (auto simp: inj_on_def distinct_conv_nth)
      moreover have "set ?L \<subseteq> {..<length rows}" using that by auto
      ultimately show ?thesis by (auto simp: distinct_map intro: inj_on_subset)
    qed
    then have "distinct (map (snd \<circ> snd) (window_anchors sha rows w))"
      unfolding window_anchors_map map_map by (simp only: comp_def snd_conv)
    then show ?thesis by (rule distinct_map_imp_distinct)
  qed
  moreover have "set (window_anchors sha rows w) \<inter> set (window_anchors sha rows w') = {}"
    if "w \<noteq> w'" for w w'
    using that unfolding window_anchors_map by auto
  ultimately show ?thesis
    by (simp add: build_anchor_rows_def anchor_window_sizes_def Int_Un_distrib)
qed

lemma stored_count_mset: "stored_count stored a = count (mset stored) a"
  by (induction stored) (auto simp: stored_count_def)

lemma valid_build_anchor_rows:
  assumes "[] \<notin> range sha"
  shows "filter (\<lambda>(w, h, i). h \<noteq> [] \<and> i \<noteq> []) (build_anchor_rows sha rows) = build_anchor_rows sha rows"
proof -
  have "sha x \<noteq> []" for x using assms by (metis rangeI)
  then have "h \<noteq> [] \<and> i \<noteq> []" if "(w, h, i) \<in> set (build_anchor_rows sha rows)" for w h i
    using that by (auto simp: build_anchor_rows_mem compute_anchor_hash_def)
  then show ?thesis by (auto simp: filter_id_conv)
qed

definition anchor_ok :: "anchor \<Rightarrow> bool" where
  "anchor_ok a \<longleftrightarrow> (case a of (w, h, i) \<Rightarrow> h \<noteq> [] \<and> i \<noteq> [])"

lemma anchor_ok_eq: "(\<lambda>(w, h, i). h \<noteq> [] \<and> i \<noteq> []) = anchor_ok"
  by (simp add: anchor_ok_def fun_eq_iff split: prod.split)

lemma delta_count:
  assumes d: "distinct desired" and ok: "list_all anchor_ok stored" "list_all anchor_ok desired"
  shows "count (mset (filter (\<lambda>a. a \<notin> set (filter anchor_ok (filter (\<lambda>a. a \<notin> set desired
             \<or> stored_count stored a > 1) (remdups stored)))) stored
           @ filter anchor_ok (filter (\<lambda>a. stored_count stored a \<noteq> 1) desired))) a
    = count (mset desired) a"
proof -
  have dc: "count (mset desired) a = (if a \<in> set desired then 1 else 0)"
    using d unfolding distinct_count_atmost_1 by blast
  have cf: "count (mset (filter P xs)) a = (if P a then count (mset xs) a else 0)" for P and xs :: "anchor list"
    by simp
  obtain n where n: "stored_count stored a = n" "count (mset stored) a = n" "a \<in> set stored \<longleftrightarrow> n \<noteq> 0"
    by (simp add: stored_count_mset)
  have oks: "n \<noteq> 0 \<Longrightarrow> anchor_ok a" "a \<in> set desired \<Longrightarrow> anchor_ok a"
    using ok n(3) by (auto simp: list_all_iff)
  have "(a \<in> set (filter anchor_ok (filter (\<lambda>a. a \<notin> set desired \<or> stored_count stored a > 1)
      (remdups stored)))) \<longleftrightarrow> n \<noteq> 0 \<and> (a \<notin> set desired \<or> n > 1)"
    using oks n by auto
  then show ?thesis
    unfolding mset_append count_union cf dc n(1,2) using oks by simp
qed

lemma refresh_exact:
  assumes "[] \<notin> range sha" "store_inv st" "list_all anchor_ok (st_anchors st)"
  shows "mset (st_anchors (fst (refresh_persisted_anchors sha delta_ok st)))
      = mset (build_anchor_rows sha (stored_rows st))
    \<and> st_turns (fst (refresh_persisted_anchors sha delta_ok st)) = st_turns st"
proof -
  let ?d = "build_anchor_rows sha (stored_rows st)"
  have dist: "distinct ?d" by (rule distinct_build_anchor_rows) (rule distinct_ids_stored[OF assms(2)])
  have ok: "filter anchor_ok ?d = ?d" using valid_build_anchor_rows[OF assms(1)] by (simp add: anchor_ok_eq)
  then have okl: "list_all anchor_ok ?d" by (metis filter_id_conv list_all_iff)
  note dc = delta_count[OF dist assms(3) okl]
  show ?thesis
  proof (cases delta_ok)
    case False
    then show ?thesis using ok
      by (simp add: refresh_persisted_anchors_def replace_canonical_turn_anchors_def Let_def anchor_ok_eq)
  next
    case True
    let ?del = "filter (\<lambda>a. a \<notin> set ?d \<or> stored_count (st_anchors st) a > 1) (remdups (st_anchors st))"
    let ?ins = "filter (\<lambda>a. stored_count (st_anchors st) a \<noteq> 1) ?d"
    have *: "mset (filter (\<lambda>a. a \<notin> set (filter anchor_ok ?del)) (st_anchors st) @ filter anchor_ok ?ins)
        = mset ?d"
      using dc by (intro multiset_eqI)
    show ?thesis
    proof (cases "?ins = [] \<and> ?del = []")
      case noop: True
      then have "mset (st_anchors st) = mset ?d" using * by simp
      then show ?thesis using True noop by (simp add: refresh_persisted_anchors_def Let_def)
    next
      case False
      then show ?thesis using True *
        by (simp only: refresh_persisted_anchors_def Let_def if_True if_False fst_conv
            apply_canonical_turn_anchor_delta_def anchor_ok_eq) simp
    qed
  qed
qed

section \<open>One side of an aligned merge\<close>

lemma save_all_map: "save_all (\<lambda>r. save (f r)) rs s = save_all save (map f rs) s"
  by (induction rs arbitrary: s) (auto split: sum.splits)

lemma write_rows_save_all: "write_rows now rows st = save_all save_canonical_turn (map (written_row [] [] now) rows) st"
  by (simp add: write_rows_def write_turn_def[abs_def] flip: save_all_map)

lemma save_anchors: "save_canonical_turn r st = Inr st' \<Longrightarrow> st_anchors st' = st_anchors st"
  by (auto simp: save_canonical_turn_def split: if_splits)

lemma save_all_anchors: "save_all save_canonical_turn rs st = Inr st' \<Longrightarrow> st_anchors st' = st_anchors st"
  by (induction rs arbitrary: st) (auto split: sum.splits dest: save_anchors)

lemma written_row_simps [simp]:
  "row_canonical_turn_id (written_row fs ls now r) = row_canonical_turn_id r"
  "row_sort_key (written_row fs ls now r) = row_sort_key r"
  "row_turn_hash (written_row fs ls now r) = row_turn_hash r"
  by (simp_all add: written_row_def Let_def)

lemma stamp_rows_proj:
  assumes "length keys = length rows"
  shows "map row_canonical_turn_id (stamp_rows new_id now k rows keys) = map (\<lambda>i. new_id (Suc i)) [k..<k + length rows]
    \<and> map row_sort_key (stamp_rows new_id now k rows keys) = keys
    \<and> map row_turn_hash (stamp_rows new_id now k rows keys) = map row_turn_hash rows"
  using assms
  by (induction keys rows arbitrary: k rule: list_induct2)
     (simp_all add: stamp_row_def upt_conv_Cons del: upt_Suc)

lemma length_stamp_rows [simp]:
  "length keys = length rows \<Longrightarrow> length (stamp_rows new_id now k rows keys) = length rows"
  by (induction keys rows arbitrary: k rule: list_induct2) simp_all

text \<open>The ids a call takes are new: distinct, non-empty and not yet stored.\<close>

definition fresh_ids :: "(nat \<Rightarrow> string) \<Rightarrow> turn_store \<Rightarrow> bool" where
  "fresh_ids new_id st \<longleftrightarrow> inj new_id \<and> [] \<notin> range new_id
     \<and> range new_id \<inter> row_canonical_turn_id ` set (st_turns st) = {}"

lemma write_between:
  assumes inv: "store_inv st" and st: "stored_rows st = xs @ ys" and inj: "inj new_id"
    and fresh: "(\<lambda>i. new_id (Suc i)) ` {k..<k + length rows} \<inter> row_canonical_turn_id ` set (st_turns st) = {}"
    and keys: "length keys = length rows"
      "sorted_wrt (<) (map row_sort_key xs @ keys @ map row_sort_key ys)"
  shows "\<exists>st'. write_rows now (stamp_rows new_id now k rows keys) st = Inr st' \<and> store_inv st'
    \<and> stored_rows st' = xs @ map (written_row [] [] now) (stamp_rows new_id now k rows keys) @ ys
    \<and> st_anchors st' = st_anchors st"
proof -
  let ?rs = "map (written_row [] [] now) (stamp_rows new_id now k rows keys)"
  note p = stamp_rows_proj[OF keys(1), of new_id now k]
  have ids: "map row_canonical_turn_id ?rs = map (\<lambda>i. new_id (Suc i)) [k..<k + length rows]"
    "map row_sort_key ?rs = keys"
    using p by (simp_all add: comp_def)
  then have ids': "row_canonical_turn_id ` set ?rs = (\<lambda>i. new_id (Suc i)) ` {k..<k + length rows}"
    by (metis list.set_map set_upt)
  have dist: "distinct (map row_canonical_turn_id ?rs)"
    unfolding ids(1) using inj by (auto simp: distinct_map inj_on_def)
  have "\<exists>st'. save_all save_canonical_turn ?rs st = Inr st' \<and> store_inv st' \<and> stored_rows st' = xs @ ?rs @ ys"
  proof (rule turn_table.save_all_between[OF inv st])
    show "sorted_wrt (<) (map row_sort_key (xs @ ?rs @ ys))"
      unfolding map_append ids(2) by (rule keys(2))
    show "row_canonical_turn_id ` set ?rs \<inter> row_canonical_turn_id ` set (stored_rows st) = {}"
      unfolding ids' using fresh by simp
  qed (rule dist)
  then show ?thesis by (auto simp: write_rows_save_all dest: save_all_anchors)
qed

text \<open>
  One side inserted between the stored neighbours \<open>xs\<close> and \<open>ys\<close>: it never fails, and
  the rows right of the gap only move up, in step with the mirrors.
\<close>

definition side_keys :: "canonical_row list \<Rightarrow> canonical_row list \<Rightarrow> rat option \<Rightarrow> rat option \<Rightarrow> bool" where
  "side_keys xs ys left right \<longleftrightarrow>
     left = (if xs = [] then None else Some (row_sort_key (last xs)))
     \<and> right = (if ys = [] then None else Some (row_sort_key (hd ys)))"

lemma gap_sorted:
  assumes "sorted_wrt (<) (map row_sort_key (xs @ ys))" "side_keys xs ys left right" "0 \<le> d"
    and "keys_in_gap left keys (map_option (\<lambda>r. r + d) right)"
  shows "sorted_wrt (<) (map row_sort_key xs @ keys @ map row_sort_key (map (shift_row (the right) d) ys))"
proof -
  have k: "sorted_wrt (<) keys" using assms(4) by (simp add: keys_in_gap_def)
  have xk: "row_sort_key x < y" if "x \<in> set xs" "y \<in> set keys" for x y
  proof -
    have "row_sort_key x \<le> row_sort_key (last xs)"
      using that(1) assms(1) by (induction xs) (auto simp: less_imp_le)
    moreover have "row_sort_key (last xs) < y"
      using that assms(2,4) by (auto simp: side_keys_def keys_in_gap_def list_all_iff split: if_splits)
    ultimately show ?thesis by simp
  qed
  have ky: "y < row_sort_key z + d \<and> the right \<le> row_sort_key z" if "y \<in> set keys" "z \<in> set ys" for y z
  proof -
    have "row_sort_key (hd ys) \<le> row_sort_key z"
      using that(2) assms(1) by (cases ys) (auto simp: less_imp_le sorted_wrt_append)
    moreover have "y < row_sort_key (hd ys) + d" "the right = row_sort_key (hd ys)"
      using that assms(2,4) by (auto simp: side_keys_def keys_in_gap_def list_all_iff split: if_splits)
    ultimately show ?thesis by simp
  qed
  have ys: "sorted_wrt (<) (map row_sort_key (map (shift_row (the right) d) ys))"
    using assms(1,3) by (intro sorted_shift) (auto simp: sorted_wrt_append)
  have xy: "row_sort_key x < row_sort_key (shift_row (the right) d z)" if "x \<in> set xs" "z \<in> set ys" for x z
  proof -
    have "row_sort_key x < row_sort_key z" using that assms(1) by (auto simp: sorted_wrt_append)
    with assms(3) show ?thesis by auto
  qed
  show ?thesis
    using assms(1) k xk ky ys xy by (fastforce simp: sorted_wrt_append)
qed

lemma stored_ids: "row_canonical_turn_id ` set (st_turns st) = set (map row_canonical_turn_id (stored_rows st))"
  by simp

lemma insert_side_ok:
  assumes inv: "store_inv st" and st: "stored_rows st = xs @ ys" and inj: "inj new_id"
    and fresh: "(\<lambda>i. new_id (Suc i)) ` {k..<k + length rows} \<inter> row_canonical_turn_id ` set (st_turns st) = {}"
    and side: "side_keys xs ys left right"
    and mir: "\<And>r. right = Some r \<Longrightarrow> mirrors_above r existing st \<and> (\<exists>x\<in>set existing. row_sort_key x = r)"
  shows "\<exists>d rows' st'. 0 \<le> d \<and> map row_turn_hash rows' = map row_turn_hash rows
    \<and> map row_canonical_turn_id rows' = map (\<lambda>i. new_id (Suc i)) [k..<k + length rows]
    \<and> insert_side new_id now k rows left right existing touched st =
        Inr (map (shift_row (the right) d) existing, map (shift_row (the right) d) touched @ rows', st')
    \<and> store_inv st' \<and> st_anchors st' = st_anchors st
    \<and> stored_rows st' = xs @ map (written_row [] [] now) rows' @ map (shift_row (the right) d) ys
    \<and> map (shift_row (the right) d) xs = xs
    \<and> row_canonical_turn_id ` set (st_turns st') =
        row_canonical_turn_id ` set (st_turns st) \<union> (\<lambda>i. new_id (Suc i)) ` {k..<k + length rows}"
proof (cases "rows = []")
  case True
  then show ?thesis
    using inv st by (intro exI[of _ 0] exI[of _ "[]"] exI[of _ st]) (simp add: insert_side_def)
next
  case False
  have sorted: "sorted_wrt (<) (map row_sort_key (xs @ ys))"
    using stored_rows_strict[OF inv] st by simp
  have "l < r" if "left = Some l" "right = Some r" for l r
    using that side sorted by (auto simp: side_keys_def sorted_wrt_append split: if_splits)
  then obtain d keys where d: "0 \<le> d" "length keys = length rows"
    "keys_in_gap left keys (map_option (\<lambda>r. r + d) right)" "right = None \<longrightarrow> d = 0"
    "allocate_bounded_sort_keys left right (length rows) existing touched st =
       Inr (keys, map (shift_row (the right) d) existing, map (shift_row (the right) d) touched,
            st\<lparr>st_turns := map (shift_row (the right) d) (st_turns st)\<rparr>)"
    using allocate_bounded_ok[OF inv, of right existing left "length rows" touched] mir by metis
  let ?st1 = "st\<lparr>st_turns := map (shift_row (the right) d) (st_turns st)\<rparr>"
  have below: "map (shift_row (the right) d) xs = xs"
  proof (cases "right = None")
    case False
    then have "the right = row_sort_key (hd ys)" "ys \<noteq> []" using side by (auto simp: side_keys_def)
    then have "row_sort_key x < the right" if "x \<in> set xs" for x
      using that sorted by (cases ys) (auto simp: sorted_wrt_append)
    then show ?thesis by (intro map_idI) (metis leD shift_row_def)
  qed (use d(4) in simp)
  have st1: "stored_rows ?st1 = xs @ map (shift_row (the right) d) ys"
    by (simp add: stored_rows_shift[OF inv d(1)] st below)
  have "\<exists>st'. write_rows now (stamp_rows new_id now k rows keys) ?st1 = Inr st' \<and> store_inv st'
    \<and> stored_rows st' = xs @ map (written_row [] [] now) (stamp_rows new_id now k rows keys)
        @ map (shift_row (the right) d) ys \<and> st_anchors st' = st_anchors ?st1"
  proof (rule write_between[OF _ st1 inj _ d(2)])
    show "store_inv ?st1" using inv d(1) by (rule store_inv_shift)
    show "(\<lambda>i. new_id (Suc i)) ` {k..<k + length rows} \<inter> row_canonical_turn_id ` set (st_turns ?st1) = {}"
      using fresh by (simp add: image_image)
    show "sorted_wrt (<) (map row_sort_key xs @ keys @ map row_sort_key (map (shift_row (the right) d) ys))"
      by (rule gap_sorted[OF sorted side d(1,3)])
  qed
  then obtain st' where w: "write_rows now (stamp_rows new_id now k rows keys) ?st1 = Inr st'" "store_inv st'"
    "stored_rows st' = xs @ map (written_row [] [] now) (stamp_rows new_id now k rows keys)
        @ map (shift_row (the right) d) ys" "st_anchors st' = st_anchors ?st1" by blast
  note p = stamp_rows_proj[OF d(2), of new_id now k]
  have "row_canonical_turn_id ` set (st_turns st') =
      row_canonical_turn_id ` set (st_turns st) \<union> (\<lambda>i. new_id (Suc i)) ` {k..<k + length rows}"
  proof -
    have "map row_canonical_turn_id (map (written_row [] [] now) (stamp_rows new_id now k rows keys))
        = map (\<lambda>i. new_id (Suc i)) [k..<k + length rows]" using p by (simp add: comp_def)
    moreover have "map row_canonical_turn_id (map (shift_row (the right) d) ys) = map row_canonical_turn_id ys"
      by simp
    ultimately show ?thesis
      unfolding stored_ids w(3) st map_append set_append by (simp only: set_map set_upt) blast
  qed
  with False d p w below show ?thesis
    by (intro exI[of _ d] exI[of _ "stamp_rows new_id now k rows keys"] exI[of _ st'])
       (auto simp: insert_side_def Let_def)
qed

section \<open>The aligned merge\<close>

lemma keys_above_hd:
  assumes "sorted_wrt (<) (map row_sort_key (xs @ ys))" "ys \<noteq> []"
  shows "{k \<in> row_sort_key ` set (xs @ ys). row_sort_key (hd ys) \<le> k} = row_sort_key ` set ys"
  using assms by (cases ys) (auto simp: sorted_wrt_append dest: less_imp_le)

lemma shift_keys_cong:
  assumes "map row_sort_key xs = map row_sort_key ys"
  shows "map row_sort_key (map (shift_row m d) xs) = map row_sort_key (map (shift_row m d) ys)"
proof -
  have "map row_sort_key (map (shift_row m d) zs) = map (\<lambda>k. if m \<le> k then k + d else k) (map row_sort_key zs)" for zs
    by simp
  with assms show ?thesis by metis
qed

text \<open>The boundary keys the code reads from its mirror are those of the stored neighbours.\<close>

lemma side_keys_nth:
  assumes keys: "map row_sort_key existing = map row_sort_key rows" and e: "e \<le> length rows"
  shows "side_keys (take e rows) (drop e rows)
    (if e > 0 then Some (row_sort_key (existing ! (e - 1))) else None)
    (if e < length existing then Some (row_sort_key (existing ! e)) else None)"
proof -
  have len: "length existing = length rows" using keys by (metis length_map)
  have nth: "row_sort_key (existing ! i) = row_sort_key (rows ! i)" if "i < length rows" for i
    using keys that len by (metis nth_map)
  show ?thesis using e nth len
    by (auto simp: side_keys_def last_conv_nth hd_drop_conv_nth)
qed

text \<open>
  The second side sees a store with rows its mirror does not hold; they all lie left of the
  gap, so the mirror still agrees above it.
\<close>

lemma second_side_ok:
  assumes inv: "store_inv st" and st: "stored_rows st = (zs @ ps @ us) @ vs" and inj: "inj new_id"
    and ex: "map row_sort_key existing = map row_sort_key (zs @ us @ vs)" and us: "us \<noteq> []"
    and n: "n = length zs + length us"
    and fresh: "(\<lambda>i. new_id (Suc i)) ` {k..<k + length rows} \<inter> row_canonical_turn_id ` set (st_turns st) = {}"
  shows "\<exists>d rows' st'. 0 \<le> d \<and> map row_turn_hash rows' = map row_turn_hash rows
    \<and> map row_canonical_turn_id rows' = map (\<lambda>i. new_id (Suc i)) [k..<k + length rows]
    \<and> insert_side new_id now k rows (Some (row_sort_key (existing ! (n - 1))))
        (if n < length existing then Some (row_sort_key (existing ! n)) else None) existing touched st =
        Inr (map (shift_row (the (if n < length existing then Some (row_sort_key (existing ! n)) else None)) d) existing,
             map (shift_row (the (if n < length existing then Some (row_sort_key (existing ! n)) else None)) d) touched @ rows', st')
    \<and> store_inv st' \<and> st_anchors st' = st_anchors st
    \<and> map row_turn_hash (stored_rows st') = map row_turn_hash (zs @ ps @ us @ rows @ vs)
    \<and> row_canonical_turn_id ` set (st_turns st') =
        row_canonical_turn_id ` set (st_turns st) \<union> (\<lambda>i. new_id (Suc i)) ` {k..<k + length rows}"
proof -
  let ?right = "if n < length existing then Some (row_sort_key (existing ! n)) else None"
  let ?left = "Some (row_sort_key (existing ! (n - 1)))"
  have n0: "0 < n" using us n by simp
  have side0: "side_keys (zs @ us) vs ?left ?right"
    using side_keys_nth[OF ex, of n] n n0 us by simp
  then have side: "side_keys (zs @ ps @ us) vs ?left ?right"
    using us by (auto simp: side_keys_def)
  have sorted: "sorted_wrt (<) (map row_sort_key ((zs @ ps @ us) @ vs))"
    using stored_rows_strict[OF inv] st by simp
  then have sorted': "sorted_wrt (<) (map row_sort_key ((zs @ us) @ vs))"
    by (auto simp: sorted_wrt_append)
  have exs: "row_sort_key ` set existing = row_sort_key ` set ((zs @ us) @ vs)"
    using arg_cong[OF ex, of set] by (simp add: image_Un)
  have sts: "row_sort_key ` set (st_turns st) = row_sort_key ` set ((zs @ ps @ us) @ vs)"
    using st set_stored_rows[of st] by metis
  have mir: "mirrors_above r existing st \<and> (\<exists>x\<in>set existing. row_sort_key x = r)" if "?right = Some r" for r
  proof -
    from that side have r: "r = row_sort_key (hd vs)" "vs \<noteq> []"
      by (auto simp: side_keys_def split: if_splits)
    have "mirrors_above r existing st"
      unfolding mirrors_above_def exs sts r(1)
      using keys_above_hd[OF sorted r(2)] keys_above_hd[OF sorted' r(2)] by simp
    moreover have "r \<in> row_sort_key ` set existing" unfolding exs using r by auto
    ultimately show ?thesis by auto
  qed
  obtain d rows' st' where o: "0 \<le> d" "map row_turn_hash rows' = map row_turn_hash rows"
    "map row_canonical_turn_id rows' = map (\<lambda>i. new_id (Suc i)) [k..<k + length rows]"
    "insert_side new_id now k rows ?left ?right existing touched st =
        Inr (map (shift_row (the ?right) d) existing, map (shift_row (the ?right) d) touched @ rows', st')"
    "store_inv st'" "st_anchors st' = st_anchors st"
    "stored_rows st' = (zs @ ps @ us) @ map (written_row [] [] now) rows' @ map (shift_row (the ?right) d) vs"
    "row_canonical_turn_id ` set (st_turns st') =
        row_canonical_turn_id ` set (st_turns st) \<union> (\<lambda>i. new_id (Suc i)) ` {k..<k + length rows}"
    using insert_side_ok[OF inv st inj fresh side mir, of now touched] by blast
  have "map row_turn_hash (stored_rows st') = map row_turn_hash (zs @ ps @ us @ rows @ vs)"
    using o(2) by (simp add: o(7) comp_def)
  with o show ?thesis by blast
qed

text \<open>The merge on the level of hash sequences: what an aligned payload should become.\<close>

definition splice :: "alignment \<Rightarrow> string list \<Rightarrow> string list \<Rightarrow> string list" where
  "splice a ex inc =
     take (al_existing_start a) ex @ take (al_incoming_start a) inc
     @ slice (al_existing_start a) (al_overlap_len a) ex
     @ drop (al_incoming_start a + al_overlap_len a) inc
     @ drop (al_existing_start a + al_overlap_len a) ex"

lemma first_side_ok:
  assumes inv: "store_inv st" and es: "es < length (stored_rows st)" and inj: "inj new_id"
    and keys: "map row_sort_key existing = map row_sort_key (stored_rows st)"
    and fresh: "range new_id \<inter> row_canonical_turn_id ` set (st_turns st) = {}"
  shows "\<exists>r d P st'. r = row_sort_key (existing ! es)
    \<and> map row_turn_hash P = map row_turn_hash rows
    \<and> insert_side new_id now 0 rows (if es > 0 then Some (row_sort_key (existing ! (es - 1))) else None)
        (Some r) existing touched st = Inr (map (shift_row r d) existing, map (shift_row r d) touched @ P, st')
    \<and> store_inv st' \<and> st_anchors st' = st_anchors st
    \<and> stored_rows st' = take es (stored_rows st) @ map (written_row [] [] now) P
        @ map (shift_row r d) (drop es (stored_rows st))
    \<and> map (shift_row r d) (take es (stored_rows st)) = take es (stored_rows st)
    \<and> row_canonical_turn_id ` set (st_turns st') =
        row_canonical_turn_id ` set (st_turns st) \<union> (\<lambda>i. new_id (Suc i)) ` {0..<length rows}
    \<and> (rows = [] \<longrightarrow> P = [] \<and> st' = st)"
proof -
  let ?r = "row_sort_key (existing ! es)"
  let ?left = "if es > 0 then Some (row_sort_key (existing ! (es - 1))) else None"
  have len: "length existing = length (stored_rows st)" using keys by (metis length_map)
  have side: "side_keys (take es (stored_rows st)) (drop es (stored_rows st)) ?left (Some ?r)"
    using side_keys_nth[OF keys, of es] es len by simp
  have fr: "(\<lambda>i. new_id (Suc i)) ` {0..<0 + length rows} \<inter> row_canonical_turn_id ` set (st_turns st) = {}"
    using fresh by auto
  have mir: "mirrors_above r existing st \<and> (\<exists>x\<in>set existing. row_sort_key x = r)" if "Some ?r = Some r" for r
    using that mirrors_aboveI[OF keys] es len nth_mem by (metis option.sel)
  note ok = insert_side_ok[OF inv append_take_drop_id[symmetric] inj fr side mir, of now touched]
  show ?thesis
  proof (cases "rows = []")
    case True
    with inv show ?thesis
      by (intro exI[of _ ?r] exI[of _ 0] exI[of _ "[]"] exI[of _ st]) (simp add: insert_side_def)
  next
    case False
    with ok show ?thesis unfolding option.sel add_0 by blast
  qed
qed

lemma insert_side_Nil: "insert_side new_id now k [] left right existing touched st = Inr (existing, touched, st)"
  by (simp add: insert_side_def)

text \<open>Both sides, from a store whose rows have the keys of the mirror.\<close>

lemma both_sides_ok:
  assumes inv: "store_inv st" and inj: "inj new_id"
    and keys: "map row_sort_key existing = map row_sort_key (stored_rows st)"
    and fresh: "range new_id \<inter> row_canonical_turn_id ` set (st_turns st) = {}"
    and n: "0 < len" "es + len \<le> length (stored_rows st)"
  shows "\<exists>ex2 t2 st2 ex3 t3 st3.
    insert_side new_id now 0 pre (if es > 0 then Some (row_sort_key (existing ! (es - 1))) else None)
      (Some (row_sort_key (existing ! es))) existing touched st = Inr (ex2, t2, st2)
    \<and> insert_side new_id now (length pre) suf (Some (row_sort_key (ex2 ! (es + len - 1))))
      (if es + len < length ex2 then Some (row_sort_key (ex2 ! (es + len))) else None) ex2 t2 st2
        = Inr (ex3, t3, st3)
    \<and> store_inv st3 \<and> st_anchors st3 = st_anchors st
    \<and> map row_turn_hash (stored_rows st3) = map row_turn_hash
        (take es (stored_rows st) @ pre @ slice es len (stored_rows st) @ suf @ drop (es + len) (stored_rows st))
    \<and> row_canonical_turn_id ` set (st_turns st3) =
        row_canonical_turn_id ` set (st_turns st) \<union> (\<lambda>i. new_id (Suc i)) ` {0..<length pre + length suf}
    \<and> (pre = [] \<and> suf = [] \<longrightarrow> st3 = st)"
proof -
  let ?rows = "stored_rows st"
  have es: "es < length ?rows" using n by simp
  obtain r d P st2 where P: "r = row_sort_key (existing ! es)"
    "map row_turn_hash P = map row_turn_hash pre"
    "insert_side new_id now 0 pre (if es > 0 then Some (row_sort_key (existing ! (es - 1))) else None)
        (Some r) existing touched st = Inr (map (shift_row r d) existing, map (shift_row r d) touched @ P, st2)"
    "store_inv st2" "st_anchors st2 = st_anchors st"
    "stored_rows st2 = take es ?rows @ map (written_row [] [] now) P @ map (shift_row r d) (drop es ?rows)"
    "map (shift_row r d) (take es ?rows) = take es ?rows"
    "row_canonical_turn_id ` set (st_turns st2) =
        row_canonical_turn_id ` set (st_turns st) \<union> (\<lambda>i. new_id (Suc i)) ` {0..<length pre}"
    "pre = [] \<longrightarrow> P = [] \<and> st2 = st"
    using first_side_ok[OF inv es inj keys fresh, of pre now touched] by blast
  let ?us = "map (shift_row r d) (slice es len ?rows)"
  let ?vs = "map (shift_row r d) (drop (es + len) ?rows)"
  have "drop es ?rows = slice es len ?rows @ drop (es + len) ?rows"
    by (metis slice_def add.commute append_take_drop_id drop_drop)
  then have uv: "map (shift_row r d) (drop es ?rows) = ?us @ ?vs" by (metis map_append)
  have st2: "stored_rows st2 = (take es ?rows @ map (written_row [] [] now) P @ ?us) @ ?vs"
    using P(6) uv by simp
  have "map (shift_row r d) ?rows = take es ?rows @ ?us @ ?vs"
    using P(7) uv by (metis append_take_drop_id map_append)
  then have ex2: "map row_sort_key (map (shift_row r d) existing) = map row_sort_key (take es ?rows @ ?us @ ?vs)"
    using shift_keys_cong[OF keys] by metis
  have us: "?us \<noteq> []" using n by (simp add: slice_def)
  have len: "es + len = length (take es ?rows) + length ?us" using n by simp
  have fr2: "(\<lambda>i. new_id (Suc i)) ` {length pre..<length pre + length suf}
      \<inter> row_canonical_turn_id ` set (st_turns st2) = {}"
    unfolding P(8) using fresh by (auto simp: inj_eq[OF inj])
  obtain ex3 t3 st3 where S:
    "insert_side new_id now (length pre) suf (Some (row_sort_key (map (shift_row r d) existing ! (es + len - 1))))
      (if es + len < length (map (shift_row r d) existing)
       then Some (row_sort_key (map (shift_row r d) existing ! (es + len))) else None)
      (map (shift_row r d) existing) (map (shift_row r d) touched @ P) st2 = Inr (ex3, t3, st3)"
    "store_inv st3" "st_anchors st3 = st_anchors st2"
    "map row_turn_hash (stored_rows st3) =
       map row_turn_hash (take es ?rows @ map (written_row [] [] now) P @ ?us @ suf @ ?vs)"
    "row_canonical_turn_id ` set (st_turns st3) =
        row_canonical_turn_id ` set (st_turns st2) \<union> (\<lambda>i. new_id (Suc i)) ` {length pre..<length pre + length suf}"
    using second_side_ok[OF P(4) st2 inj ex2 us len fr2, of now "map (shift_row r d) touched @ P"] by blast
  have h: "map row_turn_hash (stored_rows st3) = map row_turn_hash
        (take es ?rows @ pre @ slice es len ?rows @ suf @ drop (es + len) ?rows)"
    using P(2) by (simp add: S(4) comp_def)
  have i: "row_canonical_turn_id ` set (st_turns st3) =
        row_canonical_turn_id ` set (st_turns st) \<union> (\<lambda>i. new_id (Suc i)) ` {0..<length pre + length suf}"
    unfolding S(5) P(8) by (auto simp: image_iff) (metis atLeastLessThan_iff linorder_not_less zero_le)
  have z: "pre = [] \<and> suf = [] \<longrightarrow> st3 = st" using S(1) P(9) by (auto simp: insert_side_Nil)
  show ?thesis using P(1,3,5) S(1,2,3) h i z by metis
qed

lemma merge_aligned_ok:
  assumes inv: "store_inv st" and ex: "existing = stored_rows st" and fresh: "fresh_ids new_id st"
    and blk: "common_block (map row_turn_hash existing) (map row_turn_hash prepared) a"
  shows "\<exists>res st3. merge_aligned sha new_id now epoch_ok delta_ok a prepared existing st
      = Inr (res, settle sha delta_ok (length prepared - al_overlap_len a) st3)
    \<and> store_inv st3 \<and> st_anchors st3 = st_anchors st
    \<and> map row_turn_hash (stored_rows st3) = splice a (map row_turn_hash existing) (map row_turn_hash prepared)
    \<and> row_canonical_turn_id ` set (st_turns st3) \<subseteq> row_canonical_turn_id ` set (st_turns st) \<union> range new_id
    \<and> (length prepared = al_overlap_len a \<longrightarrow> same_core st st3)
    \<and> res_merge_mode res = al_merge_mode a
    \<and> res_turns_written res = length prepared - al_overlap_len a
    \<and> res_turns_matched res = al_overlap_len a
    \<and> res_turns_appended res + res_turns_prepended res + res_turns_inserted res = res_turns_written res"
proof -
  define es ist len where d: "es = al_existing_start a" "ist = al_incoming_start a" "len = al_overlap_len a"
  define ovs where "ovs = map (\<lambda>(row, stored). (mirror_row row stored, stored))
    (zip (slice ist len prepared) (slice es len existing))"
  define touched where "touched = map (\<lambda>(row, stored). preserve_existing_enrichment row stored) ovs"
  define st1 where "st1 = upgrade_overlap epoch_ok now ovs st"
  from blk have b: "0 < len" "es + len \<le> length existing" "ist + len \<le> length prepared"
    by (simp_all add: common_block_def d)
  have sc: "same_core st st1" by (simp add: st1_def same_core_upgrade)
  note core = map_core_cong[OF same_core_stored_rows[OF sc]]
  have inv1: "store_inv st1" using sc inv by (rule same_core_store_inv)
  have ids1: "row_canonical_turn_id ` set (st_turns st1) = row_canonical_turn_id ` set (st_turns st)"
    using sc by (metis list.set_map map_core_cong(1) same_core_def)
  have keys1: "map row_sort_key existing = map row_sort_key (stored_rows st1)" using core(2) ex by simp
  have len1: "es + len \<le> length (stored_rows st1)" using b keys1 by (metis length_map)
  have inj: "inj new_id" and disj: "range new_id \<inter> row_canonical_turn_id ` set (st_turns st1) = {}"
    using fresh by (auto simp: fresh_ids_def ids1)
  let ?pre = "take ist prepared" and ?suf = "drop (ist + len) prepared"
  obtain ex2 t2 st2 ex3 t3 st3 where s:
    "insert_side new_id now 0 ?pre (if es > 0 then Some (row_sort_key (existing ! (es - 1))) else None)
      (Some (row_sort_key (existing ! es))) existing touched st1 = Inr (ex2, t2, st2)"
    "insert_side new_id now (length ?pre) ?suf (Some (row_sort_key (ex2 ! (es + len - 1))))
      (if es + len < length ex2 then Some (row_sort_key (ex2 ! (es + len))) else None) ex2 t2 st2
        = Inr (ex3, t3, st3)"
    "store_inv st3" "st_anchors st3 = st_anchors st1"
    "map row_turn_hash (stored_rows st3) = map row_turn_hash
        (take es (stored_rows st1) @ ?pre @ slice es len (stored_rows st1) @ ?suf @ drop (es + len) (stored_rows st1))"
    "row_canonical_turn_id ` set (st_turns st3) = row_canonical_turn_id ` set (st_turns st1)
        \<union> (\<lambda>i. new_id (Suc i)) ` {0..<length ?pre + length ?suf}"
    "?pre = [] \<and> ?suf = [] \<longrightarrow> st3 = st1"
    using both_sides_ok[OF inv1 inj keys1 disj b(1) len1, of now ?pre touched ?suf]
    by (elim exE conjE) (rule that)
  have run: "merge_aligned sha new_id now epoch_ok delta_ok a prepared existing st =
      (let p = length ?pre; s = length ?suf; mode = al_merge_mode a;
           prepended = (if mode = PrefixWidening then p else 0);
           appended = (if mode = TailAppend then s else 0)
       in Inr (mk_result mode (p + s) len appended prepended ((p - prepended) + (s - appended)) t3,
               settle sha delta_ok (p + s) st3))"
    unfolding merge_aligned_def Let_def d[symmetric] ovs_def[symmetric] touched_def[symmetric]
      st1_def[symmetric] s(1) sum.case prod.case s(2) ..
  have ps: "length ?pre + length ?suf = length prepared - len" using b by simp
  have hashes: "map row_turn_hash (stored_rows st3) = splice a (map row_turn_hash existing) (map row_turn_hash prepared)"
  proof -
    have h: "map row_turn_hash (stored_rows st1) = map row_turn_hash existing" using core(3) ex by simp
    show ?thesis
      unfolding s(5) splice_def d[symmetric] map_append map_slice take_map[symmetric] drop_map[symmetric] h ..
  qed
  have "same_core st st3" if "length prepared = len"
  proof -
    have "ist = 0" using b that by simp
    then show ?thesis using s(7) sc that by simp
  qed
  moreover have "row_canonical_turn_id ` set (st_turns st3) \<subseteq> row_canonical_turn_id ` set (st_turns st) \<union> range new_id"
    unfolding s(6) ids1 by auto
  ultimately show ?thesis
    using run s(3,4) hashes unfolding Let_def ps d(3)[symmetric]
    by (intro exI conjI impI) (use b in \<open>auto simp: mk_result_def st1_def ps min_def\<close>)
qed

end
