(* ===== verification/IngestProps.thy ===== *)
theory IngestProps
  imports Ingest
begin

text \<open>
  The reconciler as a whole: one call refines a merge of hash sequences, never fails on a
  store that meets the invariants, keeps them, never loses or reorders history, and writes
  nothing when the payload is already stored.  The step relation at the end lifts this to
  every sequence of calls.
\<close>

section \<open>After the merge\<close>

definition store_wf :: "(string \<Rightarrow> string) \<Rightarrow> turn_store \<Rightarrow> bool" where
  "store_wf sha st \<longleftrightarrow> store_inv st \<and> anchors_current sha st \<and> rows_wf (stored_rows st)"

lemma anchors_current_ok:
  assumes "[] \<notin> range sha" "anchors_current sha st"
  shows "list_all anchor_ok (st_anchors st)"
  using valid_build_anchor_rows[OF assms(1), of "stored_rows st"] assms(2)
  by (auto simp: anchors_current_def list_all_iff anchor_ok_eq filter_id_conv)

lemma settle_ok:
  assumes dig: "[] \<notin> range sha" and inv: "store_inv st" and ok: "list_all anchor_ok (st_anchors st)"
    and zero: "w = 0 \<Longrightarrow> anchors_current sha st"
  shows "store_inv (settle sha delta_ok w st) \<and> anchors_current sha (settle sha delta_ok w st)
    \<and> map row_core (stored_rows (settle sha delta_ok w st)) = map row_core (stored_rows st)"
proof (cases "w = 0")
  case True
  then show ?thesis using inv zero by (simp add: settle_def)
next
  case False
  let ?g = "recompute_groups st"
  note g = recompute_groups_core[OF inv]
  have r: "mset (st_anchors (fst (refresh_persisted_anchors sha delta_ok ?g)))
        = mset (build_anchor_rows sha (stored_rows ?g))"
    "st_turns (fst (refresh_persisted_anchors sha delta_ok ?g)) = st_turns ?g"
    using refresh_exact[OF dig g(1)] ok g(3) by simp_all
  then have s: "stored_rows (fst (refresh_persisted_anchors sha delta_ok ?g)) = stored_rows ?g"
    by (simp add: stored_rows_def)
  show ?thesis
    using False g r s by (auto simp: settle_def anchors_current_def store_inv_def dest: mset_eq_setD)
qed

lemma append_rows_ok:
  assumes inv: "store_inv st" and fresh: "fresh_ids new_id st"
    and above: "\<And>r. r \<in> set (st_turns st) \<Longrightarrow> row_sort_key r < start_key"
  shows "\<exists>rows st'. append_rows sha new_id now delta_ok start_key prepared st
      = Inr (mk_result NoOverlapAppend (length prepared) 0 (length prepared) 0 0 rows,
             settle sha delta_ok (length prepared) st')
    \<and> store_inv st' \<and> st_anchors st' = st_anchors st
    \<and> map row_turn_hash (stored_rows st') = map row_turn_hash (stored_rows st @ prepared)
    \<and> row_canonical_turn_id ` set (st_turns st') \<subseteq> row_canonical_turn_id ` set (st_turns st) \<union> range new_id"
proof -
  let ?keys = "map (\<lambda>idx. start_key + 1000 * of_nat idx) [0..<length prepared]"
  let ?rows = "stamp_rows new_id now 0 prepared ?keys"
  have keys: "length ?keys = length prepared" by simp
  have sorted: "sorted_wrt (<) (map row_sort_key (stored_rows st) @ ?keys @ map row_sort_key [])"
  proof -
    have "row_sort_key r < start_key + 1000 * of_nat i" if "r \<in> set (stored_rows st)" for r i
      using above[of r] that by (simp add: add_strict_increasing2 add.commute less_le_trans)
    then show ?thesis using stored_rows_strict[OF inv]
      by (auto simp: sorted_wrt_append intro!: sorted_wrt_map_upt)
  qed
  have inj: "inj new_id" and disj:
    "(\<lambda>i. new_id (Suc i)) ` {0..<0 + length prepared} \<inter> row_canonical_turn_id ` set (st_turns st) = {}"
    using fresh by (auto simp: fresh_ids_def)
  obtain st' where w: "write_rows now ?rows st = Inr st'" "store_inv st'"
    "stored_rows st' = stored_rows st @ map (written_row [] [] now) ?rows @ []" "st_anchors st' = st_anchors st"
    using write_between[OF inv _ inj disj keys sorted, of now] by auto
  note p = stamp_rows_proj[OF keys, of new_id now 0]
  have "map row_turn_hash (stored_rows st') = map row_turn_hash (stored_rows st @ prepared)"
    using p by (simp add: w(3) comp_def)
  moreover have "row_canonical_turn_id ` set (st_turns st')
      \<subseteq> row_canonical_turn_id ` set (st_turns st) \<union> range new_id"
  proof -
    have "map row_canonical_turn_id (map (written_row [] [] now) ?rows) = map (\<lambda>i. new_id (Suc i)) [0..<0 + length prepared]"
      using p by (simp add: comp_def)
    then show ?thesis unfolding stored_ids w(3) map_append set_append by (auto simp only: set_map) auto
  qed
  ultimately show ?thesis
    using w by (intro exI[of _ ?rows] exI[of _ st']) (simp add: append_rows_def Let_def)
qed

section \<open>One call refines a merge of hash sequences\<close>

definition merge_spec :: "alignment option \<Rightarrow> bool \<Rightarrow> string list \<Rightarrow> string list \<Rightarrow> string list" where
  "merge_spec al pair ex inc =
     (if inc = [] then ex else if ex = [] then inc
      else case al of None \<Rightarrow> (if pair then ex @ inc else ex) | Some a \<Rightarrow> splice a ex inc)"

definition turns_written_spec :: "alignment option \<Rightarrow> bool \<Rightarrow> string list \<Rightarrow> string list \<Rightarrow> nat" where
  "turns_written_spec al pair ex inc =
     (if ex = [] then length inc
      else case al of None \<Rightarrow> (if pair then length inc else 0) | Some a \<Rightarrow> length inc - al_overlap_len a)"

lemma merge_spec_set:
  assumes "\<And>a. al = Some a \<Longrightarrow> common_block ex inc a"
  shows "set (merge_spec al pair ex inc) \<subseteq> set ex \<union> set inc"
  by (auto simp: merge_spec_def splice_def slice_def split: option.splits if_splits
      dest!: in_set_takeD in_set_dropD)

lemma ingest_cases_ok:
  assumes tr: "anchors_trusted sha st prepared" and dig: "[] \<notin> range sha" and fresh: "fresh_ids new_id st"
  shows "\<exists>res st1 w. ingest_prepared_turns sha new_id now epoch_ok delta_ok short prepared (stored_rows st) st
      = Inr (res, settle sha delta_ok w st1)
    \<and> store_inv st1 \<and> st_anchors st1 = st_anchors st
    \<and> map row_turn_hash (stored_rows st1) =
        merge_spec (find_alignment sha st (stored_rows st) prepared short) (complete_pair prepared)
          (map row_turn_hash (stored_rows st)) (map row_turn_hash prepared)
    \<and> row_canonical_turn_id ` set (st_turns st1) \<subseteq> row_canonical_turn_id ` set (st_turns st) \<union> range new_id
    \<and> w = turns_written_spec (find_alignment sha st (stored_rows st) prepared short) (complete_pair prepared)
          (map row_turn_hash (stored_rows st)) (map row_turn_hash prepared)
    \<and> (w = 0 \<longrightarrow> same_core st st1)
    \<and> res_turns_written res = w
    \<and> res_turns_appended res + res_turns_prepended res + res_turns_inserted res = w"
proof -
  let ?al = "find_alignment sha st (stored_rows st) prepared short"
  have inv: "store_inv st" using tr by (simp add: anchors_trusted_def)
  consider "prepared = []" | "prepared \<noteq> []" "stored_rows st = []"
    | "prepared \<noteq> []" "stored_rows st \<noteq> []" "?al = None" "\<not> complete_pair prepared"
    | "prepared \<noteq> []" "stored_rows st \<noteq> []" "?al = None" "complete_pair prepared"
    | a where "prepared \<noteq> []" "stored_rows st \<noteq> []" "?al = Some a"
    by fastforce
  then show ?thesis
  proof cases
    case 1
    have "find_alignment sha st (stored_rows st) [] short = None" by (simp add: find_alignment_def)
    with 1 inv show ?thesis
      by (intro exI[of _ "mk_result EmptyPayload 0 0 0 0 0 []"] exI[of _ st] exI[of _ 0])
         (auto simp: ingest_prepared_turns_def settle_def merge_spec_def turns_written_spec_def mk_result_def)
  next
    case 2
    then have "set (st_turns st) = {}" by (metis set_stored_rows empty_set)
    then have "\<And>r. r \<in> set (st_turns st) \<Longrightarrow> row_sort_key r < 1000" by simp
    from append_rows_ok[OF inv fresh this, of sha now delta_ok prepared] obtain rows st1 where
      "append_rows sha new_id now delta_ok 1000 prepared st
        = Inr (mk_result NoOverlapAppend (length prepared) 0 (length prepared) 0 0 rows,
               settle sha delta_ok (length prepared) st1)"
      "store_inv st1" "st_anchors st1 = st_anchors st"
      "map row_turn_hash (stored_rows st1) = map row_turn_hash (stored_rows st @ prepared)"
      "row_canonical_turn_id ` set (st_turns st1) \<subseteq> row_canonical_turn_id ` set (st_turns st) \<union> range new_id"
      by blast
    with 2 show ?thesis
      by (intro exI[of _ "mk_result NoOverlapAppend (length prepared) 0 (length prepared) 0 0 rows"]
          exI[of _ st1] exI[of _ "length prepared"])
         (simp add: ingest_prepared_turns_def merge_spec_def turns_written_spec_def mk_result_def)
  next
    case 3
    with inv show ?thesis
      by (intro exI[of _ "mk_result FragmentRejected 0 0 0 0 0 []"] exI[of _ st] exI[of _ 0])
         (auto simp: ingest_prepared_turns_def settle_def merge_spec_def turns_written_spec_def mk_result_def)
  next
    case 4
    have "\<And>r. r \<in> set (st_turns st) \<Longrightarrow> row_sort_key r < default_sort_key (stored_rows st)"
      using default_sort_key_above by simp
    from append_rows_ok[OF inv fresh this, of sha now delta_ok prepared] obtain rows st1 where
      "append_rows sha new_id now delta_ok (default_sort_key (stored_rows st)) prepared st
        = Inr (mk_result NoOverlapAppend (length prepared) 0 (length prepared) 0 0 rows,
               settle sha delta_ok (length prepared) st1)"
      "store_inv st1" "st_anchors st1 = st_anchors st"
      "map row_turn_hash (stored_rows st1) = map row_turn_hash (stored_rows st @ prepared)"
      "row_canonical_turn_id ` set (st_turns st1) \<subseteq> row_canonical_turn_id ` set (st_turns st) \<union> range new_id"
      by blast
    with 4 show ?thesis
      by (intro exI[of _ "mk_result NoOverlapAppend (length prepared) 0 (length prepared) 0 0 rows"]
          exI[of _ st1] exI[of _ "length prepared"])
         (simp add: ingest_prepared_turns_def merge_spec_def turns_written_spec_def mk_result_def)
  next
    case 5
    have blk: "common_block (map row_turn_hash (stored_rows st)) (map row_turn_hash prepared) a"
      using find_alignment_block[OF tr 5(3)] .
    have le: "al_overlap_len a \<le> length prepared" using blk by (simp add: common_block_def)
    obtain res st1 where m: "merge_aligned sha new_id now epoch_ok delta_ok a prepared (stored_rows st) st
        = Inr (res, settle sha delta_ok (length prepared - al_overlap_len a) st1)"
      "store_inv st1" "st_anchors st1 = st_anchors st"
      "map row_turn_hash (stored_rows st1) = splice a (map row_turn_hash (stored_rows st)) (map row_turn_hash prepared)"
      "row_canonical_turn_id ` set (st_turns st1) \<subseteq> row_canonical_turn_id ` set (st_turns st) \<union> range new_id"
      "length prepared = al_overlap_len a \<longrightarrow> same_core st st1"
      "res_turns_written res = length prepared - al_overlap_len a"
      "res_turns_appended res + res_turns_prepended res + res_turns_inserted res = res_turns_written res"
      using merge_aligned_ok[OF inv refl fresh blk, of sha now epoch_ok delta_ok]
      by (elim exE conjE) (rule that)
    have zero: "length prepared - al_overlap_len a = 0 \<longrightarrow> same_core st st1" using m(6) le by simp
    show ?thesis
      by (intro exI[of _ res] exI[of _ st1] exI[of _ "length prepared - al_overlap_len a"])
         (use m zero 5 in \<open>simp add: ingest_prepared_turns_def merge_spec_def turns_written_spec_def\<close>)
  qed
qed

subsection \<open>What the splice keeps\<close>

lemma splice_contiguous:
  assumes "common_block ex inc a"
  shows "splice a ex inc = take (al_existing_start a) ex @ inc @ drop (al_existing_start a + al_overlap_len a) ex"
proof -
  have "take (al_incoming_start a) inc @ slice (al_existing_start a) (al_overlap_len a) ex
      @ drop (al_incoming_start a + al_overlap_len a) inc = inc"
    using assms take_slice_drop[of "al_incoming_start a" "al_overlap_len a" inc]
    by (simp add: common_block_def)
  then show ?thesis unfolding splice_def by (metis append.assoc)
qed

lemma splice_keeps_existing:
  assumes "common_block ex inc a"
  shows "subseq ex (splice a ex inc)"
proof -
  have "ex = take (al_existing_start a) ex @ slice (al_existing_start a) (al_overlap_len a) ex
      @ drop (al_existing_start a + al_overlap_len a) ex"
    using assms take_slice_drop[of "al_existing_start a" "al_overlap_len a" ex] by (simp only: common_block_def)
  moreover have "subseq (slice (al_existing_start a) (al_overlap_len a) ex)
      (take (al_incoming_start a) inc @ slice (al_existing_start a) (al_overlap_len a) ex
        @ drop (al_incoming_start a + al_overlap_len a) inc)"
    by (simp add: list_emb_append2 list_emb_prefix)
  ultimately show ?thesis
    unfolding splice_def by (metis append.assoc list_emb_append_mono subseq_order.refl)
qed

lemma merge_spec_keeps:
  assumes "\<And>a. al = Some a \<Longrightarrow> common_block ex inc a"
  shows "subseq ex (merge_spec al pair ex inc)"
    "al \<noteq> None \<or> pair \<or> ex = [] \<Longrightarrow> sublist inc (merge_spec al pair ex inc)"
  using assms splice_keeps_existing[of ex inc] splice_contiguous[of ex inc]
  by (auto simp: merge_spec_def split: option.splits)

section \<open>The reconciler's contract\<close>

text \<open>A payload the reconciler is given: hex hashes, and no digest collision to fear.\<close>

definition payload_ok :: "(string \<Rightarrow> string) \<Rightarrow> turn_store \<Rightarrow> canonical_row list \<Rightarrow> bool" where
  "payload_ok sha st prepared \<longleftrightarrow> hashes_wf prepared
     \<and> inj_on sha (window_payloads (stored_rows st) \<union> window_payloads prepared)"

lemma anchors_trusted_iff: "anchors_trusted sha st prepared \<longleftrightarrow> store_wf sha st \<and> payload_ok sha st prepared"
  by (auto simp: anchors_trusted_def store_wf_def payload_ok_def)

lemma rows_wf_iff:
  "rows_wf rows \<longleftrightarrow> [] \<notin> set (map row_canonical_turn_id rows) \<and> (\<forall>h\<in>set (map row_turn_hash rows). nul_free h)"
  by (fastforce simp: rows_wf_def list_all_iff image_iff)

lemma ingest_total:
  assumes wf: "store_wf sha st" and pay: "payload_ok sha st prepared"
    and dig: "[] \<notin> range sha" and fresh: "fresh_ids new_id st"
  shows "\<exists>res st'. ingest_prepared_turns sha new_id now epoch_ok delta_ok short prepared (stored_rows st) st
      = Inr (res, st') \<and> store_wf sha st'
    \<and> map row_turn_hash (stored_rows st') =
        merge_spec (find_alignment sha st (stored_rows st) prepared short) (complete_pair prepared)
          (map row_turn_hash (stored_rows st)) (map row_turn_hash prepared)
    \<and> res_turns_written res =
        turns_written_spec (find_alignment sha st (stored_rows st) prepared short) (complete_pair prepared)
          (map row_turn_hash (stored_rows st)) (map row_turn_hash prepared)
    \<and> res_turns_appended res + res_turns_prepended res + res_turns_inserted res = res_turns_written res"
proof -
  let ?al = "find_alignment sha st (stored_rows st) prepared short"
  let ?ex = "map row_turn_hash (stored_rows st)" and ?in = "map row_turn_hash prepared"
  have tr: "anchors_trusted sha st prepared" using wf pay by (simp add: anchors_trusted_iff)
  have blk: "common_block ?ex ?in a" if "?al = Some a" for a
    using find_alignment_block[OF tr that] .
  obtain res st1 w where r:
    "ingest_prepared_turns sha new_id now epoch_ok delta_ok short prepared (stored_rows st) st
      = Inr (res, settle sha delta_ok w st1)"
    "store_inv st1" "st_anchors st1 = st_anchors st"
    "map row_turn_hash (stored_rows st1) = merge_spec ?al (complete_pair prepared) ?ex ?in"
    "row_canonical_turn_id ` set (st_turns st1) \<subseteq> row_canonical_turn_id ` set (st_turns st) \<union> range new_id"
    "w = turns_written_spec ?al (complete_pair prepared) ?ex ?in" "w = 0 \<longrightarrow> same_core st st1"
    "res_turns_written res = w"
    "res_turns_appended res + res_turns_prepended res + res_turns_inserted res = w"
    using ingest_cases_ok[OF tr dig fresh, of now epoch_ok delta_ok short]
    by (elim exE conjE) (rule that)
  have cur: "anchors_current sha st1" if "w = 0"
  proof -
    have "build_anchor_rows sha (stored_rows st1) = build_anchor_rows sha (stored_rows st)"
      using r(7) that same_core_stored_rows build_anchor_rows_cong by blast
    then show ?thesis using wf r(3) by (simp add: store_wf_def anchors_current_def)
  qed
  have ok: "list_all anchor_ok (st_anchors st1)"
    using anchors_current_ok[OF dig, of st] wf r(3) by (simp add: store_wf_def)
  note s = settle_ok[OF dig r(2) ok cur, of w delta_ok, simplified]
  note c = map_core_cong[OF s[THEN conjunct2, THEN conjunct2]]
  have "nul_free h" if "h \<in> set (map row_turn_hash (stored_rows st1))" for h
    using that merge_spec_set[of ?al ?ex ?in "complete_pair prepared"] blk wf pay unfolding r(4)
    by (auto simp: store_wf_def rows_wf_def payload_ok_def hashes_wf_def list_all_iff)
  moreover have "[] \<notin> set (map row_canonical_turn_id (stored_rows st1))"
  proof -
    have "[] \<notin> row_canonical_turn_id ` set (st_turns st)"
      using wf unfolding store_wf_def rows_wf_iff stored_ids by blast
    then show ?thesis using r(5) fresh unfolding fresh_ids_def stored_ids[symmetric] by blast
  qed
  ultimately have "rows_wf (stored_rows (settle sha delta_ok w st1))"
    unfolding rows_wf_iff c by simp
  then show ?thesis using r(1,4,6,8,9) s c(3) by (auto simp: store_wf_def)
qed

section \<open>Resends\<close>

lemma merge_spec_written:
  assumes "\<And>a. al = Some a \<Longrightarrow> common_block ex inc a"
  shows "length (merge_spec al pair ex inc) = length ex + turns_written_spec al pair ex inc"
  using assms by (auto simp: merge_spec_def turns_written_spec_def splice_contiguous common_block_def
      split: option.splits)

lemma sublist_occurs:
  assumes "sublist (map row_turn_hash incoming) (map row_turn_hash existing)"
  obtains e where "occurs_at existing incoming e"
proof -
  from assms obtain ps ss where s: "map row_turn_hash existing = ps @ map row_turn_hash incoming @ ss"
    by (auto simp: sublist_def)
  then have "length existing = length ps + length incoming + length ss"
    by (metis length_append length_map add.assoc)
  with s that[of "length ps"] show thesis by (simp add: occurs_at_def slice_def)
qed

lemma resend_writes_nothing:
  assumes wf: "store_wf sha st" and pay: "payload_ok sha st prepared"
    and dig: "[] \<notin> range sha" and fresh: "fresh_ids new_id st"
    and occ: "sublist (map row_turn_hash prepared) (map row_turn_hash (stored_rows st))"
    and len: "if short then prepared \<noteq> [] else 3 \<le> length prepared"
  shows "\<exists>res st'. ingest_prepared_turns sha new_id now epoch_ok delta_ok short prepared (stored_rows st) st
      = Inr (res, st') \<and> same_core st st' \<and> res_merge_mode res = ExactResend
    \<and> res_turns_written res = 0 \<and> res_turns_matched res = length prepared"
proof -
  have tr: "anchors_trusted sha st prepared" using wf pay by (simp add: anchors_trusted_iff)
  obtain e where e: "occurs_at (stored_rows st) prepared e" using occ by (rule sublist_occurs)
  obtain a where a: "find_alignment sha st (stored_rows st) prepared short = Some a"
    "al_overlap_len a = length prepared" "al_merge_mode a = ExactResend"
    using resend_aligns[OF tr dig e len] by auto
  have ne: "prepared \<noteq> []" "stored_rows st \<noteq> []" using a by (auto simp: find_alignment_def split: if_splits)
  have inv: "store_inv st" using wf by (simp add: store_wf_def)
  obtain res st3 where m: "merge_aligned sha new_id now epoch_ok delta_ok a prepared (stored_rows st) st
      = Inr (res, settle sha delta_ok (length prepared - al_overlap_len a) st3)"
    "length prepared = al_overlap_len a \<longrightarrow> same_core st st3"
    "res_merge_mode res = al_merge_mode a"
    "res_turns_written res = length prepared - al_overlap_len a"
    "res_turns_matched res = al_overlap_len a"
    using merge_aligned_ok[OF inv refl fresh find_alignment_block[OF tr a(1)], of sha now epoch_ok delta_ok]
    by (elim exE conjE) (rule that)
  then show ?thesis using a ne
    by (intro exI[of _ res] exI[of _ st3]) (simp add: ingest_prepared_turns_def settle_def)
qed

section \<open>Any sequence of calls\<close>

text \<open>
  One reconcile call as a step between stored conversations: any payload, any clock, any
  store flags, fresh ids.
\<close>

inductive reconcile_step :: "(string \<Rightarrow> string) \<Rightarrow> turn_store \<Rightarrow> turn_store \<Rightarrow> bool" for sha where
  reconcile: "payload_ok sha st prepared \<Longrightarrow> fresh_ids new_id st \<Longrightarrow>
     ingest_prepared_turns sha new_id now epoch_ok delta_ok short prepared (stored_rows st) st
       = Inr (res, st') \<Longrightarrow>
     reconcile_step sha st st'"

inductive_cases reconcile_stepE [elim!]: "reconcile_step sha st st'"

definition empty_store :: turn_store where
  "empty_store = \<lparr>st_turns = [], st_anchors = []\<rparr>"

lemma store_wf_empty: "store_wf sha empty_store"
  by (simp add: store_wf_def store_inv_def anchors_current_def rows_wf_def empty_store_def
      stored_rows_def build_anchor_rows_def anchor_window_sizes_def window_anchors_def)

lemma step_keeps:
  assumes "reconcile_step sha st st'" "[] \<notin> range sha" "store_wf sha st"
  shows "store_wf sha st' \<and> subseq (map row_turn_hash (stored_rows st)) (map row_turn_hash (stored_rows st'))"
  using assms(1)
proof
  fix prepared new_id now epoch_ok delta_ok short res
  assume pay: "payload_ok sha st prepared" and fresh: "fresh_ids new_id st"
    and run: "ingest_prepared_turns sha new_id now epoch_ok delta_ok short prepared (stored_rows st) st
       = Inr (res, st')"
  have tr: "anchors_trusted sha st prepared" using assms(3) pay by (simp add: anchors_trusted_iff)
  from ingest_total[OF assms(3) pay assms(2) fresh, of now epoch_ok delta_ok short] run
    merge_spec_keeps(1)[OF find_alignment_block[OF tr]]
  show ?thesis by auto
qed

lemma steps_keep:
  assumes "(reconcile_step sha)\<^sup>*\<^sup>* st st'" "[] \<notin> range sha" "store_wf sha st"
  shows "store_wf sha st' \<and> subseq (map row_turn_hash (stored_rows st)) (map row_turn_hash (stored_rows st'))"
  using assms
proof (induction rule: rtranclp_induct)
  case (step y z)
  then show ?case using step_keeps[OF step.hyps(2)] subseq_order.trans by blast
qed simp

section \<open>A concrete conversation\<close>

text \<open>
  Data for evaluating the statements below: rows whose hashes are one letter each, a digest
  function without collisions, ids that never clash.
\<close>

definition demo_sha :: "string \<Rightarrow> string" where
  "demo_sha s = CHR ''h'' # s"

definition demo_row :: "string \<Rightarrow> string \<Rightarrow> string \<Rightarrow> string \<Rightarrow> rat \<Rightarrow> canonical_row" where
  "demo_row cid h u a k = empty_row\<lparr>row_canonical_turn_id := cid, row_turn_hash := h,
     row_user_content := u, row_assistant_content := a, row_sort_key := k\<rparr>"

definition demo_id :: "nat \<Rightarrow> string" where
  "demo_id n = replicate (Suc n) (CHR ''n'')"

definition demo_store :: turn_store where
  "demo_store =
     (let rows = [demo_row ''a'' ''A'' ''q1'' [] 1000, demo_row ''b'' ''B'' [] ''r1'' 2000,
                  demo_row ''c'' ''C'' ''q2'' [] 3000]
      in \<lparr>st_turns = rows, st_anchors = build_anchor_rows demo_sha rows\<rparr>)"

definition demo_payload :: "canonical_row list" where
  "demo_payload = [demo_row [] ''X'' ''q0'' [] 0, demo_row [] ''A'' ''q1'' [] 0,
     demo_row [] ''B'' [] ''r1'' 0, demo_row [] ''C'' ''q2'' [] 0,
     demo_row [] ''D'' [] ''r2'' 0]"

lemma demo_sha_ok: "[] \<notin> range demo_sha" "inj demo_sha"
  by (auto simp: demo_sha_def inj_def)

lemma demo_fresh: "fresh_ids demo_id demo_store"
proof -
  have "inj demo_id" by (auto simp: inj_def demo_id_def)
  moreover have "row_canonical_turn_id ` set (st_turns demo_store) = {''a'', ''b'', ''c''}"
    by (auto simp: demo_store_def Let_def demo_row_def)
  ultimately show ?thesis by (auto simp: fresh_ids_def demo_id_def)
qed

lemma demo_stored_rows: "stored_rows demo_store = st_turns demo_store"
  by (simp add: stored_rows_def demo_store_def Let_def demo_row_def)

lemma demo_wf: "store_wf demo_sha demo_store"
  by (simp add: store_wf_def anchors_current_def demo_stored_rows)
     (simp add: demo_store_def Let_def store_inv_def rows_wf_def demo_row_def nul_free_def)

lemma demo_payload_ok: "payload_ok demo_sha demo_store demo_payload"
  using demo_sha_ok(2) inj_on_subset
  by (auto simp: payload_ok_def hashes_wf_def demo_payload_def demo_row_def nul_free_def)

definition demo_id2 :: "nat \<Rightarrow> string" where
  "demo_id2 n = replicate (Suc n) (CHR ''m'')"

definition demo_first :: turn_store where
  "demo_first = (case ingest_prepared_turns demo_sha demo_id ''t'' True False True demo_payload
       (stored_rows empty_store) empty_store of Inl e \<Rightarrow> empty_store | Inr r \<Rightarrow> snd r)"

lemma demo_payload_empty: "payload_ok demo_sha empty_store demo_payload"
  using demo_payload_ok inj_on_subset[OF demo_sha_ok(2)] by (simp add: payload_ok_def)

lemma demo_fresh_empty: "fresh_ids demo_id empty_store"
  using demo_fresh by (simp add: fresh_ids_def empty_store_def)

lemma demo_first_step: "reconcile_step demo_sha empty_store demo_first"
  using ingest_total[OF store_wf_empty demo_payload_empty demo_sha_ok(1) demo_fresh_empty, of "''t''" True False True]
    reconcile[OF demo_payload_empty demo_fresh_empty] by (auto simp: demo_first_def)

lemma demo_first_rows:
  "map row_turn_hash (stored_rows demo_first) = [''X'', ''A'', ''B'', ''C'', ''D'']
   \<and> map row_canonical_turn_id (st_turns demo_first) = [''nn'', ''nnn'', ''nnnn'', ''nnnnn'', ''nnnnnn'']"
  by code_simp

lemma demo_run:
  "\<exists>res. ingest_prepared_turns demo_sha demo_id ''t'' True False True demo_payload (stored_rows empty_store) empty_store
     = Inr (res, demo_first)"
  using ingest_total[OF store_wf_empty demo_payload_empty demo_sha_ok(1) demo_fresh_empty, of "''t''" True False True]
  by (auto simp: demo_first_def)

section \<open>Properties\<close>

text \<open>C1: One reconcile call refines the merge of hash sequences: on a well-formed store it never
  fails, the stored sequence afterwards is the specified merge, the store stays well formed
  (unique keys and ids, current anchors, hex hashes), and the counters account for every row
  written.\<close>
theorem ingest_refines_merge:
  assumes "store_wf sha st" "payload_ok sha st prepared" "[] \<notin> range sha" "fresh_ids new_id st"
  shows "case ingest_prepared_turns sha new_id now epoch_ok delta_ok short prepared (stored_rows st) st of
      Inl e \<Rightarrow> False
    | Inr (res, st') \<Rightarrow> store_wf sha st'
        \<and> map row_turn_hash (stored_rows st') =
            merge_spec (find_alignment sha st (stored_rows st) prepared short) (complete_pair prepared)
              (map row_turn_hash (stored_rows st)) (map row_turn_hash prepared)
        \<and> length (stored_rows st') = length (stored_rows st) + res_turns_written res
        \<and> res_turns_appended res + res_turns_prepended res + res_turns_inserted res
            = res_turns_written res"
proof -
  let ?al = "find_alignment sha st (stored_rows st) prepared short"
  have tr: "anchors_trusted sha st prepared" using assms by (simp add: anchors_trusted_iff)
  obtain res st' where r: "ingest_prepared_turns sha new_id now epoch_ok delta_ok short prepared (stored_rows st) st
      = Inr (res, st')" "store_wf sha st'"
    "map row_turn_hash (stored_rows st') = merge_spec ?al (complete_pair prepared)
       (map row_turn_hash (stored_rows st)) (map row_turn_hash prepared)"
    "res_turns_written res = turns_written_spec ?al (complete_pair prepared)
       (map row_turn_hash (stored_rows st)) (map row_turn_hash prepared)"
    "res_turns_appended res + res_turns_prepended res + res_turns_inserted res = res_turns_written res"
    using ingest_total[OF assms, of now epoch_ok delta_ok short] by blast
  have "length (stored_rows st') = length (stored_rows st) + res_turns_written res"
    using arg_cong[OF r(3), of length] merge_spec_written[OF find_alignment_block[OF tr]] r(4) by simp
  then show ?thesis using r by simp
qed

theorem ingest_refines_merge_witness:
  "case ingest_prepared_turns demo_sha demo_id ''t'' True False True demo_payload
      (stored_rows demo_store) demo_store of
      Inl e \<Rightarrow> False
    | Inr (res, st') \<Rightarrow> store_wf demo_sha st'
        \<and> map row_turn_hash (stored_rows st') =
            merge_spec (find_alignment demo_sha demo_store (stored_rows demo_store) demo_payload True)
              (complete_pair demo_payload)
              (map row_turn_hash (stored_rows demo_store)) (map row_turn_hash demo_payload)
        \<and> length (stored_rows st') = length (stored_rows demo_store) + res_turns_written res
        \<and> res_turns_appended res + res_turns_prepended res + res_turns_inserted res
            = res_turns_written res"
  by (rule ingest_refines_merge[OF demo_wf demo_payload_ok demo_sha_ok(1) demo_fresh])

text \<open>C3: Ingesting never loses or reorders stored history, and unless the payload is rejected as a
  fragment it ends up stored as one contiguous block.\<close>
theorem ingest_keeps_history:
  assumes "store_wf sha st" "payload_ok sha st prepared" "[] \<notin> range sha" "fresh_ids new_id st"
  shows "case ingest_prepared_turns sha new_id now epoch_ok delta_ok short prepared (stored_rows st) st of
      Inl e \<Rightarrow> False
    | Inr (res, st') \<Rightarrow>
        subseq (map row_turn_hash (stored_rows st)) (map row_turn_hash (stored_rows st'))
        \<and> (find_alignment sha st (stored_rows st) prepared short = None \<and> \<not> complete_pair prepared
             \<and> stored_rows st \<noteq> []
           \<or> sublist (map row_turn_hash prepared) (map row_turn_hash (stored_rows st')))"
proof -
  let ?al = "find_alignment sha st (stored_rows st) prepared short"
  have tr: "anchors_trusted sha st prepared" using assms by (simp add: anchors_trusted_iff)
  obtain res st' where r: "ingest_prepared_turns sha new_id now epoch_ok delta_ok short prepared (stored_rows st) st
      = Inr (res, st')"
    "map row_turn_hash (stored_rows st') = merge_spec ?al (complete_pair prepared)
       (map row_turn_hash (stored_rows st)) (map row_turn_hash prepared)"
    using ingest_total[OF assms, of now epoch_ok delta_ok short] by blast
  show ?thesis
    using merge_spec_keeps[of ?al _ _ "complete_pair prepared", OF find_alignment_block[OF tr, of short]]
    by (cases ?al) (auto simp: r)
qed

theorem ingest_keeps_history_witness:
  "case ingest_prepared_turns demo_sha demo_id ''t'' True True False demo_payload
      (stored_rows demo_store) demo_store of
      Inl e \<Rightarrow> False
    | Inr (res, st') \<Rightarrow>
        subseq (map row_turn_hash (stored_rows demo_store)) (map row_turn_hash (stored_rows st'))
        \<and> (find_alignment demo_sha demo_store (stored_rows demo_store) demo_payload False = None
             \<and> \<not> complete_pair demo_payload \<and> stored_rows demo_store \<noteq> []
           \<or> sublist (map row_turn_hash demo_payload) (map row_turn_hash (stored_rows st')))"
  by (rule ingest_keeps_history[OF demo_wf demo_payload_ok demo_sha_ok(1) demo_fresh])



text \<open>C2: The invariants hold along every sequence of reconcile calls that starts from an empty
  conversation, and the stored sequence only ever grows around what was there.\<close>
theorem reconcile_invariant:
  assumes "[] \<notin> range sha" "(reconcile_step sha)\<^sup>*\<^sup>* empty_store st" "(reconcile_step sha)\<^sup>*\<^sup>* st st'"
  shows "store_wf sha st \<and> store_wf sha st'
    \<and> subseq (map row_turn_hash (stored_rows st)) (map row_turn_hash (stored_rows st'))"
  using steps_keep[OF assms(2,1) store_wf_empty] steps_keep[OF assms(3,1)] by blast

theorem reconcile_invariant_witness:
  "store_wf demo_sha demo_first \<and> store_wf demo_sha demo_first
    \<and> subseq (map row_turn_hash (stored_rows demo_first)) (map row_turn_hash (stored_rows demo_first))"
  by (rule reconcile_invariant[OF demo_sha_ok(1) r_into_rtranclp[where r = "reconcile_step demo_sha", OF demo_first_step]]) simp

section \<open>Properties of alignment, anchors and allocation on concrete stores\<close>

lemma demo_trusted: "hashes_wf incoming \<Longrightarrow> anchors_trusted demo_sha demo_store incoming"
  using demo_wf inj_on_subset[OF demo_sha_ok(2)] by (simp add: anchors_trusted_def store_wf_def)

text \<open>C21: Whatever \<open>_find_alignment\<close> returns is a genuine common block of the stored and the
  incoming hash sequences, in bounds on both sides, and it cannot be extended to the left or to
  the right: every shared neighbour is already inside.\<close>
theorem find_alignment_sound:
  assumes "anchors_trusted sha st incoming"
    and "find_alignment sha st (stored_rows st) incoming short = Some a"
  shows "common_block (map row_turn_hash (stored_rows st)) (map row_turn_hash incoming) a
    \<and> maximal_block (map row_turn_hash (stored_rows st)) (map row_turn_hash incoming) a"
  using assms by (rule find_alignment_block_max)

definition demo_tail :: "canonical_row list" where
  "demo_tail = [demo_row [] ''B'' [] ''r1'' 0, demo_row [] ''C'' ''q2'' [] 0]"

lemma demo_tail_ok: "hashes_wf demo_tail" "occurs_at (stored_rows demo_store) demo_tail 1"
  by (simp add: hashes_wf_def demo_tail_def demo_row_def nul_free_def)
     (simp add: occurs_at_def demo_tail_def demo_stored_rows slice_def,
      simp add: demo_store_def Let_def demo_row_def)

theorem find_alignment_sound_witness:
  "common_block (map row_turn_hash (stored_rows demo_store)) (map row_turn_hash demo_tail)
      (mk_alignment 1 0 2 2 ExactResend)
    \<and> maximal_block (map row_turn_hash (stored_rows demo_store)) (map row_turn_hash demo_tail)
      (mk_alignment 1 0 2 2 ExactResend)"
proof (rule find_alignment_sound[OF demo_trusted[OF demo_tail_ok(1)]])
  show "find_alignment demo_sha demo_store (stored_rows demo_store) demo_tail True
      = Some (mk_alignment 1 0 2 2 ExactResend)"
    by code_simp
qed

text \<open>A resend is recognised in full: a payload whose hashes all occur, contiguously, in the
  stored conversation aligns with its whole length and is classified as an exact resend, unless
  it is shorter than an anchor window and short overlaps are not allowed.\<close>
theorem find_alignment_resend:
  assumes tr: "anchors_trusted sha st incoming" and dig: "[] \<notin> range sha"
    and occ: "occurs_at (stored_rows st) incoming e"
    and len: "if short then incoming \<noteq> [] else 3 \<le> length incoming"
  shows "map_option (\<lambda>a. (al_incoming_start a, al_overlap_len a, al_merge_mode a))
      (find_alignment sha st (stored_rows st) incoming short) = Some (0, length incoming, ExactResend)"
  using assms by (rule resend_aligns)

theorem find_alignment_resend_witness:
  "map_option (\<lambda>a. (al_incoming_start a, al_overlap_len a, al_merge_mode a))
      (find_alignment demo_sha demo_store (stored_rows demo_store) demo_tail True)
    = Some (0, length demo_tail, ExactResend)"
  by (rule find_alignment_resend[OF demo_trusted[OF demo_tail_ok(1)] demo_sha_ok(1) demo_tail_ok(2)])
     (simp add: demo_tail_def)

text \<open>C24: From any stored anchor set, however divergent, the incremental refresh ends with exactly
  the anchors a full rebuild writes: every required triple once and nothing else, and neither
  touches the turns.\<close>
theorem refresh_converges:
  assumes "[] \<notin> range sha" "store_inv st" "list_all anchor_ok (st_anchors st)"
  shows "mset (st_anchors (fst (refresh_persisted_anchors sha delta_ok st)))
      = mset (build_anchor_rows sha (stored_rows st))
    \<and> st_turns (fst (refresh_persisted_anchors sha delta_ok st)) = st_turns st"
  using assms by (rule refresh_exact)

text \<open>A store with a stale anchor, a duplicated one and the rest missing.\<close>

definition stale_store :: turn_store where
  "stale_store = demo_store\<lparr>st_anchors :=
     [(3, ''old'', ''z''), (1, demo_sha (anchor_payload [''A'']), ''a''),
      (1, demo_sha (anchor_payload [''A'']), ''a'')]\<rparr>"

theorem refresh_converges_witness:
  "mset (st_anchors (fst (refresh_persisted_anchors demo_sha True stale_store)))
      = mset (build_anchor_rows demo_sha (stored_rows stale_store))
    \<and> st_turns (fst (refresh_persisted_anchors demo_sha True stale_store)) = st_turns stale_store"
proof (rule refresh_converges)
  show "store_inv stale_store"
    using demo_wf by (simp add: store_wf_def store_inv_def stale_store_def)
  show "list_all anchor_ok (st_anchors stale_store)"
    by (simp add: stale_store_def anchor_ok_def demo_sha_def)
qed (rule demo_sha_ok)


text \<open>Two neighbours less than the minimal step apart.\<close>

definition tight_store :: turn_store where
  "tight_store = \<lparr>st_turns = [demo_row ''a'' ''A'' ''q1'' [] 1000,
     demo_row ''b'' ''B'' [] ''r1'' (1000 + 1 / 2000)], st_anchors = []\<rparr>"


end
