(* ===== verification/SingleIngest.thy ===== *)
theory SingleIngest
  imports IngestProps
begin

text \<open>
  The live path: \<open>ingest_single\<close> of core/ingest\_reconciler.py for a completion without a
  source claim, from the prepared user and assistant row on.  Three outcomes in order: a recent
  exact resend rewrites the matched rows, a user half that is already the tail gets only its
  assistant half appended, anything else goes through the general merge without short
  overlaps.  \<open>seen\<close> is \<open>_seen_recently\<close> (ten-minute window on a parsed timestamp).
  The second part states what the one-way merges and compare-and-sets guarantee.
\<close>

section \<open>Recent exact resend\<close>

definition ordinal_for_row :: "canonical_row list \<Rightarrow> string \<Rightarrow> int" where
  "ordinal_for_row rows cid =
     (case filter (\<lambda>(i, r). row_canonical_turn_id r = cid) (enumerate 0 rows) of
        [] \<Rightarrow> -1
      | (i, r) # _ \<Rightarrow> int i)"

text \<open>The windows of the last five rows that carry the prepared hashes and were seen recently.\<close>

definition recent_matches ::
  "(string \<Rightarrow> bool) \<Rightarrow> canonical_row list \<Rightarrow> canonical_row list \<Rightarrow> canonical_row list list" where
  "recent_matches seen existing prepared =
     (let recent_window = take_last (min 5 (length existing)) existing; m = length prepared
      in if length existing < m then []
         else filter (\<lambda>recent. map row_turn_hash recent = map row_turn_hash prepared
                              \<and> list_all (\<lambda>r. seen (row_last_seen_at r)) recent)
                (map (\<lambda>start. slice start m recent_window) [0..<Suc (length recent_window) - m]))"

text \<open>The prepared row as it is rewritten over its stored match.\<close>

definition resend_row :: "string \<Rightarrow> canonical_row list \<Rightarrow> canonical_row \<Rightarrow> canonical_row \<Rightarrow> canonical_row" where
  "resend_row now existing row stored =
     (preserve_existing_enrichment
        (row\<lparr>row_canonical_turn_id := row_canonical_turn_id stored,
             row_sort_key := row_sort_key stored,
             row_first_seen_at := str_or (row_first_seen_at stored) (row_first_seen_at row),
             row_last_seen_at := now\<rparr>) stored)
     \<lparr>row_turn_number := ordinal_for_row existing (row_canonical_turn_id stored)\<rparr>"

definition exact_resend ::
  "(string \<Rightarrow> string) \<Rightarrow> string \<Rightarrow> bool \<Rightarrow> canonical_row list \<Rightarrow> canonical_row list \<Rightarrow> canonical_row list \<Rightarrow>
     turn_store \<Rightarrow> store_error + (ingest_result \<times> turn_store)" where
  "exact_resend sha now delta_ok existing prepared recent st =
     (let rows = map2 (resend_row now existing) prepared recent
      in case save_all (\<lambda>r. write_turn (row_first_seen_at r) (row_last_seen_at r) now r) rows st of
           Inl e \<Rightarrow> Inl e
         | Inr st' \<Rightarrow> Inr (mk_result ExactResend 0 (length prepared) 0 0 0 rows,
                         fst (refresh_persisted_anchors sha delta_ok st')))"

section \<open>The tail already holds the user half\<close>

definition tail_upgrades :: "bool \<Rightarrow> string \<Rightarrow> canonical_row \<Rightarrow> canonical_row \<Rightarrow> turn_store \<Rightarrow> turn_store" where
  "tail_upgrades epoch_ok now user_row tail st =
     (let cid = row_canonical_turn_id tail;
          st1 = update_canonical_turn_channels_if_empty epoch_ok now
                  (channel_upgrades [(user_row, tail)]) st;
          st2 = update_canonical_turn_senders_if_empty epoch_ok now
                  (if cid \<noteq> [] \<and> strip (row_sender user_row) \<noteq> [] \<and> strip (row_sender tail) = []
                      \<and> row_has_user_content tail
                   then [(cid, strip (row_sender user_row))] else []) st1;
          st3 = update_canonical_turn_actors_if_empty epoch_ok now
                  (if cid \<noteq> [] \<and> strip (row_sender_actor_id user_row) \<noteq> []
                      \<and> strip (row_sender_actor_id tail) = [] \<and> row_has_user_content tail
                   then [(cid, strip (row_sender_actor_id user_row))] else []) st2
      in update_canonical_turn_reply_roles_if_empty epoch_ok now
           (if cid \<noteq> [] \<and> has_reply_edge (row_reply_edge user_row)
            then [(cid, row_reply_edge user_row)] else []) st3)"

definition append_assistant_half ::
  "(string \<Rightarrow> string) \<Rightarrow> (nat \<Rightarrow> string) \<Rightarrow> string \<Rightarrow> bool \<Rightarrow> bool \<Rightarrow> canonical_row \<Rightarrow> canonical_row \<Rightarrow>
     canonical_row \<Rightarrow> turn_store \<Rightarrow> store_error + (ingest_result \<times> turn_store)" where
  "append_assistant_half sha new_id now epoch_ok delta_ok user_row assistant_row tail st =
     (let user_row1 = mirror_row user_row tail;
          st1 = tail_upgrades epoch_ok now user_row1 tail st;
          user_row2 = preserve_existing_enrichment user_row1 tail;
          assistant_row' = stamp_row (new_id 0) now (new_id 1) (row_sort_key tail + 1000) assistant_row
      in case write_turn [] [] now assistant_row' st1 of
           Inl e \<Rightarrow> Inl e
         | Inr st2 \<Rightarrow>
             Inr (mk_result TailAppend 1 1 1 0 0 [user_row2, assistant_row'],
                  fst (refresh_persisted_anchors sha delta_ok (recompute_groups st2))))"

definition ingest_single ::
  "(string \<Rightarrow> string) \<Rightarrow> (nat \<Rightarrow> string) \<Rightarrow> string \<Rightarrow> (string \<Rightarrow> bool) \<Rightarrow> bool \<Rightarrow> bool \<Rightarrow>
     canonical_row \<Rightarrow> canonical_row \<Rightarrow> turn_store \<Rightarrow> store_error + (ingest_result \<times> turn_store)" where
  "ingest_single sha new_id now seen epoch_ok delta_ok user_row assistant_row st =
     (let existing = stored_rows st; prepared = [user_row, assistant_row]
      in case recent_matches seen existing prepared of
           recent # _ \<Rightarrow> exact_resend sha now delta_ok existing prepared recent st
         | [] \<Rightarrow>
             (if existing \<noteq> [] \<and> row_turn_hash (last existing) = row_turn_hash user_row
              then append_assistant_half sha new_id now epoch_ok delta_ok user_row assistant_row
                     (last existing) st
              else ingest_prepared_turns sha new_id now epoch_ok delta_ok False prepared existing st))"

section \<open>Lemmas\<close>

lemma same_core_tail_upgrades: "same_core st (tail_upgrades epoch_ok now user_row tail st)"
  unfolding tail_upgrades_def Let_def
  by (meson same_core_actors same_core_channels same_core_reply_roles same_core_senders same_core_trans)

lemma st_anchors_updates [simp]:
  "st_anchors (update_canonical_turn_senders_if_empty e now u st) = st_anchors st"
  "st_anchors (update_canonical_turn_actors_if_empty e now u st) = st_anchors st"
  "st_anchors (update_canonical_turn_channels_if_empty e now v st) = st_anchors st"
  "st_anchors (update_canonical_turn_reply_roles_if_empty e now w st) = st_anchors st"
  unfolding update_canonical_turn_reply_roles_if_empty_def
    update_canonical_turn_actors_if_empty_def update_canonical_turn_channels_if_empty_def
    update_canonical_turn_senders_if_empty_def
  by (simp_all add: anchors_fold update_row_def split: prod.splits)

lemma anchors_tail_upgrades [simp]: "st_anchors (tail_upgrades e now u t st) = st_anchors st"
  by (simp add: tail_upgrades_def Let_def)

lemma append_assistant_ok:
  assumes wf: "store_wf sha st" and dig: "[] \<notin> range sha" and fresh: "fresh_ids new_id st"
    and ne: "stored_rows st \<noteq> []"
  shows "\<exists>res st'. append_assistant_half sha new_id now epoch_ok delta_ok user_row assistant_row
        (last (stored_rows st)) st = Inr (res, st')
    \<and> store_inv st' \<and> anchors_current sha st'
    \<and> map row_turn_hash (stored_rows st') = map row_turn_hash (stored_rows st @ [assistant_row])
    \<and> res_turns_written res = 1"
proof -
  let ?tail = "last (stored_rows st)"
  let ?st1 = "tail_upgrades epoch_ok now (mirror_row user_row ?tail) ?tail st"
  let ?a = "stamp_row (new_id 0) now (new_id 1) (row_sort_key ?tail + 1000) assistant_row"
  have inv: "store_inv st" using wf by (simp add: store_wf_def)
  have sc: "same_core st ?st1" by (rule same_core_tail_upgrades)
  note core = map_core_cong[OF same_core_stored_rows[OF sc]]
  have inv1: "store_inv ?st1" using sc inv by (rule same_core_store_inv)
  have "row_sort_key r \<le> row_sort_key ?tail" if "r \<in> set (stored_rows st)" for r
    using that stored_rows_strict[OF inv] ne
    by (cases "stored_rows st" rule: rev_cases) (auto simp: sorted_wrt_append less_imp_le)
  then have "k < row_sort_key ?tail + 1000" if "k \<in> set (map row_sort_key (stored_rows st))" for k
    using that by fastforce
  then have sorted: "sorted_wrt (<) (map row_sort_key (stored_rows ?st1 @ written_row [] [] now ?a # []))"
    using stored_rows_strict[OF inv1] by (simp add: sorted_wrt_append core(2) stamp_row_def del: set_map)
  have "new_id 1 \<notin> row_canonical_turn_id ` set (st_turns ?st1)"
    unfolding stored_ids core(1) unfolding stored_ids[symmetric]
    using fresh unfolding fresh_ids_def by blast
  then have new: "row_canonical_turn_id (written_row [] [] now ?a) \<notin> row_canonical_turn_id ` set (stored_rows ?st1)"
    by (simp add: stamp_row_def)
  obtain st2 where s: "save_canonical_turn (written_row [] [] now ?a) ?st1 = Inr st2" "store_inv st2"
    "stored_rows st2 = stored_rows ?st1 @ [written_row [] [] now ?a]"
    using turn_table.save_between[OF inv1 _ sorted new] by auto
  have ok: "list_all anchor_ok (st_anchors st2)"
    using save_anchors[OF s(1)] anchors_current_ok[OF dig, of st] wf by (simp add: store_wf_def)
  note st = settle_ok[OF dig s(2) ok, of 1 delta_ok, simplified]
  have "map row_turn_hash (stored_rows (settle sha delta_ok 1 st2)) = map row_turn_hash (stored_rows st @ [assistant_row])"
    using map_core_cong(3)[OF st[THEN conjunct2, THEN conjunct2]] core(3) by (simp add: s(3) stamp_row_def)
  then show ?thesis
    using s(1) st
    by (auto simp: append_assistant_half_def Let_def write_turn_def settle_def mk_result_def)
qed

subsection \<open>The resend rewrites rows in place\<close>

definition row_key :: "canonical_row \<Rightarrow> string \<times> rat \<times> string" where
  "row_key r = (row_canonical_turn_id r, row_sort_key r, row_turn_hash r)"

lemma row_key_core: "row_key r = (fst (row_core r), fst (snd (row_core r)), fst (snd (snd (row_core r))))"
  by (simp add: row_key_def row_core_def)

lemma map_key_cong:
  assumes "map row_key xs = map row_key ys"
  shows "map row_canonical_turn_id xs = map row_canonical_turn_id ys"
    "map row_sort_key xs = map row_sort_key ys" "map row_turn_hash xs = map row_turn_hash ys"
proof -
  have "map (f \<circ> row_key) xs = map (f \<circ> row_key) ys" for f :: "_ \<Rightarrow> 'z"
    using assms by (metis map_map)
  from this[of fst] this[of "fst \<circ> snd"] this[of "snd \<circ> snd"]
  show "map row_canonical_turn_id xs = map row_canonical_turn_id ys"
    "map row_sort_key xs = map row_sort_key ys" "map row_turn_hash xs = map row_turn_hash ys"
    by (simp_all add: row_key_def comp_def)
qed

lemma keys_stored_rows:
  assumes "map row_key (st_turns st') = map row_key (st_turns st)"
  shows "map row_key (stored_rows st') = map row_key (stored_rows st)"
proof -
  have "row_sort_key = (\<lambda>r. (fst \<circ> snd) (row_key r))" by (simp add: fun_eq_iff row_key_def)
  then show ?thesis
    using assms sort_key_map_proj[of row_key "fst \<circ> snd"] unfolding stored_rows_def by metis
qed

lemma overwrite_row_key [simp]: "row_key (overwrite_row r s) = row_key r"
  by (simp add: overwrite_row_def row_key_def)

lemma save_in_place:
  assumes inv: "store_inv st" and mem: "row_key r \<in> row_key ` set (st_turns st)"
  shows "\<exists>st'. save_canonical_turn r st = Inr st' \<and> map row_key (st_turns st') = map row_key (st_turns st)
    \<and> st_anchors st' = st_anchors st"
proof -
  obtain s where s: "s \<in> set (st_turns st)" "row_key s = row_key r" using mem by auto
  have uniq: "row_key t = row_key r" if "t \<in> set (st_turns st)"
    "row_canonical_turn_id t = row_canonical_turn_id r \<or> row_sort_key t = row_sort_key r" for t
  proof -
    have "t = s" using that s inv
      by (auto simp: store_inv_def distinct_map row_key_def inj_on_def)
    with s show ?thesis by simp
  qed
  have clash: "\<not> list_ex (\<lambda>t. row_sort_key t = row_sort_key r
      \<and> row_canonical_turn_id t \<noteq> row_canonical_turn_id r) (st_turns st)"
  proof
    assume "list_ex (\<lambda>t. row_sort_key t = row_sort_key r
      \<and> row_canonical_turn_id t \<noteq> row_canonical_turn_id r) (st_turns st)"
    then obtain t where t: "t \<in> set (st_turns st)" "row_sort_key t = row_sort_key r"
      "row_canonical_turn_id t \<noteq> row_canonical_turn_id r" by (auto simp: list_ex_iff)
    from uniq[OF t(1)] t(2) have "row_key t = row_key r" by blast
    with t(3) show False by (simp add: row_key_def)
  qed
  have hit: "list_ex (\<lambda>t. row_canonical_turn_id t = row_canonical_turn_id r) (st_turns st)"
    using s by (auto simp: list_ex_iff row_key_def)
  have same: "row_key (if row_canonical_turn_id t = row_canonical_turn_id r then overwrite_row r t else t)
      = row_key t" if "t \<in> set (st_turns st)" for t
  proof (cases "row_canonical_turn_id t = row_canonical_turn_id r")
    case True
    then have "row_key t = row_key r" using uniq[OF that] by blast
    with True show ?thesis by (simp only: if_True overwrite_row_key simp_thms)
  qed simp
  have "map row_key (map (\<lambda>t. if row_canonical_turn_id t = row_canonical_turn_id r
      then overwrite_row r t else t) (st_turns st)) = map row_key (st_turns st)"
    unfolding map_map by (rule map_cong[OF refl]) (simp only: comp_def same)
  with clash hit show ?thesis by (simp add: save_canonical_turn_def)
qed

lemma row_key_written [simp]: "row_key (written_row fs ls now r) = row_key r"
  by (simp add: row_key_def)

lemma store_inv_keys: "map row_key (st_turns st') = map row_key (st_turns st) \<Longrightarrow> store_inv st \<Longrightarrow> store_inv st'"
  using map_key_cong[of "st_turns st'" "st_turns st"] by (simp add: store_inv_def)

lemma save_all_in_place:
  assumes "store_inv st" "row_key ` set rows \<subseteq> row_key ` set (st_turns st)"
  shows "\<exists>st'. save_all (\<lambda>r. write_turn (row_first_seen_at r) (row_last_seen_at r) now r) rows st = Inr st'
    \<and> map row_key (st_turns st') = map row_key (st_turns st) \<and> st_anchors st' = st_anchors st"
  using assms
proof (induction rows arbitrary: st)
  case (Cons r rows)
  obtain st1 where st1: "write_turn (row_first_seen_at r) (row_last_seen_at r) now r st = Inr st1"
    "map row_key (st_turns st1) = map row_key (st_turns st)" "st_anchors st1 = st_anchors st"
    using save_in_place[OF Cons.prems(1), of "written_row (row_first_seen_at r) (row_last_seen_at r) now r"]
      Cons.prems(2) by (auto simp: write_turn_def)
  have "row_key ` set (st_turns st1) = row_key ` set (st_turns st)"
    using arg_cong[OF st1(2), of set] by simp
  then show ?case
    using Cons.IH[OF store_inv_keys[OF st1(2) Cons.prems(1)]] Cons.prems(2) st1 by auto
qed simp

lemma recent_matches_mem:
  assumes "recent \<in> set (recent_matches seen existing prepared)"
  shows "set recent \<subseteq> set existing \<and> map row_turn_hash recent = map row_turn_hash prepared"
proof -
  from assms obtain start where r: "recent = slice start (length prepared)
      (take_last (min 5 (length existing)) existing)" "map row_turn_hash recent = map row_turn_hash prepared"
    by (auto simp: recent_matches_def Let_def split: if_splits)
  then show ?thesis
    using set_take_last[of "min 5 (length existing)" existing]
    by (auto simp: slice_def dest!: in_set_takeD in_set_dropD)
qed

lemma resend_row_key:
  "row_turn_hash row = row_turn_hash stored \<Longrightarrow> row_key (resend_row now existing row stored) = row_key stored"
  by (simp add: resend_row_def preserve_existing_enrichment_def row_key_def Let_def)

lemma exact_resend_ok:
  assumes wf: "store_wf sha st" and dig: "[] \<notin> range sha"
    and rec: "recent \<in> set (recent_matches seen (stored_rows st) prepared)"
  shows "\<exists>res st'. exact_resend sha now delta_ok (stored_rows st) prepared recent st = Inr (res, st')
    \<and> map row_key (st_turns st') = map row_key (st_turns st) \<and> anchors_current sha st'"
proof -
  let ?rows = "map2 (resend_row now (stored_rows st)) prepared recent"
  have inv: "store_inv st" using wf by (simp add: store_wf_def)
  note m = recent_matches_mem[OF rec]
  have "map row_key ?rows = map row_key recent"
    using m[THEN conjunct2]
    by (auto simp: list_eq_iff_nth_eq resend_row_key)
  then have "row_key ` set ?rows = row_key ` set recent" by (metis list.set_map)
  then have sub: "row_key ` set ?rows \<subseteq> row_key ` set (st_turns st)" using m by auto
  obtain st1 where st1: "save_all (\<lambda>r. write_turn (row_first_seen_at r) (row_last_seen_at r) now r) ?rows st = Inr st1"
    "map row_key (st_turns st1) = map row_key (st_turns st)" "st_anchors st1 = st_anchors st"
    using save_all_in_place[OF inv sub] by blast
  have inv1: "store_inv st1" using st1(2) inv by (rule store_inv_keys)
  have ok: "list_all anchor_ok (st_anchors st1)"
    using st1(3) anchors_current_ok[OF dig, of st] wf by (simp add: store_wf_def)
  from refresh_exact[OF dig inv1 ok, of delta_ok] st1 show ?thesis
    by (auto simp: exact_resend_def Let_def anchors_current_def stored_rows_def dest!: mset_eq_setD)
qed

section \<open>Properties\<close>

text \<open>C25: The live path never fails on a well-formed store and never loses or reorders stored
  history, whichever of its three branches it takes.\<close>
theorem ingest_single_keeps_history:
  assumes wf: "store_wf sha st" and pay: "payload_ok sha st [user_row, assistant_row]"
    and dig: "[] \<notin> range sha" and fresh: "fresh_ids new_id st"
  shows "case ingest_single sha new_id now seen epoch_ok delta_ok user_row assistant_row st of
      Inl e \<Rightarrow> False
    | Inr (res, st') \<Rightarrow> store_inv st' \<and> anchors_current sha st'
        \<and> subseq (map row_turn_hash (stored_rows st)) (map row_turn_hash (stored_rows st'))"
proof -
  let ?rm = "recent_matches seen (stored_rows st) [user_row, assistant_row]"
  consider recent rest where "?rm = recent # rest"
    | "?rm = []" "stored_rows st \<noteq> [] \<and> row_turn_hash (last (stored_rows st)) = row_turn_hash user_row"
    | "?rm = []" "\<not> (stored_rows st \<noteq> [] \<and> row_turn_hash (last (stored_rows st)) = row_turn_hash user_row)"
    by (cases ?rm) auto
  then show ?thesis
  proof cases
    case 1
    then have "recent \<in> set ?rm" by simp
    then obtain res st' where r:
      "exact_resend sha now delta_ok (stored_rows st) [user_row, assistant_row] recent st = Inr (res, st')"
      "map row_key (st_turns st') = map row_key (st_turns st)" "anchors_current sha st'"
      using exact_resend_ok[OF wf dig] by blast
    have "map row_turn_hash (stored_rows st') = map row_turn_hash (stored_rows st)"
      using map_key_cong(3)[OF keys_stored_rows[OF r(2)]] .
    with 1 r store_inv_keys[OF r(2)] wf show ?thesis
      by (simp add: ingest_single_def Let_def store_wf_def)
  next
    case 2
    from append_assistant_ok[OF wf dig fresh, of now epoch_ok delta_ok user_row assistant_row] 2
    show ?thesis by (auto simp: ingest_single_def Let_def)
  next
    case 3
    have tr: "anchors_trusted sha st [user_row, assistant_row]"
      using wf pay by (simp add: anchors_trusted_iff)
    from ingest_total[OF wf pay dig fresh, of now epoch_ok delta_ok False]
      merge_spec_keeps(1)[OF find_alignment_block[OF tr, of False]] 3
    show ?thesis by (auto simp: ingest_single_def Let_def store_wf_def)
  qed
qed

theorem ingest_single_keeps_history_witness:
  "case ingest_single demo_sha demo_id ''t'' (\<lambda>s. True) True False
      (demo_row [] ''C'' ''q2'' [] 0) (demo_row [] ''D'' [] ''r2'' 0) demo_store of
      Inl e \<Rightarrow> False
    | Inr (res, st') \<Rightarrow> store_inv st' \<and> anchors_current demo_sha st'
        \<and> subseq (map row_turn_hash (stored_rows demo_store)) (map row_turn_hash (stored_rows st'))"
  by (rule ingest_single_keeps_history[OF demo_wf _ demo_sha_ok(1) demo_fresh])
     (use inj_on_subset[OF demo_sha_ok(2)] in
       \<open>simp add: payload_ok_def hashes_wf_def demo_row_def nul_free_def\<close>)

text \<open>Prepare then complete: when the user half is already the last stored row, completing the
  turn appends exactly the assistant half and never a second copy of the user half.\<close>
theorem complete_appends_only_assistant:
  assumes "store_wf sha st" "[] \<notin> range sha" "fresh_ids new_id st"
    and "recent_matches seen (stored_rows st) [user_row, assistant_row] = []"
    and "stored_rows st \<noteq> []" "row_turn_hash (last (stored_rows st)) = row_turn_hash user_row"
  shows "case ingest_single sha new_id now seen epoch_ok delta_ok user_row assistant_row st of
      Inl e \<Rightarrow> False
    | Inr (res, st') \<Rightarrow> res_turns_written res = 1
        \<and> map row_turn_hash (stored_rows st')
            = map row_turn_hash (stored_rows st) @ [row_turn_hash assistant_row]"
  using append_assistant_ok[OF assms(1-3,5), of now epoch_ok delta_ok user_row assistant_row] assms(4-6)
  by (auto simp: ingest_single_def Let_def)

theorem complete_appends_only_assistant_witness:
  "case ingest_single demo_sha demo_id ''t'' (\<lambda>s. True) True False
      (demo_row [] ''C'' ''q2'' [] 0) (demo_row [] ''D'' [] ''r2'' 0) demo_store of
      Inl e \<Rightarrow> False
    | Inr (res, st') \<Rightarrow> res_turns_written res = 1
        \<and> map row_turn_hash (stored_rows st')
            = map row_turn_hash (stored_rows demo_store) @ [row_turn_hash (demo_row [] ''D'' [] ''r2'' 0)]"
  by (rule complete_appends_only_assistant[OF demo_wf demo_sha_ok(1) demo_fresh])
     (unfold demo_stored_rows, simp_all add: demo_store_def demo_row_def Let_def recent_matches_def
       slice_def take_last_def)

end
