(* ===== verification/Enrichment.thy ===== *)
theory Enrichment
  imports SingleIngest
begin

text \<open>
  What the one-way merges of core/ingest\_reconciler.py and the compare-and-set updates of
  storage/sqlite.py guarantee about attribution and enrichment columns, and what the
  rewrite of the exact-resend branch does not keep.
\<close>

section \<open>The one-way merge\<close>

definition enrichment :: "canonical_row \<Rightarrow> string list" where
  "enrichment r = [row_session_date r, row_sender r, row_origin_channel_id r,
     row_origin_channel_label r, row_sender_actor_id r]"

definition not_blanked :: "string \<Rightarrow> string \<Rightarrow> bool" where
  "not_blanked stored result \<longleftrightarrow> (strip stored \<noteq> [] \<longrightarrow> strip result \<noteq> [])"

definition not_changed :: "string \<Rightarrow> string \<Rightarrow> bool" where
  "not_changed stored result \<longleftrightarrow> (strip stored \<noteq> [] \<longrightarrow> strip result = strip stored)"

lemma keep_stored_not_blanked: "not_blanked stored (keep_stored incoming stored)"
  by (simp add: not_blanked_def keep_stored_def)

lemma no_conflict_not_changed:
  "\<not> (strip s \<noteq> [] \<and> strip i \<noteq> [] \<and> strip s \<noteq> strip i) \<Longrightarrow> not_changed s (keep_stored i s)"
  by (auto simp: not_changed_def keep_stored_def)

lemma keep_edge_not_changed:
  assumes "\<not> c \<Longrightarrow> \<not> (strip s \<noteq> [] \<and> strip i \<noteq> [] \<and> strip s \<noteq> strip i)"
  shows "not_changed s (keep_edge c i s)"
  using assms by (auto simp: keep_edge_def not_changed_def keep_stored_def)

lemma edge_unconflicted:
  "list_all2 not_changed (edge_texts s) (edge_texts r) \<Longrightarrow> \<not> edge_conflict r s"
  by (auto simp: edge_conflict_def list_ex_iff not_changed_def list_all2_iff edge_texts_def)

lemma merged_edges_unchanged:
  "list_all2 not_changed (edge_texts (row_reply_edge stored))
     (edge_texts (row_reply_edge (preserve_existing_enrichment row stored)))"
proof -
  let ?c = "edge_conflict (row_reply_edge row) (row_reply_edge stored)"
  have "\<not> ?c \<Longrightarrow> (i, s) \<in> set (zip (edge_texts (row_reply_edge row)) (edge_texts (row_reply_edge stored)))
      \<Longrightarrow> \<not> (strip s \<noteq> [] \<and> strip i \<noteq> [] \<and> strip s \<noteq> strip i)" for i s
    by (auto simp: edge_conflict_def list_ex_iff)
  then show ?thesis
    by (simp add: preserve_existing_enrichment_def Let_def row_reply_edge_def edge_texts_def)
       (intro conjI keep_edge_not_changed; simp add: row_reply_edge_def edge_texts_def)
qed

lemma keep_idem [simp]:
  "keep_stored (keep_stored i s) s = keep_stored i s"
  "keep_stored (keep_edge c i s) s = keep_edge c i s"
  "max (keep_version c v w) w = keep_version c v w"
  by (auto simp: keep_stored_def keep_edge_def keep_version_def)

lemma merge_twice:
  "preserve_existing_enrichment (preserve_existing_enrichment row stored) stored
     = preserve_existing_enrichment row stored"
proof -
  let ?p = "preserve_existing_enrichment row stored"
  have c: "edge_conflict (row_reply_edge ?p) (row_reply_edge stored) = False"
    using edge_unconflicted[OF merged_edges_unchanged] by simp
  have "preserve_existing_enrichment ?p stored = ?p"
    unfolding preserve_existing_enrichment_def[of ?p] Let_def c
    by (rule canonical_row.equality)
       (simp_all add: preserve_existing_enrichment_def Let_def keep_edge_def[of False] keep_version_def[of False])
  then show ?thesis .
qed

section \<open>Compare-and-set\<close>

definition attribution :: "canonical_row \<Rightarrow> string list" where
  "attribution r = [row_sender r, row_origin_channel_id r, row_origin_channel_label r,
     row_sender_actor_id r] @ edge_texts (row_reply_edge r)"

definition cas_kept :: "canonical_row \<Rightarrow> canonical_row \<Rightarrow> bool" where
  "cas_kept r r' \<longleftrightarrow> row_canonical_turn_id r' = row_canonical_turn_id r
     \<and> list_all2 (\<lambda>a b. sql_blank a \<or> b = a) (attribution r) (attribution r')"

lemma cas_kept_refl [simp]: "cas_kept r r"
  by (simp add: cas_kept_def list_all2_refl)

lemma cas_kept_trans: "cas_kept a b \<Longrightarrow> cas_kept b c \<Longrightarrow> cas_kept a c"
  unfolding cas_kept_def list_all2_conv_all_nth by metis

lemma cas_store_trans:
  "list_all2 cas_kept xs ys \<Longrightarrow> list_all2 cas_kept ys zs \<Longrightarrow> list_all2 cas_kept xs zs"
  by (rule list_all2_trans[of cas_kept cas_kept]) (rule cas_kept_trans)

lemma cas_update_row:
  assumes "\<And>r. g r \<Longrightarrow> cas_kept r (f r)"
  shows "list_all2 cas_kept (st_turns st) (st_turns (update_row cid g f st))"
  using assms by (auto simp: update_row_def list_all2_map2 intro!: list_all2_refl)

lemma cas_fold:
  assumes "\<And>x st. list_all2 cas_kept (st_turns st) (st_turns (f x st))"
  shows "list_all2 cas_kept (st_turns st) (st_turns (fold f xs st))"
proof (induction xs arbitrary: st)
  case (Cons x xs)
  then show ?case using assms cas_store_trans by (metis fold_simps(2))
qed (simp add: list_all2_refl)

lemma cas_kept_updates [simp]:
  "sql_blank (row_sender r) \<Longrightarrow> cas_kept r (r\<lparr>row_sender := s, row_updated_at := now\<rparr>)"
  "sql_blank (row_sender_actor_id r) \<Longrightarrow> cas_kept r (r\<lparr>row_sender_actor_id := s, row_updated_at := now\<rparr>)"
  "cas_kept r (fill_channel now i l r)"
  "cas_kept r (fill_reply_edge now e r)"
  by (simp_all add: cas_kept_def attribution_def fill_channel_def fill_reply_edge_def fill_column_def
      row_reply_edge_def edge_texts_def)

lemma cas_id: "list_all2 cas_kept xs xs"
  by (simp add: list_all2_refl)

lemma cas_senders: "list_all2 cas_kept (st_turns st) (st_turns (update_canonical_turn_senders_if_empty e now u st))"
  unfolding update_canonical_turn_senders_if_empty_def
  by (rule cas_fold) (auto simp: cas_id intro!: cas_update_row split: prod.split)

lemma cas_actors: "list_all2 cas_kept (st_turns st) (st_turns (update_canonical_turn_actors_if_empty e now u st))"
  unfolding update_canonical_turn_actors_if_empty_def
  by (rule cas_fold) (auto simp: cas_id intro!: cas_update_row split: prod.split)

lemma cas_channels: "list_all2 cas_kept (st_turns st) (st_turns (update_canonical_turn_channels_if_empty e now u st))"
  unfolding update_canonical_turn_channels_if_empty_def
  by (rule cas_fold) (auto simp: cas_id intro!: cas_update_row split: prod.split)

lemma cas_reply_roles: "list_all2 cas_kept (st_turns st) (st_turns (update_canonical_turn_reply_roles_if_empty e now u st))"
  unfolding update_canonical_turn_reply_roles_if_empty_def
  by (rule cas_fold) (auto simp: cas_id intro!: cas_update_row split: prod.split)

section \<open>Properties\<close>


text \<open>The compare-and-set batches that enrich matched rows fill empty columns only: every row keeps
  its id and every attribution value that was not blank.\<close>
theorem upgrades_never_overwrite:
  "list_all2 cas_kept (st_turns st) (st_turns (upgrade_overlap epoch_ok now ovs st))"
  unfolding upgrade_overlap_def
  by (meson cas_actors cas_channels cas_reply_roles cas_senders cas_store_trans)


section \<open>What an exact resend does not keep\<close>

text \<open>A stored pair that has been tagged and compacted, resent within the window.\<close>

definition done_row :: "string \<Rightarrow> string \<Rightarrow> string \<Rightarrow> string \<Rightarrow> rat \<Rightarrow> canonical_row" where
  "done_row cid h u a k = (demo_row cid h u a k)
     \<lparr>row_primary_tag := ''cooking'', row_tagged_at := ''t1'', row_compacted_at := ''t2'',
      row_source_batch_id := ''batch'', row_last_seen_at := ''t0''\<rparr>"

definition done_store :: turn_store where
  "done_store = \<lparr>st_turns = [done_row ''a'' ''A'' ''q1'' [] 1000, done_row ''b'' ''B'' [] ''r1'' 2000],
     st_anchors = []\<rparr>"

definition progress :: "canonical_row \<Rightarrow> string \<times> string \<times> string \<times> string" where
  "progress r = (row_primary_tag r, row_tagged_at r, row_compacted_at r, row_source_batch_id r)"

definition single_rows :: "store_error + (ingest_result \<times> turn_store) \<Rightarrow> canonical_row list" where
  "single_rows r = (case r of Inl e \<Rightarrow> [] | Inr (res, st) \<Rightarrow> stored_rows st)"

text \<open>The exact-resend branch rewrites the matched rows from freshly prepared ones and so resets their
  processing state: a resend of a tagged and compacted pair leaves it with the default tag,
  untagged, uncompacted and without its source batch.\<close>
theorem exact_resend_resets_progress:
  "map progress (stored_rows done_store)
     = [(''cooking'', ''t1'', ''t2'', ''batch''), (''cooking'', ''t1'', ''t2'', ''batch'')]
   \<and> map progress (single_rows (ingest_single demo_sha demo_id ''now'' (\<lambda>s. True) True False
        (demo_row [] ''A'' ''q1'' [] 0) (demo_row [] ''B'' [] ''r1'' 0) done_store))
     = [(''_general'', [], [], []), (''_general'', [], [], [])]"
  by code_simp

end
