(* ===== verification/TurnTagIndex.thy ===== *)
theory TurnTagIndex
  imports Prelude
begin

text \<open>
  The live per-turn tag index of core/turn\_tag\_index.py.  Python entries are mutable objects
  shared by the list and three dictionaries, so the index refers to them by reference
  (\<open>entry_ref\<close>) into a heap; \<open>is\<close> is equality of references.  The main invariant says
  that the dictionaries never point at an entry that was evicted.
\<close>

section \<open>Entries and the index\<close>

record turn_tag_entry =
  ent_turn_number :: int
  ent_message_hash :: string
  ent_canonical_turn_id :: string
  ent_tags :: "string list"
  ent_primary_tag :: string
  ent_timestamp :: rat      \<comment> \<open>hours\<close>

type_synonym entry_ref = nat

record tag_index =
  ix_heap :: "entry_ref \<Rightarrow> turn_tag_entry"
  ix_entries :: "entry_ref list"
  ix_by_logical_turn :: "int \<Rightarrow> entry_ref option"
  ix_by_canonical_turn :: "string \<Rightarrow> entry_ref option"
  ix_by_hash :: "string \<Rightarrow> entry_ref option"
  ix_all_tags :: "string set"
  ix_evicted_count :: nat

definition max_entries :: nat where
  "max_entries = 5000"

definition empty_index :: "(entry_ref \<Rightarrow> turn_tag_entry) \<Rightarrow> tag_index" where
  "empty_index heap = \<lparr>ix_heap = heap, ix_entries = [], ix_by_logical_turn = Map.empty,
     ix_by_canonical_turn = Map.empty, ix_by_hash = Map.empty, ix_all_tags = {},
     ix_evicted_count = 0\<rparr>"

abbreviation entry_at :: "tag_index \<Rightarrow> entry_ref \<Rightarrow> turn_tag_entry" where
  "entry_at ix r \<equiv> ix_heap ix r"

definition tags_of :: "(entry_ref \<Rightarrow> turn_tag_entry) \<Rightarrow> entry_ref list \<Rightarrow> string set" where
  "tags_of heap rs = (\<Union>r\<in>set rs. set (ent_tags (heap r)))"

definition drop_key :: "('k \<Rightarrow> entry_ref option) \<Rightarrow> 'k \<Rightarrow> entry_ref \<Rightarrow> 'k \<Rightarrow> entry_ref option" where
  "drop_key d k r = (if d k = Some r then d(k := None) else d)"

definition evict_oldest :: "tag_index \<Rightarrow> tag_index" where
  "evict_oldest ix =
     (case ix_entries ix of
        [] \<Rightarrow> ix
      | oldest # rest \<Rightarrow>
          (let e = entry_at ix oldest
           in ix\<lparr>ix_entries := rest,
                ix_by_logical_turn := drop_key (ix_by_logical_turn ix) (ent_turn_number e) oldest,
                ix_by_canonical_turn :=
                  (if ent_canonical_turn_id e \<noteq> []
                   then drop_key (ix_by_canonical_turn ix) (ent_canonical_turn_id e) oldest
                   else ix_by_canonical_turn ix),
                ix_by_hash :=
                  (if ent_message_hash e \<noteq> []
                   then drop_key (ix_by_hash ix) (ent_message_hash e) oldest else ix_by_hash ix),
                ix_evicted_count := ix_evicted_count ix + 1,
                ix_all_tags := tags_of (ix_heap ix) rest\<rparr>))"

text \<open>The writes of an accepted append.\<close>

definition store_entry :: "entry_ref \<Rightarrow> tag_index \<Rightarrow> tag_index" where
  "store_entry r ix =
     (let e = entry_at ix r
      in ix\<lparr>ix_entries := ix_entries ix @ [r],
            ix_by_logical_turn := (ix_by_logical_turn ix)(ent_turn_number e \<mapsto> r),
            ix_by_canonical_turn :=
              (if ent_canonical_turn_id e \<noteq> []
               then (ix_by_canonical_turn ix)(ent_canonical_turn_id e \<mapsto> r)
               else ix_by_canonical_turn ix),
            ix_by_hash :=
              (if ent_message_hash e \<noteq> [] then (ix_by_hash ix)(ent_message_hash e \<mapsto> r)
               else ix_by_hash ix),
            ix_all_tags := ix_all_tags ix \<union> set (ent_tags e)\<rparr>)"

definition index_append :: "entry_ref \<Rightarrow> tag_index \<Rightarrow> tag_index" where
  "index_append r ix =
     (let e = entry_at ix r
      in if ix_by_logical_turn ix (ent_turn_number e) \<noteq> None then ix
         else if ent_canonical_turn_id e \<noteq> []
                 \<and> ix_by_canonical_turn ix (ent_canonical_turn_id e) \<noteq> None then ix
         else store_entry r (if length (ix_entries ix) \<ge> max_entries then evict_oldest ix else ix))"

section \<open>Reads\<close>

definition non_inheritable_tags :: "string list" where
  "non_inheritable_tags = [''_general'', ''_stub'']"

text \<open>\<open>entries[-lookback:]\<close>; a lookback of zero slices the whole list.\<close>

definition get_active_tags :: "nat \<Rightarrow> tag_index \<Rightarrow> string set" where
  "get_active_tags lookback ix =
     (let source = ix_entries ix;
          recent = (if lookback = 0 then source else take_last lookback source)
      in tags_of (ix_heap ix) recent - set non_inheritable_tags)"

definition latest_meaningful_tags :: "tag_index \<Rightarrow> entry_ref option" where
  "latest_meaningful_tags ix =
     find (\<lambda>r. list_ex (\<lambda>t. t \<notin> set non_inheritable_tags) (ent_tags (entry_at ix r)))
       (rev (ix_entries ix))"

definition get_tag_velocity :: "rat \<Rightarrow> string \<Rightarrow> rat \<Rightarrow> tag_index \<Rightarrow> rat" where
  "get_tag_velocity now tag window ix =
     (case filter (\<lambda>r. now - window \<le> ent_timestamp (entry_at ix r) \<and> tag \<in> set (ent_tags (entry_at ix r)))
             (ix_entries ix) of
        [] \<Rightarrow> 0
      | r # rs \<Rightarrow> of_nat (Suc (length rs)) / max (now - ent_timestamp (entry_at ix r)) 1)"

definition get_tag_counts :: "tag_index \<Rightarrow> string \<Rightarrow> nat" where
  "get_tag_counts ix tag =
     sum_list (map (\<lambda>r. length (filter (\<lambda>t. t = tag) (ent_tags (entry_at ix r)))) (ix_entries ix))"

section \<open>Updates in place\<close>

definition bind_canonical_turn_id :: "int \<Rightarrow> string \<Rightarrow> tag_index \<Rightarrow> entry_ref option \<times> tag_index" where
  "bind_canonical_turn_id turn cid ix =
     (if cid = [] then (None, ix)
      else case ix_by_canonical_turn ix cid of
        Some r \<Rightarrow> (Some r, ix)
      | None \<Rightarrow>
          (case ix_by_logical_turn ix turn of
             None \<Rightarrow> (None, ix)
           | Some r \<Rightarrow>
               (Some r, ix\<lparr>ix_heap := (ix_heap ix)(r := (entry_at ix r)\<lparr>ent_canonical_turn_id := cid\<rparr>),
                         ix_by_canonical_turn := (ix_by_canonical_turn ix)(cid \<mapsto> r)\<rparr>)))"

definition replace_in_entry :: "string \<Rightarrow> (int \<Rightarrow> string list option) \<Rightarrow> turn_tag_entry \<Rightarrow> turn_tag_entry" where
  "replace_in_entry old_tag new e =
     (if old_tag \<in> set (ent_tags e)
      then case new (ent_turn_number e) of
             Some (t # ts) \<Rightarrow>
               e\<lparr>ent_tags := filter (\<lambda>x. x \<noteq> old_tag) (ent_tags e) @ t # ts,
                 ent_primary_tag := (if ent_primary_tag e = old_tag then t else ent_primary_tag e)\<rparr>
           | _ \<Rightarrow> e
      else e)"

definition replaces :: "string \<Rightarrow> (int \<Rightarrow> string list option) \<Rightarrow> turn_tag_entry \<Rightarrow> bool" where
  "replaces old_tag new e \<longleftrightarrow> old_tag \<in> set (ent_tags e)
     \<and> (case new (ent_turn_number e) of Some (t # ts) \<Rightarrow> True | _ \<Rightarrow> False)"

definition replace_tag :: "string \<Rightarrow> (int \<Rightarrow> string list option) \<Rightarrow> tag_index \<Rightarrow> nat \<times> tag_index" where
  "replace_tag old_tag new ix =
     (let hit = filter (\<lambda>r. replaces old_tag new (entry_at ix r)) (ix_entries ix);
          heap = (\<lambda>r. if r \<in> set (ix_entries ix) then replace_in_entry old_tag new (entry_at ix r)
                      else entry_at ix r)
      in (length hit,
          if hit = [] then ix
          else ix\<lparr>ix_heap := heap, ix_all_tags := tags_of heap (ix_entries ix)\<rparr>))"

definition set_turn_tags :: "string \<Rightarrow> string list \<Rightarrow> string \<Rightarrow> tag_index \<Rightarrow> bool \<times> tag_index" where
  "set_turn_tags cid tags primary ix =
     (case ix_by_canonical_turn ix cid of
        None \<Rightarrow> (False, ix)
      | Some r \<Rightarrow>
          (let heap = (ix_heap ix)(r := (entry_at ix r)\<lparr>ent_tags := tags,
                        ent_primary_tag := str_or primary ''_general''\<rparr>)
           in (True, ix\<lparr>ix_heap := heap, ix_all_tags := tags_of heap (ix_entries ix)\<rparr>)))"

definition remove_canonical_turns :: "string list \<Rightarrow> tag_index \<Rightarrow> nat \<times> tag_index" where
  "remove_canonical_turns gone ix =
     (let kept = filter (\<lambda>r. ent_canonical_turn_id (entry_at ix r) \<notin> set gone) (ix_entries ix);
          dropped = length (ix_entries ix) - length kept
      in (dropped,
          if dropped = 0 then ix
          else (fold index_append kept (empty_index (ix_heap ix)))
                 \<lparr>ix_evicted_count := ix_evicted_count ix\<rparr>))"

section \<open>The invariant\<close>

text \<open>
  Every dictionary entry points at a live entry that carries its key; turn numbers and
  canonical ids are unique among live entries and always findable; the tag set is exact; the
  list is bounded.
\<close>

definition index_inv :: "tag_index \<Rightarrow> bool" where
  "index_inv ix \<longleftrightarrow>
     distinct (ix_entries ix)
     \<and> (\<forall>k r. ix_by_logical_turn ix k = Some r \<longleftrightarrow>
            r \<in> set (ix_entries ix) \<and> ent_turn_number (entry_at ix r) = k)
     \<and> (\<forall>k r. ix_by_canonical_turn ix k = Some r \<longleftrightarrow>
            r \<in> set (ix_entries ix) \<and> ent_canonical_turn_id (entry_at ix r) = k \<and> k \<noteq> [])
     \<and> (\<forall>k r. ix_by_hash ix k = Some r \<longrightarrow>
            r \<in> set (ix_entries ix) \<and> ent_message_hash (entry_at ix r) = k \<and> k \<noteq> [])
     \<and> ix_all_tags ix = tags_of (ix_heap ix) (ix_entries ix)
     \<and> length (ix_entries ix) \<le> max_entries"

lemma index_invD:
  assumes "index_inv ix"
  shows "distinct (ix_entries ix)"
    "ix_by_logical_turn ix k = Some r \<longleftrightarrow> r \<in> set (ix_entries ix) \<and> ent_turn_number (entry_at ix r) = k"
    "ix_by_canonical_turn ix c = Some r \<longleftrightarrow>
       r \<in> set (ix_entries ix) \<and> ent_canonical_turn_id (entry_at ix r) = c \<and> c \<noteq> []"
    "ix_by_hash ix h = Some r \<Longrightarrow> r \<in> set (ix_entries ix) \<and> ent_message_hash (entry_at ix r) = h \<and> h \<noteq> []"
    "ix_all_tags ix = tags_of (ix_heap ix) (ix_entries ix)" "length (ix_entries ix) \<le> max_entries"
  using assms unfolding index_inv_def by blast+

lemma index_invI:
  assumes "distinct (ix_entries ix)"
    "\<And>k r. ix_by_logical_turn ix k = Some r \<longleftrightarrow> r \<in> set (ix_entries ix) \<and> ent_turn_number (entry_at ix r) = k"
    "\<And>c r. ix_by_canonical_turn ix c = Some r \<longleftrightarrow>
       r \<in> set (ix_entries ix) \<and> ent_canonical_turn_id (entry_at ix r) = c \<and> c \<noteq> []"
    "\<And>h r. ix_by_hash ix h = Some r \<Longrightarrow> r \<in> set (ix_entries ix) \<and> ent_message_hash (entry_at ix r) = h \<and> h \<noteq> []"
    "ix_all_tags ix = tags_of (ix_heap ix) (ix_entries ix)" "length (ix_entries ix) \<le> max_entries"
  shows "index_inv ix"
  using assms unfolding index_inv_def by blast

lemma index_inv_empty: "index_inv (empty_index heap)"
  by (simp add: index_inv_def empty_index_def tags_of_def)

lemma drop_key_exact:
  assumes "\<And>k q. d k = Some q \<longleftrightarrow> (q = r \<or> q \<in> S) \<and> f q = k \<and> P k" "r \<notin> S"
  shows "(if P (f r) then drop_key d (f r) r else d) k = Some q \<longleftrightarrow> q \<in> S \<and> f q = k \<and> P k"
proof (cases "k = f r \<and> P (f r)")
  case True
  then have "d (f r) = Some r" using assms(1) by blast
  moreover from this have "\<not> (q \<in> S \<and> f q = f r \<and> P (f r))" using assms by (metis option.sel)
  ultimately show ?thesis using True by (auto simp: drop_key_def)
next
  case False
  then have "d k = Some q \<longleftrightarrow> q \<in> S \<and> f q = k \<and> P k" using assms(1)[of k q] by auto
  then show ?thesis using False by (auto simp: drop_key_def)
qed

lemma drop_key_sound:
  "(if b then drop_key d k' r else d) k = Some q \<Longrightarrow> d k = Some q \<and> (b \<longrightarrow> k = k' \<longrightarrow> q \<noteq> r)"
  by (auto simp: drop_key_def split: if_splits)

lemma index_inv_evict:
  assumes "index_inv ix"
  shows "index_inv (evict_oldest ix)"
proof (cases "ix_entries ix")
  case Nil
  then show ?thesis using assms by (simp add: evict_oldest_def)
next
  case (Cons r rs)
  note D = index_invD[OF assms]
  let ?ix = "evict_oldest ix"
  have e: "ix_entries ?ix = rs" "ix_heap ?ix = ix_heap ix" "ix_all_tags ?ix = tags_of (ix_heap ix) rs"
    "ix_by_logical_turn ?ix = (if True then drop_key (ix_by_logical_turn ix) (ent_turn_number (entry_at ix r)) r
       else ix_by_logical_turn ix)"
    "ix_by_canonical_turn ?ix = (if ent_canonical_turn_id (entry_at ix r) \<noteq> []
       then drop_key (ix_by_canonical_turn ix) (ent_canonical_turn_id (entry_at ix r)) r
       else ix_by_canonical_turn ix)"
    "ix_by_hash ?ix = (if ent_message_hash (entry_at ix r) \<noteq> []
       then drop_key (ix_by_hash ix) (ent_message_hash (entry_at ix r)) r else ix_by_hash ix)"
    using Cons by (simp_all add: evict_oldest_def Let_def)
  have r: "r \<notin> set rs" "distinct rs" using D(1) Cons by simp_all
  have "ix_by_logical_turn ?ix k = Some q \<longleftrightarrow> q \<in> set rs \<and> ent_turn_number (entry_at ix q) = k \<and> True" for k q
    unfolding e by (rule drop_key_exact[where P = "\<lambda>k. True"]) (use D(2) Cons r in auto)
  moreover have "ix_by_canonical_turn ?ix k = Some q \<longleftrightarrow>
      q \<in> set rs \<and> ent_canonical_turn_id (entry_at ix q) = k \<and> k \<noteq> []" for k q
    unfolding e by (rule drop_key_exact[where P = "\<lambda>k. k \<noteq> []"]) (use D(3) Cons r in auto)
  moreover have "q \<in> set rs \<and> ent_message_hash (entry_at ix q) = k \<and> k \<noteq> []" if "ix_by_hash ?ix k = Some q" for k q
  proof -
    from drop_key_sound[OF that[unfolded e]] have q: "ix_by_hash ix k = Some q"
      "ent_message_hash (entry_at ix r) \<noteq> [] \<longrightarrow> k = ent_message_hash (entry_at ix r) \<longrightarrow> q \<noteq> r" by auto
    with D(4)[OF q(1)] Cons show ?thesis by auto
  qed
  ultimately show ?thesis
    using r(2) D(6) Cons unfolding index_inv_def e(1-3) by simp
qed

lemma evict_oldest_entries: "ix_entries (evict_oldest ix) = tl (ix_entries ix)"
  by (auto simp: evict_oldest_def Let_def split: list.split)

lemma evict_oldest_heap [simp]: "ix_heap (evict_oldest ix) = ix_heap ix"
  by (auto simp: evict_oldest_def Let_def split: list.split)

lemma tags_of_snoc [simp]: "tags_of h (rs @ [r]) = tags_of h rs \<union> set (ent_tags (h r))"
  by (auto simp: tags_of_def)

lemma index_append_eq:
  "index_append r ix =
     (if ix_by_logical_turn ix (ent_turn_number (entry_at ix r)) \<noteq> None
         \<or> ent_canonical_turn_id (entry_at ix r) \<noteq> []
            \<and> ix_by_canonical_turn ix (ent_canonical_turn_id (entry_at ix r)) \<noteq> None then ix
      else store_entry r (if length (ix_entries ix) \<ge> max_entries then evict_oldest ix else ix))"
  unfolding index_append_def Let_def by (simp split del: if_split) (simp only: split: if_splits; blast)

lemma index_inv_store:
  assumes inv: "index_inv ix" and room: "length (ix_entries ix) < max_entries"
    and turn: "ix_by_logical_turn ix (ent_turn_number (entry_at ix r)) = None"
    and cid: "ent_canonical_turn_id (entry_at ix r) = [] \<or> ix_by_canonical_turn ix (ent_canonical_turn_id (entry_at ix r)) = None"
  shows "index_inv (store_entry r ix)"
proof -
  note D = index_invD[OF inv]
  let ?e = "entry_at ix r"
  have f: "ix_entries (store_entry r ix) = ix_entries ix @ [r]" "ix_heap (store_entry r ix) = ix_heap ix"
    "ix_by_logical_turn (store_entry r ix) = (ix_by_logical_turn ix)(ent_turn_number ?e \<mapsto> r)"
    "ix_by_canonical_turn (store_entry r ix) = (if ent_canonical_turn_id ?e \<noteq> []
      then (ix_by_canonical_turn ix)(ent_canonical_turn_id ?e \<mapsto> r) else ix_by_canonical_turn ix)"
    "ix_by_hash (store_entry r ix) = (if ent_message_hash ?e \<noteq> []
      then (ix_by_hash ix)(ent_message_hash ?e \<mapsto> r) else ix_by_hash ix)"
    "ix_all_tags (store_entry r ix) = ix_all_tags ix \<union> set (ent_tags ?e)"
    by (simp_all add: store_entry_def Let_def)
  have new: "r \<notin> set (ix_entries ix)" using D(2)[of "ent_turn_number ?e" r] turn by simp
  have t: "ent_turn_number (entry_at ix s) \<noteq> ent_turn_number ?e" if "s \<in> set (ix_entries ix)" for s
    using D(2)[of "ent_turn_number ?e" s] turn that by simp
  have c: "ent_canonical_turn_id (entry_at ix s) \<noteq> ent_canonical_turn_id ?e"
    if "s \<in> set (ix_entries ix)" "ent_canonical_turn_id ?e \<noteq> []" for s
    using D(3)[of "ent_canonical_turn_id ?e" s] cid that by auto
  show ?thesis
  proof (rule index_invI, unfold f)
    show "distinct (ix_entries ix @ [r])" using D(1) new by simp
    show "((ix_by_logical_turn ix)(ent_turn_number ?e \<mapsto> r)) k = Some q \<longleftrightarrow>
        q \<in> set (ix_entries ix @ [r]) \<and> ent_turn_number (entry_at ix q) = k" for k q
      using D(2)[of k q] t[of q] by auto
    show "(if ent_canonical_turn_id ?e \<noteq> []
        then (ix_by_canonical_turn ix)(ent_canonical_turn_id ?e \<mapsto> r) else ix_by_canonical_turn ix) k = Some q \<longleftrightarrow>
        q \<in> set (ix_entries ix @ [r]) \<and> ent_canonical_turn_id (entry_at ix q) = k \<and> k \<noteq> []" for k q
      using D(3)[of k q] c[of q] new by auto
    show "q \<in> set (ix_entries ix @ [r]) \<and> ent_message_hash (entry_at ix q) = k \<and> k \<noteq> []"
      if "(if ent_message_hash ?e \<noteq> [] then (ix_by_hash ix)(ent_message_hash ?e \<mapsto> r) else ix_by_hash ix) k = Some q"
      for k q
      using D(4)[of k q] that by (auto split: if_splits)
    show "ix_all_tags ix \<union> set (ent_tags ?e) = tags_of (ix_heap ix) (ix_entries ix @ [r])"
      using D(5) by simp
    show "length (ix_entries ix @ [r]) \<le> max_entries" using room by simp
  qed
qed

lemma evict_keys_None:
  "ix_by_logical_turn ix k = None \<Longrightarrow> ix_by_logical_turn (evict_oldest ix) k = None"
  "ix_by_canonical_turn ix c = None \<Longrightarrow> ix_by_canonical_turn (evict_oldest ix) c = None"
  by (auto simp: evict_oldest_def Let_def drop_key_def split: list.split)

lemma index_inv_append:
  assumes inv: "index_inv ix"
  shows "index_inv (index_append r ix)"
proof -
  let ?ix1 = "if length (ix_entries ix) \<ge> max_entries then evict_oldest ix else ix"
  have inv1: "index_inv ?ix1" using inv index_inv_evict by simp
  have room: "length (ix_entries ?ix1) < max_entries"
    using inv by (auto simp: evict_oldest_entries index_inv_def max_entries_def)
  show ?thesis
    using inv index_inv_store[OF inv1 room, of r] evict_keys_None
    by (auto simp: index_append_eq)
qed

lemma index_inv_heap:
  assumes inv: "index_inv ix"
    and same: "\<And>r. r \<in> set (ix_entries ix) \<Longrightarrow> ent_turn_number (heap r) = ent_turn_number (entry_at ix r)
      \<and> ent_canonical_turn_id (heap r) = ent_canonical_turn_id (entry_at ix r)
      \<and> ent_message_hash (heap r) = ent_message_hash (entry_at ix r)"
  shows "index_inv (ix\<lparr>ix_heap := heap, ix_all_tags := tags_of heap (ix_entries ix)\<rparr>)"
proof (rule index_invI)
  note D = index_invD[OF inv]
  let ?n = "ix\<lparr>ix_heap := heap, ix_all_tags := tags_of heap (ix_entries ix)\<rparr>"
  show "ix_by_logical_turn ?n k = Some r \<longleftrightarrow> r \<in> set (ix_entries ?n) \<and> ent_turn_number (entry_at ?n r) = k" for k r
    using D(2)[of k r] same[of r] by auto
  show "ix_by_canonical_turn ?n c = Some r \<longleftrightarrow>
      r \<in> set (ix_entries ?n) \<and> ent_canonical_turn_id (entry_at ?n r) = c \<and> c \<noteq> []" for c r
    using D(3)[of c r] same[of r] by auto
  show "r \<in> set (ix_entries ?n) \<and> ent_message_hash (entry_at ?n r) = h \<and> h \<noteq> []"
    if "ix_by_hash ?n h = Some r" for h r
    using D(4)[of h r] same[of r] that by auto
qed (use index_invD[OF inv] in simp_all)

lemma index_inv_set_tags:
  assumes "index_inv ix"
  shows "index_inv (snd (set_turn_tags cid tags primary ix))"
  using index_inv_heap[OF assms]
  by (auto simp: set_turn_tags_def Let_def assms split: option.split)

lemma index_inv_replace_tag:
  assumes "index_inv ix"
  shows "index_inv (snd (replace_tag old new ix))"
proof -
  have "ent_turn_number (replace_in_entry old new e) = ent_turn_number e
      \<and> ent_canonical_turn_id (replace_in_entry old new e) = ent_canonical_turn_id e
      \<and> ent_message_hash (replace_in_entry old new e) = ent_message_hash e" for e
    by (simp add: replace_in_entry_def split: option.split list.split)
  then show ?thesis using index_inv_heap[OF assms] assms by (simp add: replace_tag_def Let_def)
qed

lemma index_inv_bind:
  assumes inv: "index_inv ix"
    and fresh: "\<And>r. ix_by_logical_turn ix turn = Some r \<Longrightarrow> ent_canonical_turn_id (entry_at ix r) = []"
  shows "index_inv (snd (bind_canonical_turn_id turn cid ix))"
proof (cases "cid \<noteq> [] \<and> ix_by_canonical_turn ix cid = None \<and> ix_by_logical_turn ix turn \<noteq> None")
  case False
  then show ?thesis using inv by (auto simp: bind_canonical_turn_id_def split: option.split)
next
  case True
  note D = index_invD[OF inv]
  from True obtain r where r: "ix_by_logical_turn ix turn = Some r" by auto
  let ?e = "(entry_at ix r)\<lparr>ent_canonical_turn_id := cid\<rparr>"
  let ?n = "ix\<lparr>ix_heap := (ix_heap ix)(r := ?e), ix_by_canonical_turn := (ix_by_canonical_turn ix)(cid \<mapsto> r)\<rparr>"
  have n: "snd (bind_canonical_turn_id turn cid ix) = ?n"
    using True r by (simp add: bind_canonical_turn_id_def)
  have live: "r \<in> set (ix_entries ix)" using D(2)[of turn r] r by simp
  have noc: "\<not> (q \<in> set (ix_entries ix) \<and> ent_canonical_turn_id (entry_at ix q) = cid)" for q
    using D(3)[of cid q] True by auto
  show ?thesis unfolding n
  proof (rule index_invI)
    show "ix_by_logical_turn ?n k = Some q \<longleftrightarrow> q \<in> set (ix_entries ?n) \<and> ent_turn_number (entry_at ?n q) = k" for k q
      using D(2)[of k q] by auto
    show "ix_by_canonical_turn ?n c = Some q \<longleftrightarrow>
        q \<in> set (ix_entries ?n) \<and> ent_canonical_turn_id (entry_at ?n q) = c \<and> c \<noteq> []" for c q
      using D(3)[of c q] noc[of q] live fresh[OF r] True by auto
    show "q \<in> set (ix_entries ?n) \<and> ent_message_hash (entry_at ?n q) = h \<and> h \<noteq> []"
      if "ix_by_hash ?n h = Some q" for h q
      using D(4)[of h q] that by auto
    show "ix_all_tags ?n = tags_of (ix_heap ?n) (ix_entries ?n)"
      using D(5) by (auto simp: tags_of_def split: if_splits)
  qed (use D(1,6) in simp_all)
qed

lemma index_inv_count [simp]: "index_inv (ix\<lparr>ix_evicted_count := n\<rparr>) = index_inv ix"
  by (simp add: index_inv_def)

lemma index_inv_fold: "index_inv ix \<Longrightarrow> index_inv (fold index_append rs ix)"
  by (induction rs arbitrary: ix) (simp_all add: index_inv_append)

lemma index_append_heap [simp]: "ix_heap (index_append r ix) = ix_heap ix"
  by (simp add: index_append_eq store_entry_def Let_def)

lemma index_append_accepts:
  assumes inv: "index_inv ix" and room: "length (ix_entries ix) < max_entries"
    and turn: "\<And>q. q \<in> set (ix_entries ix) \<Longrightarrow> ent_turn_number (entry_at ix q) \<noteq> ent_turn_number (entry_at ix r)"
    and cid: "\<And>q. q \<in> set (ix_entries ix) \<Longrightarrow> ent_canonical_turn_id (entry_at ix r) \<noteq> [] \<Longrightarrow>
      ent_canonical_turn_id (entry_at ix q) \<noteq> ent_canonical_turn_id (entry_at ix r)"
  shows "ix_entries (index_append r ix) = ix_entries ix @ [r]"
proof -
  let ?e = "entry_at ix r"
  have "ix_by_logical_turn ix (ent_turn_number ?e) = None"
  proof (cases "ix_by_logical_turn ix (ent_turn_number ?e)")
    case (Some q)
    then show ?thesis using index_invD(2)[OF inv, of "ent_turn_number ?e" q] turn[of q] by simp
  qed
  moreover have "ent_canonical_turn_id ?e = [] \<or> ix_by_canonical_turn ix (ent_canonical_turn_id ?e) = None"
  proof (cases "ix_by_canonical_turn ix (ent_canonical_turn_id ?e)")
    case (Some q)
    then show ?thesis using index_invD(3)[OF inv, of "ent_canonical_turn_id ?e" q] cid[of q] by auto
  qed simp
  ultimately show ?thesis using room by (auto simp: index_append_eq store_entry_def Let_def)
qed

lemma fold_index_append_all:
  assumes "index_inv ix" "length (ix_entries ix @ rs) \<le> max_entries"
    and "distinct (map (\<lambda>r. ent_turn_number (entry_at ix r)) (ix_entries ix @ rs))"
    and "distinct (filter (\<lambda>c. c \<noteq> []) (map (\<lambda>r. ent_canonical_turn_id (entry_at ix r)) (ix_entries ix @ rs)))"
  shows "ix_entries (fold index_append rs ix) = ix_entries ix @ rs"
  using assms
proof (induction rs arbitrary: ix)
  case (Cons r rs)
  have a: "ix_entries (index_append r ix) = ix_entries ix @ [r]"
  proof (rule index_append_accepts[OF Cons.prems(1)])
    show "length (ix_entries ix) < max_entries" using Cons.prems(2) by simp
    show "ent_turn_number (entry_at ix q) \<noteq> ent_turn_number (entry_at ix r)" if "q \<in> set (ix_entries ix)" for q
      using Cons.prems(3) that by (auto simp: image_iff)
    show "ent_canonical_turn_id (entry_at ix q) \<noteq> ent_canonical_turn_id (entry_at ix r)"
      if "q \<in> set (ix_entries ix)" "ent_canonical_turn_id (entry_at ix r) \<noteq> []" for q
      using Cons.prems(4) that by (auto simp: image_iff)
  qed
  have "ix_entries (fold index_append rs (index_append r ix)) = ix_entries (index_append r ix) @ rs"
    by (rule Cons.IH[OF index_inv_append[OF Cons.prems(1)]])
       (use Cons.prems(2-4) a in \<open>simp_all only: index_append_heap append_assoc append_Cons append_Nil\<close>)
  with a show ?case by simp
qed simp

section \<open>Greedy cover\<close>

text \<open>
  \<open>tag_to_turns\<close> is an insertion-ordered dict of turn sets (kept as lists); \<open>max\<close> over it
  returns the first tag of maximal coverage.
\<close>

definition tag_to_turns :: "string set \<Rightarrow> turn_tag_entry list \<Rightarrow> (string \<times> int list) list" where
  "tag_to_turns exclude es =
     fold (\<lambda>e m. fold (\<lambda>t m. if t \<in> exclude then m else setdefault_append m t (ent_turn_number e))
                    (ent_tags e) m) es []"

definition covered :: "int list \<Rightarrow> int list \<Rightarrow> int list" where
  "covered turns uncovered = filter (\<lambda>u. u \<in> set turns) uncovered"

fun best_tag :: "int list \<Rightarrow> (string \<times> int list) list \<Rightarrow> (string \<times> int list) option" where
  "best_tag uncovered [] = None"
| "best_tag uncovered ((t, turns) # m) =
     (case best_tag uncovered m of
        None \<Rightarrow> Some (t, turns)
      | Some (t', turns') \<Rightarrow>
          if length (covered turns uncovered) \<ge> length (covered turns' uncovered)
          then Some (t, turns) else Some (t', turns'))"

lemma covered_less: "covered turns unc \<noteq> [] \<Longrightarrow> length (filter (\<lambda>u. u \<notin> set turns) unc) < length unc"
  unfolding covered_def
  by (metis filter_empty_conv length_filter_less)

function greedy_cover :: "(string \<times> int list) list \<Rightarrow> int list \<Rightarrow> string list" where
  "greedy_cover m uncovered =
     (if uncovered = [] then []
      else case best_tag uncovered m of
             None \<Rightarrow> []
           | Some (t, turns) \<Rightarrow>
               if covered turns uncovered = [] then []
               else t # greedy_cover m (filter (\<lambda>u. u \<notin> set turns) uncovered))"
  by pat_completeness auto
termination
  by (relation "measure (\<lambda>(m, uncovered). length uncovered)") (auto dest: covered_less)

declare greedy_cover.simps [simp del]

definition compute_cover_set :: "string set \<Rightarrow> tag_index \<Rightarrow> string list" where
  "compute_cover_set exclude ix =
     (let es = map (entry_at ix) (ix_entries ix);
          m = tag_to_turns exclude es
      in if es = [] \<or> m = [] then [] else greedy_cover m (remdups (map ent_turn_number es)))"

lemma best_tag_max:
  "best_tag unc m = Some (t, turns) \<Longrightarrow>
     (t, turns) \<in> set m \<and> (\<forall>(t', turns')\<in>set m. length (covered turns' unc) \<le> length (covered turns unc))"
proof (induction m arbitrary: t turns)
  case (Cons p m)
  obtain a as where p: "p = (a, as)" by (cases p)
  show ?case
  proof (cases "best_tag unc m")
    case None
    then have "m = []" by (cases m) (auto split: option.splits if_splits)
    with Cons.prems p show ?thesis by simp
  next
    case (Some q)
    obtain b bs where q: "q = (b, bs)" by (cases q)
    have ih: "(b, bs) \<in> set m" "\<And>c cs. (c, cs) \<in> set m \<Longrightarrow> length (covered cs unc) \<le> length (covered bs unc)"
      using Cons.IH[of b bs] Some q by auto
    show ?thesis
    proof (cases "length (covered as unc) \<ge> length (covered bs unc)")
      case True
      with Cons.prems Some p q have "t = a" "turns = as" by simp_all
      with True ih(2) p show ?thesis by (auto intro: le_trans)
    next
      case False
      with Cons.prems Some p q have "t = b" "turns = bs" by simp_all
      with False ih p show ?thesis by auto
    qed
  qed
qed simp

lemma best_tag_None: "best_tag unc m = None \<longleftrightarrow> m = []"
  by (cases m) (auto split: option.splits)

lemma greedy_cover_useful:
  "t \<in> set (greedy_cover m unc) \<Longrightarrow> \<exists>turns. (t, turns) \<in> set m \<and> covered turns unc \<noteq> []"
proof (induction m unc rule: greedy_cover.induct)
  case (1 m unc)
  from "1.prems"[unfolded greedy_cover.simps[of m unc]] obtain b turns where b: "unc \<noteq> []" "best_tag unc m = Some (b, turns)" "covered turns unc \<noteq> []"
    "t = b \<or> t \<in> set (greedy_cover m (filter (\<lambda>u. u \<notin> set turns) unc))"
    by (cases "best_tag unc m") (auto split: if_splits)
  show ?case
  proof (cases "t = b")
    case True
    with b best_tag_max[OF b(2)] show ?thesis by auto
  next
    case False
    then have "t \<in> set (greedy_cover m (filter (\<lambda>u. u \<notin> set turns) unc))" using b(4) by simp
    from "1.IH"[OF b(1,2) refl b(3) this] show ?thesis
      by (auto simp: covered_def filter_empty_conv)
  qed
qed

lemma greedy_cover_distinct:
  "distinct (map fst m) \<Longrightarrow> distinct (greedy_cover m unc)"
proof (induction m unc rule: greedy_cover.induct)
  case (1 m unc)
  show ?case
  proof (cases "unc = [] \<or> best_tag unc m = None")
    case True
    then show ?thesis by (subst greedy_cover.simps) auto
  next
    case False
    then obtain b turns where b: "unc \<noteq> []" "best_tag unc m = Some (b, turns)" by auto
    have "b \<notin> set (greedy_cover m (filter (\<lambda>u. u \<notin> set turns) unc))"
    proof
      assume "b \<in> set (greedy_cover m (filter (\<lambda>u. u \<notin> set turns) unc))"
      then obtain turns' where t': "(b, turns') \<in> set m" "covered turns' (filter (\<lambda>u. u \<notin> set turns) unc) \<noteq> []"
        using greedy_cover_useful by blast
      have "turns' = turns"
        using t'(1) best_tag_max[OF b(2)] 1(2) by (metis eq_key_imp_eq_value)
      with t'(2) show False by (auto simp: covered_def filter_empty_conv)
    qed
    with "1.IH"[OF b refl] 1(2) b show ?thesis by (subst greedy_cover.simps) auto
  qed
qed

lemma greedy_cover_covers:
  "u \<in> set unc \<Longrightarrow> (t, turns) \<in> set m \<Longrightarrow> u \<in> set turns \<Longrightarrow>
     \<exists>t' turns'. t' \<in> set (greedy_cover m unc) \<and> (t', turns') \<in> set m \<and> u \<in> set turns'"
proof (induction m unc rule: greedy_cover.induct)
  case (1 m unc)
  have ne: "unc \<noteq> []" "m \<noteq> []" using "1.prems" by auto
  then obtain b bt where b: "best_tag unc m = Some (b, bt)"
    using best_tag_None by (metis not_None_eq surj_pair)
  have "covered turns unc \<noteq> []" using "1.prems" by (auto simp: covered_def filter_empty_conv)
  then have cov: "covered bt unc \<noteq> []" using best_tag_max[OF b] "1.prems"(2) by fastforce
  have g: "greedy_cover m unc = b # greedy_cover m (filter (\<lambda>u. u \<notin> set bt) unc)"
    using ne b cov by (subst greedy_cover.simps) auto
  show ?case
  proof (cases "u \<in> set bt")
    case True
    then show ?thesis using g best_tag_max[OF b] by auto
  next
    case False
    then show ?thesis using "1.IH"[OF ne(1) b refl cov] "1.prems" g by auto
  qed
qed

text \<open>What the dict holds: under each included tag exactly the turns that carry it.\<close>

lemma tag_to_turns_mem:
  "(\<exists>vs. (t, vs) \<in> set (tag_to_turns exclude es) \<and> u \<in> set vs) \<longleftrightarrow>
     t \<notin> exclude \<and> (\<exists>e\<in>set es. t \<in> set (ent_tags e) \<and> ent_turn_number e = u)"
proof -
  have inner: "(\<exists>vs. (t, vs) \<in> set (fold (\<lambda>t m. if t \<in> exclude then m else setdefault_append m t n) ts m) \<and> u \<in> set vs)
      \<longleftrightarrow> (\<exists>vs. (t, vs) \<in> set m \<and> u \<in> set vs) \<or> t \<notin> exclude \<and> t \<in> set ts \<and> n = u" for ts m n
    by (induction ts arbitrary: m) (auto simp: setdefault_append_mem)
  have "(\<exists>vs. (t, vs) \<in> set (fold (\<lambda>e m. fold (\<lambda>t m. if t \<in> exclude then m
          else setdefault_append m t (ent_turn_number e)) (ent_tags e) m) es m) \<and> u \<in> set vs)
      \<longleftrightarrow> (\<exists>vs. (t, vs) \<in> set m \<and> u \<in> set vs)
          \<or> t \<notin> exclude \<and> (\<exists>e\<in>set es. t \<in> set (ent_tags e) \<and> ent_turn_number e = u)" for m
    by (induction es arbitrary: m) (auto simp: inner)
  then show ?thesis by (simp add: tag_to_turns_def)
qed

lemma tag_to_turns_distinct: "distinct (map fst (tag_to_turns exclude es))"
proof -
  have inner: "distinct (map fst m) \<Longrightarrow>
      distinct (map fst (fold (\<lambda>t m. if t \<in> exclude then m else setdefault_append m t n) ts m))" for ts m n
    by (induction ts arbitrary: m) (auto simp: keys_setdefault_append)
  have "distinct (map fst m) \<Longrightarrow> distinct (map fst (fold (\<lambda>e m. fold (\<lambda>t m. if t \<in> exclude then m
          else setdefault_append m t (ent_turn_number e)) (ent_tags e) m) es m))" for m
    by (induction es arbitrary: m) (auto simp: inner)
  then show ?thesis by (simp add: tag_to_turns_def)
qed

lemma best_tag_in: "best_tag unc m = Some q \<Longrightarrow> m \<noteq> []"
  by auto

section \<open>Properties\<close>

text \<open>Data for evaluation: three entries at references 0, 1 and 2.\<close>

definition demo_heap :: "entry_ref \<Rightarrow> turn_tag_entry" where
  "demo_heap r = \<lparr>ent_turn_number = int r, ent_message_hash = ''h'',
     ent_canonical_turn_id = (if r = 0 then ''c0'' else []),
     ent_tags = (if r = 1 then [''cook'', ''food''] else if r = 2 then [''_general''] else [''cook'']),
     ent_primary_tag = ''cook'', ent_timestamp = 0\<rparr>"

definition demo_index :: tag_index where
  "demo_index = index_append 2 (index_append 1 (index_append 0 (empty_index demo_heap)))"

lemma demo_index_inv: "index_inv demo_index"
  unfolding demo_index_def by (intro index_inv_append index_inv_empty)



text \<open>Removing turns keeps exactly the other live entries, in order, and reports how many it
  dropped: the rebuild rejects none of them.\<close>
theorem remove_keeps_the_rest:
  assumes inv: "index_inv ix"
  shows "(let kept = filter (\<lambda>r. ent_canonical_turn_id (entry_at ix r) \<notin> set gone) (ix_entries ix);
              (dropped, ix') = remove_canonical_turns gone ix
          in ix_entries ix' = kept \<and> dropped + length kept = length (ix_entries ix)
             \<and> ix_evicted_count ix' = ix_evicted_count ix)"
proof -
  note D = index_invD[OF inv]
  let ?kept = "filter (\<lambda>r. ent_canonical_turn_id (entry_at ix r) \<notin> set gone) (ix_entries ix)"
  have le: "length ?kept \<le> length (ix_entries ix)" by (rule length_filter_le)
  have turns: "inj_on (\<lambda>r. ent_turn_number (entry_at ix r)) (set (ix_entries ix))"
  proof (rule inj_onI)
    fix x y
    assume "x \<in> set (ix_entries ix)" "y \<in> set (ix_entries ix)"
      "ent_turn_number (entry_at ix x) = ent_turn_number (entry_at ix y)"
    then have "ix_by_logical_turn ix (ent_turn_number (entry_at ix x)) = Some x"
      "ix_by_logical_turn ix (ent_turn_number (entry_at ix x)) = Some y"
      using D(2)[of "ent_turn_number (entry_at ix x)" x] D(2)[of "ent_turn_number (entry_at ix x)" y] by simp_all
    then show "x = y" by simp
  qed
  have cids: "distinct (filter (\<lambda>c. c \<noteq> []) (map (\<lambda>r. ent_canonical_turn_id (entry_at ix r)) rs))"
    if "distinct rs" "set rs \<subseteq> set (ix_entries ix)" for rs
    using that
  proof (induction rs)
    case (Cons r rs)
    have "ent_canonical_turn_id (entry_at ix q) \<noteq> ent_canonical_turn_id (entry_at ix r)"
      if "q \<in> set rs" "ent_canonical_turn_id (entry_at ix r) \<noteq> []" for q
      using D(3)[of "ent_canonical_turn_id (entry_at ix r)" q]
        D(3)[of "ent_canonical_turn_id (entry_at ix r)" r] Cons.prems that by auto
    then have "ent_canonical_turn_id (entry_at ix r) \<notin> set (filter (\<lambda>c. c \<noteq> [])
        (map (\<lambda>r. ent_canonical_turn_id (entry_at ix r)) rs))" by fastforce
    with Cons show ?case by (cases "ent_canonical_turn_id (entry_at ix r) = []") simp_all
  qed simp
  have "ix_entries (fold index_append ?kept (empty_index (ix_heap ix)))
      = ix_entries (empty_index (ix_heap ix)) @ ?kept"
  proof (rule fold_index_append_all[OF index_inv_empty])
    show "length (ix_entries (empty_index (ix_heap ix)) @ ?kept) \<le> max_entries"
      using le_trans[OF le D(6)] by (simp add: empty_index_def)
    show "distinct (map (\<lambda>r. ent_turn_number (entry_at (empty_index (ix_heap ix)) r))
        (ix_entries (empty_index (ix_heap ix)) @ ?kept))"
      using D(1) turns by (auto simp: empty_index_def distinct_map intro: inj_on_subset)
    show "distinct (filter (\<lambda>c. c \<noteq> []) (map (\<lambda>r. ent_canonical_turn_id (entry_at (empty_index (ix_heap ix)) r))
        (ix_entries (empty_index (ix_heap ix)) @ ?kept)))"
      using cids[of ?kept] D(1) by (simp add: empty_index_def)
  qed
  then have rebuilt: "ix_entries (fold index_append ?kept (empty_index (ix_heap ix))) = ?kept"
    by (simp add: empty_index_def)
  have rem: "remove_canonical_turns gone ix =
      (length (ix_entries ix) - length ?kept,
       if length (ix_entries ix) - length ?kept = 0 then ix
       else (fold index_append ?kept (empty_index (ix_heap ix)))\<lparr>ix_evicted_count := ix_evicted_count ix\<rparr>)"
    by (simp only: remove_canonical_turns_def Let_def)
  show ?thesis
  proof (cases "length (ix_entries ix) - length ?kept = 0")
    case True
    with le have "length ?kept = length (ix_entries ix)" by linarith
    then have "ix_entries ix = ?kept" by (metis filter_id_conv length_filter_less less_irrefl)
    with True le show ?thesis unfolding rem Let_def by (simp only: prod.case if_True) simp
  next
    case False
    with le rebuilt show ?thesis unfolding rem Let_def by (simp only: prod.case if_False) simp
  qed
qed

theorem remove_keeps_the_rest_witness:
  "(let kept = filter (\<lambda>r. ent_canonical_turn_id (entry_at demo_index r) \<notin> set [''c0'']) (ix_entries demo_index);
        (dropped, ix') = remove_canonical_turns [''c0''] demo_index
    in ix_entries ix' = kept \<and> dropped + length kept = length (ix_entries demo_index)
       \<and> ix_evicted_count ix' = ix_evicted_count demo_index)"
  by (rule remove_keeps_the_rest[OF demo_index_inv])

text \<open>The greedy cover touches every indexed turn that has a tag outside the excluded set, uses no
  tag twice and only tags that occur and are not excluded.\<close>
theorem cover_set_covers:
  "(let es = map (entry_at ix) (ix_entries ix); cover = compute_cover_set exclude ix
    in list_all (\<lambda>e. list_all (\<lambda>t. t \<in> exclude) (ent_tags e)
           \<or> list_ex (\<lambda>e'. ent_turn_number e' = ent_turn_number e
                         \<and> list_ex (\<lambda>t. t \<in> set cover) (ent_tags e')) es) es
       \<and> distinct cover \<and> set cover \<subseteq> tags_of (ix_heap ix) (ix_entries ix) - exclude)"
proof -
  let ?es = "map (entry_at ix) (ix_entries ix)"
  let ?m = "tag_to_turns exclude ?es" and ?u = "remdups (map ent_turn_number ?es)"
  let ?c = "compute_cover_set exclude ix"
  have c: "?c = greedy_cover ?m ?u"
    by (auto simp: compute_cover_set_def Let_def greedy_cover.simps tag_to_turns_def)
  have cov: "\<exists>e'\<in>set ?es. ent_turn_number e' = ent_turn_number e \<and> (\<exists>t'\<in>set (ent_tags e'). t' \<in> set ?c)"
    if e: "e \<in> set ?es" "t \<in> set (ent_tags e)" "t \<notin> exclude" for e t
  proof -
    have "\<exists>vs. (t, vs) \<in> set ?m \<and> ent_turn_number e \<in> set vs"
      unfolding tag_to_turns_mem using e by blast
    then obtain vs where "(t, vs) \<in> set ?m" "ent_turn_number e \<in> set vs" by blast
    moreover have "ent_turn_number e \<in> set ?u" using e by auto
    ultimately obtain t' vs' where t': "t' \<in> set ?c" "(t', vs') \<in> set ?m" "ent_turn_number e \<in> set vs'"
      unfolding c using greedy_cover_covers by blast
    then have "\<exists>vs. (t', vs) \<in> set ?m \<and> ent_turn_number e \<in> set vs" by blast
    then show ?thesis unfolding tag_to_turns_mem using t'(1) by blast
  qed
  have "distinct ?c" unfolding c by (rule greedy_cover_distinct) (rule tag_to_turns_distinct)
  moreover have "t \<in> tags_of (ix_heap ix) (ix_entries ix) - exclude" if t: "t \<in> set ?c" for t
  proof -
    obtain vs where vs: "(t, vs) \<in> set ?m" "covered vs ?u \<noteq> []"
      using t unfolding c by (blast dest: greedy_cover_useful)
    then obtain u where "u \<in> set vs" by (auto simp: covered_def filter_empty_conv)
    with vs(1) have "\<exists>vs. (t, vs) \<in> set ?m \<and> u \<in> set vs" by blast
    then show ?thesis unfolding tag_to_turns_mem by (auto simp: tags_of_def)
  qed
  ultimately show ?thesis
    using cov by (auto simp: Let_def list_all_iff list_ex_iff)
qed

text \<open>Binding a second canonical id to an entry leaves its first id in the dictionary, and eviction
  then removes only the second: a lookup of the first id returns an evicted entry.\<close>
theorem rebind_leaves_stale_id:
  "(let ix = snd (bind_canonical_turn_id 0 ''new'' demo_index); ix' = evict_oldest ix
    in ix_by_canonical_turn ix' ''c0'' = Some 0 \<and> 0 \<notin> set (ix_entries ix')
       \<and> ix_by_canonical_turn ix' ''new'' = None)"
  by code_simp

end
