(* ===== verification/Facts.thy ===== *)
theory Facts
  imports CanonicalRows
begin

text \<open>
  Admission of derived facts (core/fact\_lifecycle.py) and the runtime mode of the compaction
  fence (core/compaction\_fence.py).  Facts carry the fields the policy reads; source rows are
  canonical rows.  \<open>datetime.strptime\<close> is modelled for the two patterns the code uses, on
  the first ten characters.
\<close>

section \<open>Facts\<close>

record fact =
  fact_id :: string
  fact_subject :: string
  fact_status :: string
  fact_when_date :: string
  fact_conversation_id :: string
  fact_session_date :: string
  fact_superseded_by :: string
  fact_author_actor_id :: string
  fact_author_attribution_version :: int
  fact_author_source_role :: string
  fact_author_source_message_id :: string
  fact_trust_state :: string

definition withheld_trust_states :: "string list" where
  "withheld_trust_states = [''retracted'', ''rejected'']"

definition servable_facts :: "fact list \<Rightarrow> fact list" where
  "servable_facts facts = filter (\<lambda>f. fact_trust_state f \<notin> set withheld_trust_states) facts"

subsection \<open>Dates\<close>

definition is_leap :: "nat \<Rightarrow> bool" where
  "is_leap y \<longleftrightarrow> y mod 4 = 0 \<and> (y mod 100 \<noteq> 0 \<or> y mod 400 = 0)"

definition days_in_month :: "nat \<Rightarrow> nat \<Rightarrow> nat" where
  "days_in_month y m =
     (if m = 2 then (if is_leap y then 29 else 28)
      else if m \<in> {4, 6, 9, 11} then 30 else 31)"

text \<open>
  The patterns of \<open>%m\<close> and \<open>%d\<close>: one or two digits without a bare zero; the day may also
  be a space and a digit.
\<close>

definition parse_month :: "string \<Rightarrow> nat option" where
  "parse_month s =
     (if list_all is_digit s \<and> (length s = 1 \<or> length s = 2) \<and> 1 \<le> digits_value s \<and> digits_value s \<le> 12
      then Some (digits_value s) else None)"

definition parse_day :: "string \<Rightarrow> nat option" where
  "parse_day s =
     (let d = (if length s = 2 \<and> hd s = CHR '' '' then tl s else s)
      in if list_all is_digit d \<and> (length d = 1 \<or> length d = 2) \<and> 1 \<le> digits_value d \<and> digits_value d \<le> 31
         then Some (digits_value d) else None)"

definition strptime :: "char \<Rightarrow> string \<Rightarrow> (nat \<times> nat \<times> nat) option" where
  "strptime sep s =
     (let y = take 4 s; rest = drop 4 s;
          m = takeWhile (\<lambda>c. c \<noteq> sep) (tl rest); rest' = dropWhile (\<lambda>c. c \<noteq> sep) (tl rest)
      in if length y = 4 \<and> list_all is_digit y \<and> 1 \<le> digits_value y
            \<and> rest \<noteq> [] \<and> hd rest = sep \<and> rest' \<noteq> []
         then (case (parse_month m, parse_day (tl rest')) of
                 (Some mo, Some d) \<Rightarrow>
                   if d \<le> days_in_month (digits_value y) mo then Some (digits_value y, mo, d) else None
               | _ \<Rightarrow> None)
         else None)"

definition parse_fact_date :: "string \<Rightarrow> (nat \<times> nat \<times> nat) option" where
  "parse_fact_date v =
     (if v = [] \<or> v = ''(unknown)'' then None
      else case strptime (CHR ''-'') (take 10 v) of
             Some d \<Rightarrow> Some d
           | None \<Rightarrow> strptime (CHR ''/'') (take 10 v))"

subsection \<open>Attribution\<close>

definition is_attributed :: "fact \<Rightarrow> bool" where
  "is_attributed f \<longleftrightarrow> fact_author_actor_id f \<noteq> [] \<or> fact_author_attribution_version f \<noteq> 0
     \<or> fact_author_source_role f \<noteq> [] \<or> fact_author_source_message_id f \<noteq> []"

definition has_reply :: "canonical_row \<Rightarrow> bool" where
  "has_reply r \<longleftrightarrow> row_reply_attribution_version r \<noteq> 0 \<or> row_reply_target_body r \<noteq> []
     \<or> row_reply_target_message_id r \<noteq> [] \<or> row_reply_subject_actor_id r \<noteq> []"

definition reply_attribution_version :: int where
  "reply_attribution_version = 1"

definition source_author_matches :: "fact \<Rightarrow> canonical_row list \<Rightarrow> bool" where
  "source_author_matches f rows =
     (if \<not> is_attributed f then True
      else if fact_author_actor_id f = [] then False
      else if rows = [] \<or> list_ex (\<lambda>r. row_conversation_id r \<noteq> fact_conversation_id f) rows then False
      else
        (let humans = filter (\<lambda>r. strip (row_user_content r) \<noteq> []) rows
         in if fact_author_attribution_version f = 1 then
              (if fact_author_source_role f \<notin> {[], ''requester''} \<or> humans = [] then False
               else if list_ex has_reply humans then False
               else set (map row_sender_actor_id humans) = {fact_author_actor_id f})
            else if fact_author_attribution_version f \<noteq> 2 \<or> fact_author_source_message_id f = [] then False
            else if fact_author_source_role f = ''requester'' then
              (case filter (\<lambda>r. row_source_message_id r = fact_author_source_message_id f) humans of
                 [r] \<Rightarrow> row_sender_actor_id r = fact_author_actor_id f
               | _ \<Rightarrow> False)
            else if fact_author_source_role f = ''subject'' then
              (case filter (\<lambda>r. row_reply_target_message_id r = fact_author_source_message_id f) humans of
                 [r] \<Rightarrow>
                   (if list_ex (\<lambda>c. row_source_message_id c = fact_author_source_message_id f
                          \<and> row_audience_conversation_id c = row_audience_conversation_id r
                          \<and> row_origin_channel_id c = row_origin_channel_id r) humans
                    then False
                    else row_reply_attribution_version r = reply_attribution_version
                         \<and> strip (row_reply_target_body r) \<noteq> []
                         \<and> row_reply_subject_actor_id r = fact_author_actor_id f)
               | _ \<Rightarrow> False)
            else False))"

subsection \<open>Supersession\<close>

datatype reason =
    InvalidFactIdentity | ConversationMismatch | InactiveFact | SubjectMismatch
  | AttributionMismatch | UnprovedAuthorVersion | AuthorMismatch | SourceRoleMismatch
  | UnprovedSourceRole | UnprovedAudience | AudienceMismatch | PlanIsNotObservedOutcome
  | OlderEvidence
  | ProvedSourceScope bool      \<comment> \<open>with unknown chronology?\<close>
  | LegacyUnattributed bool

type_synonym audience = "(string \<times> string) option"

text \<open>Python truth of an optional pair whose first component must be non-empty.\<close>

definition audience_unproved :: "audience \<Rightarrow> bool" where
  "audience_unproved a \<longleftrightarrow> (case a of None \<Rightarrow> True | Some (c, _) \<Rightarrow> c = [])"

text \<open>The checks on the two endpoints' attribution and audience, as the first failing reason.\<close>

definition scope_reason :: "fact \<Rightarrow> fact \<Rightarrow> audience \<Rightarrow> audience \<Rightarrow> reason option" where
  "scope_reason new old na oa =
     (if is_attributed new \<or> is_attributed old then
        (if \<not> is_attributed new \<or> \<not> is_attributed old then Some AttributionMismatch
         else if fact_author_attribution_version new \<notin> {1, 2}
                 \<or> fact_author_attribution_version old \<notin> {1, 2} then Some UnprovedAuthorVersion
         else if fact_author_actor_id new = [] \<or> fact_author_actor_id new \<noteq> fact_author_actor_id old
           then Some AuthorMismatch
         else if fact_author_source_role new \<noteq> fact_author_source_role old then Some SourceRoleMismatch
         else if fact_author_source_role new \<notin> {[], ''requester'', ''subject'', ''assistant''}
           then Some UnprovedSourceRole
         else if audience_unproved na \<or> audience_unproved oa then Some UnprovedAudience
         else if na \<noteq> oa then Some AudienceMismatch
         else None)
      else if na \<noteq> None \<or> oa \<noteq> None then
        (if na = None \<or> oa = None then Some UnprovedAudience
         else if na \<noteq> oa then Some AudienceMismatch
         else None)
      else None)"

definition decide_supersession :: "fact \<Rightarrow> fact \<Rightarrow> audience \<Rightarrow> audience \<Rightarrow> bool \<times> reason" where
  "decide_supersession new old na oa =
     (if fact_id new = [] \<or> fact_id old = [] \<or> fact_id new = fact_id old
        then (False, InvalidFactIdentity)
      else if fact_conversation_id new = [] \<or> fact_conversation_id new \<noteq> fact_conversation_id old
        then (False, ConversationMismatch)
      else if fact_superseded_by new \<noteq> [] \<or> fact_superseded_by old \<noteq> [] then (False, InactiveFact)
      else if strip (fact_subject new) = []
              \<or> lower (strip (fact_subject new)) \<noteq> lower (strip (fact_subject old))
        then (False, SubjectMismatch)
      else case scope_reason new old na oa of
        Some r \<Rightarrow> (False, r)
      | None \<Rightarrow>
          (if fact_status new = ''planned'' \<and> fact_status old \<noteq> ''planned''
             then (False, PlanIsNotObservedOutcome)
           else
             (let nd = parse_fact_date (str_or (fact_when_date new) (fact_session_date new));
                  od = parse_fact_date (str_or (fact_when_date old) (fact_session_date old))
              in if nd \<noteq> None \<and> od \<noteq> None \<and> the od > the nd then (False, OlderEvidence)
                 else (True, (if is_attributed new \<or> is_attributed old
                              then ProvedSourceScope (nd = None \<or> od = None)
                              else LegacyUnattributed (nd = None \<or> od = None))))))"

section \<open>The compaction fence\<close>

datatype fence_mode = FenceOff | FenceObserve | FenceActive

text \<open>\<open>from_env\<close>: a missing variable means off, a wrong value raises (\<open>None\<close> here).\<close>

definition fence_from_env :: "string option \<Rightarrow> fence_mode option" where
  "fence_from_env env =
     (let raw = (case env of None \<Rightarrow> ''off'' | Some v \<Rightarrow> v); n = lower (strip raw)
      in if n = ''off'' then Some FenceOff
         else if n = ''observe'' then Some FenceObserve
         else if n = ''active'' then Some FenceActive
         else None)"

definition fence_resolve :: "fence_mode option \<Rightarrow> string option \<Rightarrow> fence_mode option" where
  "fence_resolve explicit env = (case explicit of Some m \<Rightarrow> Some m | None \<Rightarrow> fence_from_env env)"

definition enforces :: "fence_mode \<Rightarrow> bool" where
  "enforces m \<longleftrightarrow> m = FenceActive"

definition stamps_operation_id :: "fence_mode \<Rightarrow> bool" where
  "stamps_operation_id m \<longleftrightarrow> m \<noteq> FenceOff"

section \<open>Properties\<close>

definition known_date :: "fact \<Rightarrow> (nat \<times> nat \<times> nat) option" where
  "known_date f = parse_fact_date (str_or (fact_when_date f) (fact_session_date f))"

text \<open>What an admitted replacement guarantees about its two endpoints.\<close>

definition admissible :: "fact \<Rightarrow> fact \<Rightarrow> audience \<Rightarrow> audience \<Rightarrow> bool" where
  "admissible new old na oa \<longleftrightarrow>
     fact_id new \<noteq> fact_id old \<and> fact_conversation_id new = fact_conversation_id old
     \<and> fact_superseded_by new = [] \<and> fact_superseded_by old = []
     \<and> lower (strip (fact_subject new)) = lower (strip (fact_subject old))
     \<and> is_attributed new = is_attributed old \<and> na = oa
     \<and> (is_attributed new \<longrightarrow> fact_author_actor_id new \<noteq> []
          \<and> fact_author_actor_id new = fact_author_actor_id old
          \<and> fact_author_source_role new = fact_author_source_role old \<and> \<not> audience_unproved na)
     \<and> (fact_status new = ''planned'' \<longrightarrow> fact_status old = ''planned'')
     \<and> (case (known_date new, known_date old) of (Some n, Some d) \<Rightarrow> d \<le> n | _ \<Rightarrow> True)"

lemma scope_reason_None:
  "scope_reason new old na oa = None \<Longrightarrow>
     is_attributed new = is_attributed old \<and> na = oa
     \<and> (is_attributed new \<longrightarrow> fact_author_actor_id new \<noteq> []
          \<and> fact_author_actor_id new = fact_author_actor_id old
          \<and> fact_author_source_role new = fact_author_source_role old \<and> \<not> audience_unproved na)"
  by (cases na; cases oa) (auto simp: scope_reason_def split: if_splits)

lemma decide_accepted:
  "fst (decide_supersession new old na oa) \<Longrightarrow> admissible new old na oa"
  using scope_reason_None[of new old na oa]
  by (auto simp: decide_supersession_def admissible_def known_date_def Let_def
      split: if_splits option.splits)

text \<open>A supersession is admitted only within one proved scope: same conversation, subject, audience
  and (for attributed facts) the same author and source lane with a proved audience, both facts
  active, never a plan over an observed outcome and never older evidence over newer.\<close>
theorem supersession_stays_in_scope:
  assumes "decide_supersession new old na oa = (True, r)"
  shows "admissible new old na oa"
  using assms by (intro decide_accepted) simp

definition demo_fact :: "string \<Rightarrow> string \<Rightarrow> fact" where
  "demo_fact i d = \<lparr>fact_id = i, fact_subject = '' Ada '', fact_status = ''active'',
     fact_when_date = d, fact_conversation_id = ''conv'', fact_session_date = [],
     fact_superseded_by = [], fact_author_actor_id = ''actor'', fact_author_attribution_version = 2,
     fact_author_source_role = ''requester'', fact_author_source_message_id = ''m1'',
     fact_trust_state = ''verified''\<rparr>"

theorem supersession_stays_in_scope_witness:
  "admissible (demo_fact ''n'' ''2024-02-29'') (demo_fact ''o'' ''2024/2/9'')
     (Some (''aud'', ''chan'')) (Some (''aud'', ''chan''))"
proof (rule supersession_stays_in_scope)
  show "decide_supersession (demo_fact ''n'' ''2024-02-29'') (demo_fact ''o'' ''2024/2/9'')
     (Some (''aud'', ''chan'')) (Some (''aud'', ''chan'')) = (True, ProvedSourceScope False)"
    by code_simp
qed

text \<open>Two facts can be admitted to supersede each other only when neither is provably newer and their
  plan status agrees, so proved chronology can never be overwritten in a cycle.\<close>
theorem mutual_supersession_needs_equal_dates:
  assumes "decide_supersession a b x y = (True, r)" "decide_supersession b a y x = (True, s)"
  shows "(fact_status a = ''planned'') = (fact_status b = ''planned'')
    \<and> (known_date a = None \<or> known_date b = None \<or> known_date a = known_date b)"
  using decide_accepted[of a b x y] decide_accepted[of b a y x] assms
  by (auto simp: admissible_def split: option.splits)

theorem mutual_supersession_needs_equal_dates_witness:
  "(fact_status (demo_fact ''n'' ''2024-02-09'') = ''planned'')
      = (fact_status (demo_fact ''o'' ''2024/2/9'') = ''planned'')
    \<and> (known_date (demo_fact ''n'' ''2024-02-09'') = None \<or> known_date (demo_fact ''o'' ''2024/2/9'') = None
       \<or> known_date (demo_fact ''n'' ''2024-02-09'') = known_date (demo_fact ''o'' ''2024/2/9''))"
proof (rule mutual_supersession_needs_equal_dates)
  show "decide_supersession (demo_fact ''n'' ''2024-02-09'') (demo_fact ''o'' ''2024/2/9'')
     (Some (''aud'', ''chan'')) (Some (''aud'', ''chan'')) = (True, ProvedSourceScope False)"
    by code_simp
  show "decide_supersession (demo_fact ''o'' ''2024/2/9'') (demo_fact ''n'' ''2024-02-09'')
     (Some (''aud'', ''chan'')) (Some (''aud'', ''chan'')) = (True, ProvedSourceScope False)"
    by code_simp
qed

end
