(* ===== verification/Paging.thy ===== *)
theory Paging
  imports Prelude
begin

text \<open>
  The working set of expanded topics (core/paging\_manager.py) and the compaction thresholds
  (core/monitor.py).  The memory renderer the engine injects is the parameter \<open>render\<close>: the
  measured cost of a topic at a depth, or nothing when no content is admitted.  Rendered
  texts follow the working set one to one and are left out.
\<close>

section \<open>The working set\<close>

datatype depth_level = DepthNone | DepthSummary | DepthSegments | DepthFull

record working_set_entry =
  ws_depth :: depth_level
  ws_tokens :: int
  ws_last_accessed_turn :: int

text \<open>An insertion-ordered dict from tag to entry.\<close>

type_synonym working_set = "(string \<times> working_set_entry) list"
type_synonym renderer = "string \<Rightarrow> depth_level \<Rightarrow> int option"

record paging_config =
  pg_budget :: int
  pg_auto_evict :: bool
  pg_enabled :: bool

definition parse_depth :: "string \<Rightarrow> depth_level option" where
  "parse_depth s =
     (if s = ''none'' then Some DepthNone else if s = ''summary'' then Some DepthSummary
      else if s = ''segments'' then Some DepthSegments else if s = ''full'' then Some DepthFull
      else None)"

text \<open>\<open>render_memory\<close>; without a renderer pass \<open>\<lambda>_ _. None\<close>.\<close>

definition render_memory :: "renderer \<Rightarrow> string \<Rightarrow> depth_level \<Rightarrow> int option" where
  "render_memory render tag d = (if d = DepthNone then None else render tag d)"

definition ws_used :: "working_set \<Rightarrow> int" where
  "ws_used ws = sum_list (map (\<lambda>(t, e). ws_tokens e) ws)"

text \<open>\<open>d[tag] = entry\<close> on an insertion-ordered dict, and \<open>del d[tag]\<close>.\<close>

fun ws_set :: "string \<Rightarrow> working_set_entry \<Rightarrow> working_set \<Rightarrow> working_set" where
  "ws_set tag e [] = [(tag, e)]"
| "ws_set tag e ((t, x) # ws) = (if t = tag then (tag, e) # ws else (t, x) # ws_set tag e ws)"

definition ws_del :: "string \<Rightarrow> working_set \<Rightarrow> working_set" where
  "ws_del tag ws = filter (\<lambda>(t, e). t \<noteq> tag) ws"

subsection \<open>Eviction\<close>

text \<open>
  \<open>_auto_evict\<close>: coldest first; a topic collapses to its summary when that frees tokens and
  is dropped otherwise.
\<close>

fun evict_loop :: "renderer \<Rightarrow> int \<Rightarrow> working_set \<Rightarrow> int \<Rightarrow> working_set \<Rightarrow> string list \<times> int \<times> working_set" where
  "evict_loop render needed [] freed ws = ([], freed, ws)"
| "evict_loop render needed ((tag, e) # cands) freed ws =
     (if freed \<ge> needed then ([], freed, ws)
      else
        (let summary = render_memory render tag DepthSummary;
             delta = ws_tokens e - (case summary of None \<Rightarrow> 0 | Some c \<Rightarrow> c);
             (freed', ws') = (if delta \<le> 0 \<or> summary = None then (freed + ws_tokens e, ws_del tag ws)
                              else (freed + delta,
                                    ws_set tag (e\<lparr>ws_depth := DepthSummary, ws_tokens := the summary\<rparr>) ws));
             (evicted, freed_total, final) = evict_loop render needed cands freed' ws'
         in (tag # evicted, freed_total, final)))"

definition auto_evict :: "renderer \<Rightarrow> int \<Rightarrow> string \<Rightarrow> working_set \<Rightarrow> string list \<times> int \<times> working_set" where
  "auto_evict render needed exclude ws =
     evict_loop render needed
       (sort_key (\<lambda>(t, e). ws_last_accessed_turn e) (filter (\<lambda>(t, e). t \<noteq> exclude) ws)) 0 ws"

subsection \<open>Expand and collapse\<close>

datatype paging_result =
    PagingNotEnabled
  | InvalidDepth
  | NoContent string
  | InsufficientBudget string int int           \<comment> \<open>tag, needed, available\<close>
  | Expanded string depth_level int int "string list"   \<comment> \<open>tokens added, tokens evicted, evicted tags\<close>
  | Collapsed string depth_level int            \<comment> \<open>tokens freed\<close>

text \<open>Every page is rendered again; pages without admitted content drop out of the plan.\<close>

definition revalidate :: "renderer \<Rightarrow> working_set \<Rightarrow> working_set" where
  "revalidate render ws =
     concat (map (\<lambda>(t, e). case render_memory render t (ws_depth e) of
                             None \<Rightarrow> []
                           | Some c \<Rightarrow> [(t, e\<lparr>ws_tokens := c\<rparr>)]) ws)"

definition last_turn :: "working_set \<Rightarrow> int" where
  "last_turn ws =
     (case map (\<lambda>(t, e). ws_last_accessed_turn e) ws of [] \<Rightarrow> 0 | t # ts \<Rightarrow> fold max ts t)"

definition tokens_of :: "string \<Rightarrow> working_set \<Rightarrow> int" where
  "tokens_of tag ws = (case map_of ws tag of None \<Rightarrow> 0 | Some e \<Rightarrow> ws_tokens e)"

definition expand_to ::
  "paging_config \<Rightarrow> renderer \<Rightarrow> string \<Rightarrow> depth_level \<Rightarrow> working_set \<Rightarrow> paging_result \<times> working_set" where
  "expand_to cfg render tag d ws =
     (let tokens_at_depth = (case render_memory render tag d of None \<Rightarrow> 0 | Some c \<Rightarrow> c)
      in if tokens_at_depth = 0 then (NoContent tag, ws)
         else
           (let planned = revalidate render ws;
                current_total = ws_used planned;
                current_tag = tokens_of tag planned;
                delta = tokens_at_depth - current_tag;
                budget = pg_budget cfg;
                (evicted, freed, planned') =
                  (if pg_auto_evict cfg \<and> current_total + delta > budget
                   then auto_evict render (current_total + delta - budget) tag planned
                   else ([], 0, planned))
            in if current_total + delta - freed > budget
               then (InsufficientBudget tag tokens_at_depth (max 0 (budget - (current_total - current_tag))), ws)
               else (Expanded tag d delta freed evicted,
                     ws_set tag \<lparr>ws_depth = d, ws_tokens = tokens_at_depth,
                                 ws_last_accessed_turn = last_turn planned' + 1\<rparr> planned')))"

definition collapse_none :: "string \<Rightarrow> working_set \<Rightarrow> paging_result \<times> working_set" where
  "collapse_none tag ws =
     (case map_of ws tag of
        None \<Rightarrow> (Collapsed tag DepthNone 0, ws)
      | Some e \<Rightarrow> (Collapsed tag DepthNone (ws_tokens e), ws_del tag ws))"

definition expand_topic ::
  "paging_config \<Rightarrow> renderer \<Rightarrow> string \<Rightarrow> string \<Rightarrow> working_set \<Rightarrow> paging_result \<times> working_set" where
  "expand_topic cfg render tag depth ws =
     (if \<not> pg_enabled cfg then (PagingNotEnabled, ws)
      else case parse_depth depth of
             None \<Rightarrow> (InvalidDepth, ws)
           | Some d \<Rightarrow> if d = DepthNone then collapse_none tag ws else expand_to cfg render tag d ws)"

definition collapse_topic ::
  "paging_config \<Rightarrow> renderer \<Rightarrow> string \<Rightarrow> string \<Rightarrow> working_set \<Rightarrow> paging_result \<times> working_set" where
  "collapse_topic cfg render tag depth ws =
     (if \<not> pg_enabled cfg then (PagingNotEnabled, ws)
      else case parse_depth depth of
             None \<Rightarrow> (InvalidDepth, ws)
           | Some d \<Rightarrow>
               (case map_of ws tag of
                  None \<Rightarrow> (Collapsed tag d 0, ws)
                | Some e \<Rightarrow>
                    if d = DepthNone then collapse_none tag ws
                    else (case render_memory render tag d of
                            None \<Rightarrow> (NoContent tag, ws)
                          | Some c \<Rightarrow>
                              if c > ws_tokens e then expand_to cfg render tag d ws
                              else (Collapsed tag d (max 0 (ws_tokens e - c)),
                                    ws_set tag (e\<lparr>ws_depth := d, ws_tokens := c\<rparr>) ws))))"

definition get_working_set_summary ::
  "paging_config \<Rightarrow> working_set \<Rightarrow> int \<times> int \<times> int \<times> working_set" where
  "get_working_set_summary cfg ws =
     (pg_budget cfg, ws_used ws, pg_budget cfg - ws_used ws,
      rev (sort_key (\<lambda>(t, e). ws_last_accessed_turn e) (rev ws)))"

section \<open>Budget\<close>

lemma ws_used_Cons [simp]: "ws_used ((t, e) # ws) = ws_tokens e + ws_used ws"
  by (simp add: ws_used_def)

lemma ws_used_Nil [simp]: "ws_used [] = 0"
  by (simp add: ws_used_def)

lemma ws_set_keys: "fst ` set (ws_set t e ws) = insert t (fst ` set ws)"
  by (induction t e ws rule: ws_set.induct) auto

lemma ws_set_distinct: "distinct (map fst ws) \<Longrightarrow> distinct (map fst (ws_set t e ws))"
  by (induction t e ws rule: ws_set.induct) (auto simp: ws_set_keys)

lemma ws_set_used: "ws_used (ws_set t e ws) = ws_used ws + ws_tokens e - tokens_of t ws"
  by (induction t e ws rule: ws_set.induct) (auto simp: tokens_of_def)

lemma ws_del_used: "distinct (map fst ws) \<Longrightarrow> ws_used (ws_del t ws) = ws_used ws - tokens_of t ws"
proof (induction ws)
  case (Cons p ws)
  have "t \<notin> fst ` set ws \<Longrightarrow> filter (\<lambda>(s, e). s \<noteq> t) ws = ws" by (force simp: filter_id_conv)
  then show ?case
    using Cons by (cases p) (auto simp: ws_del_def tokens_of_def dest: map_of_eq_None_iff[THEN iffD2])
qed (simp add: ws_del_def tokens_of_def)

lemma ws_del_distinct: "distinct (map fst ws) \<Longrightarrow> distinct (map fst (ws_del t ws))"
  by (induction ws) (auto simp: ws_del_def)

lemma ws_del_map_of: "map_of (ws_del t ws) s = (if s = t then None else map_of ws s)"
  by (induction ws) (auto simp: ws_del_def)

lemma ws_set_map_of: "map_of (ws_set t e ws) s = (if s = t then Some e else map_of ws s)"
  by (induction t e ws rule: ws_set.induct) auto

text \<open>The tokens the loop reports are exactly the tokens the working set loses.\<close>

lemma evict_loop_used:
  assumes "evict_loop render needed cands freed ws = (ev, freed_total, ws')"
    and "distinct (map fst ws)" "distinct (map fst cands)"
    and "\<And>t e. (t, e) \<in> set cands \<Longrightarrow> map_of ws t = Some e"
  shows "ws_used ws' + freed_total = ws_used ws + freed \<and> distinct (map fst ws')
    \<and> (\<forall>s. s \<notin> fst ` set cands \<longrightarrow> map_of ws' s = map_of ws s)"
  using assms
proof (induction render needed cands freed ws arbitrary: ev freed_total ws' rule: evict_loop.induct)
  case (2 render needed tag e cands freed ws)
  show ?case
  proof (cases "freed \<ge> needed")
    case True
    with 2 show ?thesis by auto
  next
    case False
    let ?s = "render_memory render tag DepthSummary"
    let ?d = "ws_tokens e - (case ?s of None \<Rightarrow> 0 | Some c \<Rightarrow> c)"
    define st where "st = (if ?d \<le> 0 \<or> ?s = None then (freed + ws_tokens e, ws_del tag ws)
      else (freed + ?d, ws_set tag (e\<lparr>ws_depth := DepthSummary, ws_tokens := the ?s\<rparr>) ws))"
    obtain f1 ws1 where st: "st = (f1, ws1)" by (cases st)
    have tok: "tokens_of tag ws = ws_tokens e" using 2(5)[of tag e] by (simp add: tokens_of_def)
    have one: "ws_used ws1 + f1 = ws_used ws + freed" "distinct (map fst ws1)"
      "\<And>s. s \<noteq> tag \<Longrightarrow> map_of ws1 s = map_of ws s"
      using st tok 2(3) unfolding st_def
      by (auto simp: ws_del_used ws_set_used ws_del_distinct ws_set_distinct ws_del_map_of ws_set_map_of
          split: if_splits option.splits)
    obtain ev1 where rest: "evict_loop render needed cands f1 ws1 = (ev1, freed_total, ws')"
      using 2(2) False st unfolding st_def by (auto simp: Let_def split: prod.splits if_splits)
    have c: "\<And>t x. (t, x) \<in> set cands \<Longrightarrow> map_of ws1 t = Some x"
    proof -
      fix t x assume "(t, x) \<in> set cands"
      moreover from this have "t \<noteq> tag" using 2(4) by force
      ultimately show "map_of ws1 t = Some x" using one(3) 2(5) by auto
    qed
    have "ws_used ws' + freed_total = ws_used ws1 + f1 \<and> distinct (map fst ws')
      \<and> (\<forall>s. s \<notin> fst ` set cands \<longrightarrow> map_of ws' s = map_of ws1 s)"
      using 2(1)[OF False refl refl st[unfolded st_def, symmetric] refl rest one(2) _ c] 2(4) by simp
    with one show ?thesis by auto
  qed
qed auto

section \<open>Properties\<close>

lemma revalidate_distinct: "distinct (map fst ws) \<Longrightarrow> distinct (map fst (revalidate render ws))"
proof -
  have sub: "fst ` set (revalidate render ws) \<subseteq> fst ` set ws" for ws
    by (force simp: revalidate_def split: option.splits)
  have cons: "revalidate render ((t, e) # ws) =
      (case render_memory render t (ws_depth e) of None \<Rightarrow> [] | Some c \<Rightarrow> [(t, e\<lparr>ws_tokens := c\<rparr>)])
        @ revalidate render ws" for t e ws
    by (simp add: revalidate_def)
  show "distinct (map fst ws) \<Longrightarrow> distinct (map fst (revalidate render ws))"
  proof (induction ws)
    case (Cons p ws)
    obtain t e where p: "p = (t, e)" by (cases p)
    have "t \<notin> fst ` set (revalidate render ws)" using sub[of ws] Cons.prems p by auto
    with Cons p show ?case by (simp add: cons split: option.split)
  qed (simp add: revalidate_def)
qed

lemma auto_evict_used:
  assumes "auto_evict render needed tag ws = (ev, freed, ws')" "distinct (map fst ws)"
  shows "ws_used ws' + freed = ws_used ws \<and> map_of ws' tag = map_of ws tag \<and> distinct (map fst ws')"
proof -
  let ?c = "sort_key (\<lambda>(t, e). ws_last_accessed_turn e) (filter (\<lambda>(t, e). t \<noteq> tag) ws)"
  have d: "distinct (map fst ?c)" using assms(2) by (simp add: distinct_map_filter)
  have m: "map_of ws t = Some e" if "(t, e) \<in> set ?c" for t e
    using that assms(2) by simp
  have t: "tag \<notin> fst ` set ?c" by auto
  from evict_loop_used[OF assms(1)[unfolded auto_evict_def] assms(2) d m] t show ?thesis by auto
qed

text \<open>What an expansion may do: succeed within the budget with exact accounting, or leave the working
  set alone.\<close>

definition expansion_ok :: "paging_config \<Rightarrow> renderer \<Rightarrow> working_set \<Rightarrow> paging_result \<times> working_set \<Rightarrow> bool" where
  "expansion_ok cfg render ws r \<longleftrightarrow>
     (case r of
        (Expanded tag d added freed evicted, ws') \<Rightarrow>
          ws_used ws' \<le> pg_budget cfg
          \<and> ws_used ws' = ws_used (revalidate render ws) + added - freed
          \<and> distinct (map fst ws')
          \<and> map_option ws_depth (map_of ws' tag) = Some d
          \<and> Some (tokens_of tag ws') = render_memory render tag d
      | (_, ws') \<Rightarrow> ws' = ws)"


definition demo_ws :: working_set where
  "demo_ws = [(''a'', \<lparr>ws_depth = DepthFull, ws_tokens = 60, ws_last_accessed_turn = 1\<rparr>),
     (''b'', \<lparr>ws_depth = DepthFull, ws_tokens = 30, ws_last_accessed_turn = 2\<rparr>)]"

definition demo_render :: renderer where
  "demo_render tag d = Some (if d = DepthSummary then 10 else if tag = ''a'' then 60 else 30)"


end
