(* ===== verification/Monitor.thy ===== *)
theory Monitor
  imports Prelude
begin

text \<open>
  The two compaction thresholds of core/monitor.py.  Thresholds are exact rationals; the token
  counter is the parameter \<open>count_tokens\<close>, and the last snapshot is explicit state.
\<close>

section \<open>Snapshots and signals\<close>

record monitor_config =
  mc_context_window :: int
  mc_soft_threshold :: rat
  mc_hard_threshold :: rat

record context_snapshot =
  sn_system_tokens :: int
  sn_core_context_tokens :: int
  sn_retrieved_domain_tokens :: int
  sn_conversation_tokens :: int
  sn_total_tokens :: int
  sn_budget_tokens :: int
  sn_turn_count :: nat

datatype priority = Soft | Hard

record compaction_signal =
  sig_priority :: priority
  sig_current_tokens :: int
  sig_budget_tokens :: int
  sig_overflow_tokens :: int

text \<open>\<open>int(x)\<close> truncates towards zero.\<close>

definition py_int :: "rat \<Rightarrow> int" where
  "py_int x = (if x \<ge> 0 then \<lfloor>x\<rfloor> else \<lceil>x\<rceil>)"

definition mk_signal :: "priority \<Rightarrow> context_snapshot \<Rightarrow> int \<Rightarrow> compaction_signal" where
  "mk_signal p sn overflow = \<lparr>sig_priority = p, sig_current_tokens = sn_total_tokens sn,
     sig_budget_tokens = sn_budget_tokens sn, sig_overflow_tokens = overflow\<rparr>"

text \<open>The result and the remembered snapshot.\<close>

definition check :: "monitor_config \<Rightarrow> context_snapshot \<Rightarrow> compaction_signal option \<times> context_snapshot option" where
  "check cfg sn =
     (let budget = sn_budget_tokens sn;
          ratio = of_int (sn_total_tokens sn) / of_int budget;
          soft_tokens = py_int (of_int budget * mc_soft_threshold cfg);
          overflow = sn_total_tokens sn - soft_tokens
      in (if budget \<le> 0 then None
          else if ratio \<ge> mc_hard_threshold cfg then Some (mk_signal Hard sn overflow)
          else if ratio \<ge> mc_soft_threshold cfg then Some (mk_signal Soft sn overflow)
          else None, Some sn))"

definition force_compact :: "monitor_config \<Rightarrow> context_snapshot option \<Rightarrow> compaction_signal" where
  "force_compact cfg last_snapshot =
     (case last_snapshot of
        Some sn \<Rightarrow>
          mk_signal Hard sn
            (max (sn_total_tokens sn - py_int (of_int (sn_budget_tokens sn) * mc_soft_threshold cfg)) 1000)
      | None \<Rightarrow> \<lparr>sig_priority = Hard, sig_current_tokens = 0, sig_budget_tokens = 0,
                 sig_overflow_tokens = max 10000 1000\<rparr>)"

fun join_space :: "string list \<Rightarrow> string" where
  "join_space [] = []"
| "join_space [s] = s"
| "join_space (s # t # ss) = s @ CHR '' '' # join_space (t # ss)"

definition build_snapshot ::
  "(string \<Rightarrow> int) \<Rightarrow> monitor_config \<Rightarrow> string list \<Rightarrow> int \<Rightarrow> int \<Rightarrow> int \<Rightarrow> int option \<Rightarrow> context_snapshot" where
  "build_snapshot count_tokens cfg history core_tokens domain_tokens system_tokens payload_tokens =
     (let conv = (case payload_tokens of Some p \<Rightarrow> p | None \<Rightarrow> count_tokens (join_space history))
      in \<lparr>sn_system_tokens = system_tokens, sn_core_context_tokens = core_tokens,
          sn_retrieved_domain_tokens = domain_tokens, sn_conversation_tokens = conv,
          sn_total_tokens = system_tokens + core_tokens + domain_tokens + conv,
          sn_budget_tokens = mc_context_window cfg, sn_turn_count = length history div 2\<rparr>)"

section \<open>Properties\<close>

definition level :: "compaction_signal option \<Rightarrow> nat" where
  "level s = (case s of None \<Rightarrow> 0 | Some c \<Rightarrow> (case sig_priority c of Soft \<Rightarrow> 1 | Hard \<Rightarrow> 2))"

lemma py_int_le: "0 \<le> x \<Longrightarrow> of_int (py_int x) \<le> x"
  by (simp add: py_int_def)

text \<open>With ordered, non-negative thresholds a larger payload never gets a weaker signal, a signal
  never reports a negative overflow, and forced compaction always asks for at least 1000 tokens.\<close>
theorem check_is_monotone:
  assumes "0 \<le> mc_soft_threshold cfg" "mc_soft_threshold cfg \<le> mc_hard_threshold cfg"
    and "sn_total_tokens sn \<le> sn_total_tokens sn'" "sn_budget_tokens sn' = sn_budget_tokens sn"
  shows "level (fst (check cfg sn)) \<le> level (fst (check cfg sn'))
    \<and> (case fst (check cfg sn) of None \<Rightarrow> True | Some s \<Rightarrow> 0 \<le> sig_overflow_tokens s)
    \<and> 1000 \<le> sig_overflow_tokens (force_compact cfg (snd (check cfg sn)))"
proof (cases "sn_budget_tokens sn \<le> 0")
  case True
  then show ?thesis using assms by (simp add: check_def Let_def level_def force_compact_def mk_signal_def)
next
  case False
  let ?b = "of_int (sn_budget_tokens sn) :: rat"
  have b: "0 < ?b" using False by simp
  have mono: "of_int (sn_total_tokens sn) / ?b \<le> of_int (sn_total_tokens sn') / ?b"
    using assms(3) b by (simp add: divide_right_mono)
  have over: "0 \<le> sn_total_tokens sn - py_int (?b * mc_soft_threshold cfg)"
    if "mc_soft_threshold cfg \<le> of_int (sn_total_tokens sn) / ?b"
  proof -
    have "?b * mc_soft_threshold cfg \<le> of_int (sn_total_tokens sn)"
      using that b by (simp add: field_simps)
    moreover have "of_int (py_int (?b * mc_soft_threshold cfg)) \<le> ?b * mc_soft_threshold cfg"
      using b assms(1) by (intro py_int_le) simp
    ultimately have "(of_int (py_int (?b * mc_soft_threshold cfg)) :: rat) \<le> of_int (sn_total_tokens sn)"
      by (rule order_trans[rotated])
    then show ?thesis by simp
  qed
  show ?thesis
    using False mono over assms(2,4)
    by (auto simp: check_def Let_def level_def force_compact_def mk_signal_def)
qed

definition demo_config :: monitor_config where
  "demo_config = \<lparr>mc_context_window = 120000, mc_soft_threshold = 7 / 10, mc_hard_threshold = 17 / 20\<rparr>"

theorem check_is_monotone_witness:
  "level (fst (check demo_config (build_snapshot (\<lambda>s. 0) demo_config [] 0 0 0 (Some 90000))))
      \<le> level (fst (check demo_config (build_snapshot (\<lambda>s. 0) demo_config [] 0 0 0 (Some 110000))))
    \<and> (case fst (check demo_config (build_snapshot (\<lambda>s. 0) demo_config [] 0 0 0 (Some 90000))) of
         None \<Rightarrow> True | Some s \<Rightarrow> 0 \<le> sig_overflow_tokens s)
    \<and> 1000 \<le> sig_overflow_tokens (force_compact demo_config
         (snd (check demo_config (build_snapshot (\<lambda>s. 0) demo_config [] 0 0 0 (Some 90000)))))"
  by (rule check_is_monotone) (simp_all add: demo_config_def build_snapshot_def Let_def)

end
