(* ===== verification/Aliases.thy ===== *)
theory Aliases
  imports Prelude "HOL-Library.AList"
begin

text \<open>
  Conversation aliases (core/alias\_resolution.py) and tag aliases
  (core/tag\_canonicalizer.py).  The store lookups the source calls are parameters:
  \<open>resolve\<close> for one hop of a conversation alias, \<open>incoming\<close> for the sources of a target.
\<close>

section \<open>Walking a conversation alias chain\<close>

datatype walk_result = Resolved string | Cycle "string list" | MaxHops "string list"

text \<open>One iteration per remaining hop; \<open>chain\<close> is the list of visited ids, in order.\<close>

fun walk_loop :: "(string \<Rightarrow> string option) \<Rightarrow> nat \<Rightarrow> string list \<Rightarrow> string \<Rightarrow> walk_result" where
  "walk_loop resolve 0 chain current = MaxHops chain"
| "walk_loop resolve (Suc n) chain current =
     (case resolve current of
        None \<Rightarrow> Resolved current
      | Some nxt \<Rightarrow>
          if nxt = [] then Resolved current
          else if nxt \<in> set chain then Cycle (chain @ [nxt])
          else walk_loop resolve n (chain @ [nxt]) nxt)"

definition walk_conversation_alias_chain ::
  "(string \<Rightarrow> string option) \<Rightarrow> nat \<Rightarrow> string \<Rightarrow> walk_result" where
  "walk_conversation_alias_chain resolve max_hops cid =
     (if cid = [] then Resolved cid else walk_loop resolve max_hops [cid] cid)"

definition terminal :: "(string \<Rightarrow> string option) \<Rightarrow> string \<Rightarrow> bool" where
  "terminal resolve c \<longleftrightarrow> (case resolve c of None \<Rightarrow> True | Some n \<Rightarrow> n = [])"

text \<open>Following \<open>k\<close> edges.\<close>

fun hops :: "(string \<Rightarrow> string option) \<Rightarrow> nat \<Rightarrow> string \<Rightarrow> string" where
  "hops resolve 0 c = c"
| "hops resolve (Suc k) c =
     (if terminal resolve c then c else hops resolve k (the (resolve c)))"

subsection \<open>Reverse dependents\<close>

definition max_reverse_dependent_fan_out :: nat where
  "max_reverse_dependent_fan_out = 256"

text \<open>The sources of one node that are new, capped per node.\<close>

fun take_new :: "nat \<Rightarrow> string list \<Rightarrow> string list \<Rightarrow> string list" where
  "take_new room seen [] = []"
| "take_new room seen (s # ss) =
     (if s \<in> set seen then take_new room seen ss
      else if room = 0 then []
      else s # take_new (room - 1) (s # seen) ss)"

fun bfs_level :: "(string \<Rightarrow> string list) \<Rightarrow> string list \<Rightarrow> string list \<Rightarrow> string list" where
  "bfs_level incoming seen [] = []"
| "bfs_level incoming seen (node # nodes) =
     (let new = take_new max_reverse_dependent_fan_out seen (sort (incoming node))
      in new @ bfs_level incoming (rev new @ seen) nodes)"

fun bfs :: "(string \<Rightarrow> string list) \<Rightarrow> nat \<Rightarrow> string list \<Rightarrow> string list \<Rightarrow> string list" where
  "bfs incoming 0 seen frontier = []"
| "bfs incoming (Suc n) seen frontier =
     (if frontier = [] then []
      else let nxt = bfs_level incoming seen frontier in nxt @ bfs incoming n (rev nxt @ seen) nxt)"

definition compute_reverse_dependents :: "(string \<Rightarrow> string list) \<Rightarrow> nat \<Rightarrow> string \<Rightarrow> string list" where
  "compute_reverse_dependents incoming max_hops target = bfs incoming max_hops [target] [target]"

section \<open>Tag aliases\<close>

subsection \<open>Flattening alias chains\<close>

type_synonym alias_map = "(string \<times> string) list"

definition raw_aliases :: "alias_map \<Rightarrow> alias_map" where
  "raw_aliases aliases = filter (\<lambda>(a, c). a \<noteq> [] \<and> c \<noteq> [] \<and> a \<noteq> c) aliases"

text \<open>The \<open>while\<close> loop; every round adds a key of \<open>raw\<close> to \<open>seen\<close>.\<close>

function chase :: "alias_map \<Rightarrow> string list \<Rightarrow> string \<Rightarrow> string" where
  "chase raw seen target =
     (if target \<in> fst ` set raw \<and> target \<notin> set seen
      then chase raw (target # seen) (the (map_of raw target)) else target)"
  by pat_completeness auto
termination
proof (relation "measure (\<lambda>(raw, seen, target). card (fst ` set raw - set seen))")
  fix raw :: alias_map and seen :: "string list" and target
  assume "target \<in> fst ` set raw \<and> target \<notin> set seen"
  then have "fst ` set raw - set (target # seen) \<subset> fst ` set raw - set seen" by auto
  then have "card (fst ` set raw - set (target # seen)) < card (fst ` set raw - set seen)"
    by (simp add: psubset_card_mono)
  then show "((raw, target # seen, the (map_of raw target)), raw, seen, target)
      \<in> measure (\<lambda>(raw, seen, target). card (fst ` set raw - set seen))" by simp
qed simp

declare chase.simps [simp del]

definition flatten_alias_map :: "alias_map \<Rightarrow> alias_map" where
  "flatten_alias_map aliases =
     (let raw = raw_aliases aliases
      in concat (map (\<lambda>(a, c). let t = chase raw [a] c in if t \<noteq> a then [(a, t)] else []) raw))"

subsection \<open>Canonical forms\<close>

text \<open>
  \<open>cz_stored\<close> is the store's alias table for the conversation, which other workers may write;
  the age of the cache is kept on the monotonic clock, \<open>0\<close> for never loaded.
\<close>

record canonicalizer =
  cz_alias_cache :: alias_map
  cz_known_tags :: "string set"
  cz_loaded_at :: rat
  cz_stored :: alias_map

definition load_aliases :: "rat \<Rightarrow> canonicalizer \<Rightarrow> canonicalizer" where
  "load_aliases now cz =
     (let flat = flatten_alias_map (cz_stored cz)
      in cz\<lparr>cz_alias_cache := flat, cz_known_tags := cz_known_tags cz \<union> set (map snd flat),
            cz_loaded_at := now\<rparr>)"

definition maybe_refresh :: "rat \<Rightarrow> canonicalizer \<Rightarrow> canonicalizer" where
  "maybe_refresh now cz =
     (if cz_loaded_at cz = 0 \<or> now - cz_loaded_at cz < 300 then cz else load_aliases now cz)"

definition hyphenate :: "string \<Rightarrow> string" where
  "hyphenate s = map (\<lambda>c. if c = CHR '' '' \<or> c = CHR ''_'' then CHR ''-'' else c) s"

text \<open>\<open>re.sub(r"-+", "-", tag)\<close> and \<open>strip("-")\<close>.\<close>

fun squeeze_hyphens :: "string \<Rightarrow> string" where
  "squeeze_hyphens (a # b # s) =
     (if a = CHR ''-'' \<and> b = CHR ''-'' then squeeze_hyphens (b # s) else a # squeeze_hyphens (b # s))"
| "squeeze_hyphens s = s"

definition strip_hyphens :: "string \<Rightarrow> string" where
  "strip_hyphens s =
     rev (dropWhile (\<lambda>c. c = CHR ''-'') (rev (dropWhile (\<lambda>c. c = CHR ''-'') s)))"

definition normalize_tag :: "string \<Rightarrow> string" where
  "normalize_tag tag = strip_hyphens (squeeze_hyphens (hyphenate (strip (lower tag))))"

definition canonicalize :: "rat \<Rightarrow> string \<Rightarrow> canonicalizer \<Rightarrow> string \<times> canonicalizer" where
  "canonicalize now tag cz0 =
     (let cz = maybe_refresh now cz0; t = normalize_tag tag
      in case map_of (cz_alias_cache cz) t of
           Some c \<Rightarrow> (c, cz)
         | None \<Rightarrow>
             if t \<noteq> [] \<and> last t = CHR ''s'' \<and> length t > 2 then
               (if butlast t \<in> cz_known_tags cz then (butlast t, cz)
                else (t, cz\<lparr>cz_known_tags := insert t (cz_known_tags cz)\<rparr>))
             else if t @ ''s'' \<in> cz_known_tags cz then (t @ ''s'', cz)
             else (t, cz\<lparr>cz_known_tags := insert t (cz_known_tags cz)\<rparr>))"

text \<open>One clock reading \<open>now\<close> stands for the readings of one call.\<close>

fun canonicalize_loop ::
  "rat \<Rightarrow> string list \<Rightarrow> string list \<Rightarrow> canonicalizer \<Rightarrow> string list \<times> canonicalizer" where
  "canonicalize_loop now seen [] cz = ([], cz)"
| "canonicalize_loop now seen (t # ts) cz =
     (let (c, cz1) = canonicalize now t cz
      in if c \<in> set seen then canonicalize_loop now seen ts cz1
         else (let (rest, cz2) = canonicalize_loop now (c # seen) ts cz1 in (c # rest, cz2)))"

definition canonicalize_list :: "rat \<Rightarrow> string list \<Rightarrow> canonicalizer \<Rightarrow> string list \<times> canonicalizer" where
  "canonicalize_list now tags cz = canonicalize_loop now [] tags cz"

definition register_alias :: "string \<Rightarrow> string \<Rightarrow> canonicalizer \<Rightarrow> canonicalizer" where
  "register_alias alias canonical cz =
     (let normalized = hyphenate (strip (lower alias))
      in cz\<lparr>cz_alias_cache := AList.update normalized canonical (cz_alias_cache cz),
            cz_stored := AList.update normalized canonical (cz_stored cz)\<rparr>)"

subsection \<open>Edit distance\<close>

text \<open>One row of the table: \<open>prev\<close> and the last cell of \<open>curr\<close> are consumed left to right.\<close>

fun edit_row :: "char \<Rightarrow> string \<Rightarrow> nat list \<Rightarrow> nat \<Rightarrow> nat list" where
  "edit_row ca [] prev left = []"
| "edit_row ca (cb # b) (diag # up # prev) left =
     (let cell = min (min (up + 1) (left + 1)) (diag + (if ca \<noteq> cb then 1 else 0))
      in cell # edit_row ca b (up # prev) cell)"
| "edit_row ca (cb # b) prev left = []"

fun edit_rows :: "string \<Rightarrow> string \<Rightarrow> nat \<Rightarrow> nat list \<Rightarrow> nat list" where
  "edit_rows [] b i prev = prev"
| "edit_rows (ca # a) b i prev = edit_rows a b (i + 1) ((i + 1) # edit_row ca b prev (i + 1))"

definition edit_distance :: "string \<Rightarrow> string \<Rightarrow> nat" where
  "edit_distance a b =
     (let (a, b) = (if length a < length b then (b, a) else (a, b))
      in if b = [] then length a else last (edit_rows a b 0 [0..<Suc (length b)]))"

definition auto_detect_aliases :: "rat \<Rightarrow> (string \<times> nat) list \<Rightarrow> (string \<times> string) list" where
  "auto_detect_aliases threshold tags =
     [(if the (map_of tags t1) \<ge> the (map_of tags t2) then (t2, t1) else (t1, t2)).
        (i, t1, _) \<leftarrow> enumerate 0 tags, (t2, _) \<leftarrow> drop (Suc i) tags,
        max (length t1) (length t2) \<noteq> 0
        \<and> 1 - of_nat (edit_distance t1 t2) / of_nat (max (length t1) (length t2)) \<ge> threshold
        \<and> t1 \<noteq> t2]"

section \<open>The walk\<close>

lemma hops_Suc_last:
  "hops resolve (Suc k) c =
     (let d = hops resolve k c in if terminal resolve d then d else the (resolve d))"
proof (induction k arbitrary: c)
  case (Suc k)
  show ?case
    using Suc[of "the (resolve c)"] by (cases "terminal resolve c") (simp_all add: Let_def)
qed (simp add: Let_def)

lemma hops_terminal: "terminal resolve c \<Longrightarrow> hops resolve k c = c"
  by (induction k) simp_all

lemma hops_add: "hops resolve (i + j) c = hops resolve i (hops resolve j c)"
  by (induction j arbitrary: c) (auto simp: hops_terminal)

lemma hops_cycle:
  assumes eq: "hops resolve (Suc m) c = hops resolve i c" and i: "i \<le> m"
    and nt: "\<And>k. k \<le> m \<Longrightarrow> \<not> terminal resolve (hops resolve k c)"
  shows "\<not> terminal resolve (hops resolve k c)"
proof (induction k rule: less_induct)
  case (less k)
  show ?case
  proof (cases "k \<le> m")
    case False
    then have "hops resolve k c = hops resolve (k - Suc m) (hops resolve (Suc m) c)"
      by (simp only: hops_add[symmetric]) simp
    also have "\<dots> = hops resolve (k - Suc m + i) c" using eq by (simp only: hops_add)
    finally show ?thesis using less[of "k - Suc m + i"] i False by simp
  qed (rule nt)
qed

definition path :: "(string \<Rightarrow> string option) \<Rightarrow> string \<Rightarrow> nat \<Rightarrow> string list" where
  "path resolve c n = map (\<lambda>k. hops resolve k c) [0..<n]"

lemma path_Suc: "path resolve c (Suc n) = path resolve c n @ [hops resolve n c]"
  by (simp add: path_def)

definition walk_ok :: "(string \<Rightarrow> string option) \<Rightarrow> nat \<Rightarrow> string \<Rightarrow> walk_result \<Rightarrow> bool" where
  "walk_ok resolve max_hops cid res =
     (case res of
        Resolved c \<Rightarrow> \<exists>k<max_hops. c = hops resolve k cid \<and> terminal resolve c
      | Cycle chain \<Rightarrow> \<exists>n\<le>max_hops. chain = path resolve cid (Suc n)
          \<and> distinct (path resolve cid n) \<and> hops resolve n cid \<in> set (path resolve cid n)
          \<and> (\<forall>k. \<not> terminal resolve (hops resolve k cid))
      | MaxHops chain \<Rightarrow> chain = path resolve cid (Suc max_hops) \<and> distinct chain)"

lemma walk_loop_ok:
  assumes "chain = path resolve cid (Suc j)" "current = hops resolve j cid" "distinct chain"
    "\<And>k. k < j \<Longrightarrow> \<not> terminal resolve (hops resolve k cid)"
  shows "walk_ok resolve (j + n) cid (walk_loop resolve n chain current)"
  using assms
proof (induction resolve n chain current arbitrary: j rule: walk_loop.induct)
  case (1 resolve chain current)
  then show ?case by (simp add: walk_ok_def)
next
  case (2 resolve n chain current)
  show ?case
  proof (cases "terminal resolve current")
    case True
    then show ?thesis using 2(3)
      by (auto simp: terminal_def walk_ok_def split: option.splits intro!: exI[of _ j])
  next
    case False
    then obtain nxt where nxt: "resolve current = Some nxt" "nxt \<noteq> []"
      by (auto simp: terminal_def split: option.splits)
    have h: "hops resolve (Suc j) cid = nxt"
      using False nxt 2(3) by (simp add: hops_Suc_last Let_def del: hops.simps)
    have nt: "\<not> terminal resolve (hops resolve k cid)" if "k \<le> j" for k
      using that 2(3,5) False by (cases "k = j") auto
    have p: "path resolve cid (Suc (Suc j)) = chain @ [nxt]"
      using h 2(2) by (simp only: path_Suc[of _ _ "Suc j"])
    show ?thesis
    proof (cases "nxt \<in> set chain")
      case True
      then obtain i where i: "i \<le> j" "hops resolve (Suc j) cid = hops resolve i cid"
        using h 2(2) by (auto simp: path_def less_Suc_eq_le simp del: upt_Suc hops.simps)
      have "\<not> terminal resolve (hops resolve k cid)" for k
        by (rule hops_cycle[OF i(2,1) nt])
      then show ?thesis
        using True nxt p 2(2,4) h
        by (auto simp: walk_ok_def simp del: hops.simps intro!: exI[of _ "Suc j"])
    next
      case notin: False
      have "walk_ok resolve (Suc j + n) cid (walk_loop resolve n (chain @ [nxt]) nxt)"
        using 2(4) nt notin by (intro 2(1)[OF nxt(1) nxt(2) notin p[symmetric] h[symmetric]]) (auto simp del: hops.simps)
      then show ?thesis using nxt notin by simp
    qed
  qed
qed

text \<open>C29: Following conversation aliases is exact.  A resolved id is reached by fewer than
  \<open>max_hops\<close> edges and has no outgoing alias; a reported cycle lists the path up to its first
  repeated id, and then no number of hops would ever reach an end; the hop limit is only
  reported with a duplicate-free path of exactly \<open>max_hops\<close> edges.\<close>
theorem alias_walk_exact:
  "if cid = [] then walk_conversation_alias_chain resolve max_hops cid = Resolved []
   else walk_ok resolve max_hops cid (walk_conversation_alias_chain resolve max_hops cid)"
  using walk_loop_ok[of "[cid]" resolve cid 0 cid max_hops]
  by (simp add: walk_conversation_alias_chain_def path_def)

section \<open>Reverse dependents\<close>

text \<open>\<open>s\<close> reaches \<open>t\<close> over exactly \<open>j\<close> alias edges.\<close>

fun reaches_in :: "(string \<Rightarrow> string option) \<Rightarrow> nat \<Rightarrow> string \<Rightarrow> string \<Rightarrow> bool" where
  "reaches_in resolve 0 s t \<longleftrightarrow> s = t"
| "reaches_in resolve (Suc j) s t \<longleftrightarrow> (case resolve s of None \<Rightarrow> False | Some m \<Rightarrow> reaches_in resolve j m t)"

lemma reaches_in_Suc: "reaches_in resolve (Suc j) s t \<longleftrightarrow> (\<exists>m. resolve s = Some m \<and> reaches_in resolve j m t)"
  by (simp split: option.splits)

lemma reaches_in_snoc: "reaches_in resolve (Suc j) s t \<longleftrightarrow> (\<exists>m. reaches_in resolve j s m \<and> resolve m = Some t)"
proof (induction j arbitrary: s)
  case (Suc j)
  show ?case unfolding reaches_in_Suc[of resolve "Suc j"] Suc.IH
    by (auto simp: reaches_in_Suc[of resolve j] simp del: reaches_in.simps)
qed (auto split: option.splits)

declare reaches_in.simps(2) [simp del]

text \<open>What the store's lookup by target promises: the sources of every target, once each and no
  more than the fan-out cap.\<close>

definition incoming_ok :: "(string \<Rightarrow> string option) \<Rightarrow> (string \<Rightarrow> string list) \<Rightarrow> bool" where
  "incoming_ok resolve incoming \<longleftrightarrow>
     (\<forall>t. set (incoming t) = {s. resolve s = Some t} \<and> distinct (incoming t)
        \<and> length (incoming t) \<le> max_reverse_dependent_fan_out)"

lemma take_new_filter:
  "length ss \<le> room \<Longrightarrow> distinct ss \<Longrightarrow> take_new room seen ss = filter (\<lambda>s. s \<notin> set seen) ss"
proof (induction room seen ss rule: take_new.induct)
  case (2 room seen s ss)
  then show ?case by (auto intro!: filter_cong)
qed simp

lemma bfs_level_set:
  assumes "incoming_ok resolve incoming"
  shows "set (bfs_level incoming seen nodes) = {s. \<exists>f\<in>set nodes. resolve s = Some f} - set seen
    \<and> distinct (bfs_level incoming seen nodes)"
using assms
proof (induction incoming seen nodes rule: bfs_level.induct)
  case (2 incoming seen node nodes)
  have n: "take_new max_reverse_dependent_fan_out seen (sort (incoming node))
      = filter (\<lambda>s. s \<notin> set seen) (sort (incoming node))"
    using 2(2) by (intro take_new_filter) (simp_all add: incoming_ok_def)
  have "set (incoming node) = {s. resolve s = Some node}" "distinct (incoming node)"
    using 2(2) by (simp_all add: incoming_ok_def)
  with 2(1)[OF refl 2(2)] show ?case unfolding n bfs_level.simps(2) Let_def by auto
qed simp

lemma bfs_set:
  assumes "incoming_ok resolve incoming" "set frontier \<subseteq> set seen"
    "\<And>s f. f \<in> set seen - set frontier \<Longrightarrow> resolve s = Some f \<Longrightarrow> s \<in> set seen"
  shows "set (bfs incoming n seen frontier) = {s. \<exists>j\<le>n. \<exists>f\<in>set seen. reaches_in resolve j s f} - set seen
    \<and> distinct (bfs incoming n seen frontier)"
  using assms
proof (induction incoming n seen frontier rule: bfs.induct)
  case (2 incoming n seen frontier)
  let ?nxt = "bfs_level incoming seen frontier"
  have nx: "set ?nxt = {s. \<exists>f\<in>set frontier. resolve s = Some f} - set seen" "distinct ?nxt"
    using bfs_level_set[OF 2(2), of seen frontier] by auto
  let ?S = "set (rev ?nxt @ seen)"
  have S: "?S = set seen \<union> {s. \<exists>f\<in>set seen. resolve s = Some f}"
    using nx(1) 2(3,4) by auto
  have reach: "(\<exists>j\<le>Suc n. \<exists>f\<in>set seen. reaches_in resolve j s f) \<longleftrightarrow> (\<exists>j\<le>n. \<exists>f\<in>?S. reaches_in resolve j s f)" for s
  proof
    assume "\<exists>j\<le>Suc n. \<exists>f\<in>set seen. reaches_in resolve j s f"
    then obtain j f where jf: "j \<le> Suc n" "f \<in> set seen" "reaches_in resolve j s f" by blast
    show "\<exists>j\<le>n. \<exists>f\<in>?S. reaches_in resolve j s f"
    proof (cases j)
      case 0 then show ?thesis using jf by (intro exI[of _ 0]) auto
    next
      case (Suc i)
      with jf obtain m where "reaches_in resolve i s m" "resolve m = Some f" by (auto simp: reaches_in_snoc)
      then show ?thesis using jf Suc S by (intro exI[of _ i]) auto
    qed
  next
    assume "\<exists>j\<le>n. \<exists>f\<in>?S. reaches_in resolve j s f"
    then obtain j f where jf: "j \<le> n" "f \<in> ?S" "reaches_in resolve j s f" by blast
    from jf(2) S consider "f \<in> set seen" | g where "g \<in> set seen" "resolve f = Some g" by auto
    then show "\<exists>j\<le>Suc n. \<exists>f\<in>set seen. reaches_in resolve j s f"
    proof cases
      case 1 with jf show ?thesis by (auto intro!: exI[of _ j])
    next
      case 2
      then have "reaches_in resolve (Suc j) s g" using jf(3) by (auto simp: reaches_in_snoc)
      with 2 jf show ?thesis by (intro exI[of _ "Suc j"]) auto
    qed
  qed
  show ?case
  proof (cases "frontier = []")
    case True
    then have "?S = set seen" using nx by simp
    moreover have "\<exists>f\<in>set seen. resolve s = Some f \<Longrightarrow> s \<in> set seen" for s using 2(4) True by auto
    then have "s \<in> set seen" if "f \<in> set seen" "reaches_in resolve j s f" for j s f
      using that by (induction j arbitrary: f) (auto simp: reaches_in_snoc)
    ultimately show ?thesis using True by auto
  next
    case False
    have cl: "s \<in> ?S" if "f \<in> ?S - set ?nxt" "resolve s = Some f" for s f using that S by auto
    have "set ?nxt \<subseteq> ?S" by simp
    from 2(1)[OF False refl 2(2) this cl] show ?thesis
      unfolding reach using False nx by (auto simp: Let_def)
  qed
qed simp

lemma reverse_dependents_set:
  assumes "incoming_ok resolve incoming"
  shows "set (compute_reverse_dependents incoming max_hops t)
      = {s. s \<noteq> t \<and> (\<exists>j\<le>max_hops. reaches_in resolve j s t)}
    \<and> distinct (compute_reverse_dependents incoming max_hops t)"
  using bfs_set[OF assms, of "[t]" "[t]" max_hops] by (auto simp: compute_reverse_dependents_def)

text \<open>As long as no id has more aliases than the fan-out cap, the reverse dependents of an id
  are exactly the other ids whose alias path reaches it within \<open>max_hops\<close> edges, each listed
  once.\<close>
theorem reverse_dependents_exact:
  assumes "incoming_ok resolve incoming"
  shows "set (compute_reverse_dependents incoming max_hops t)
      = {s. s \<noteq> t \<and> (\<exists>j\<le>max_hops. reaches_in resolve j s t)}
    \<and> distinct (compute_reverse_dependents incoming max_hops t)"
  using assms by (rule reverse_dependents_set)

text \<open>A chain of aliases: one letter shorter points to one letter longer, up to a length.\<close>

definition chain_resolve :: "nat \<Rightarrow> string \<Rightarrow> string option" where
  "chain_resolve n s = (if list_all (\<lambda>c. c = CHR ''x'') s \<and> 0 < length s \<and> length s \<le> n
     then Some (CHR ''x'' # s) else None)"

definition chain_incoming :: "nat \<Rightarrow> string \<Rightarrow> string list" where
  "chain_incoming n t = (if list_all (\<lambda>c. c = CHR ''x'') t \<and> 1 < length t \<and> length t \<le> Suc n
     then [tl t] else [])"

lemma chain_ok: "incoming_ok (chain_resolve n) (chain_incoming n)"
proof -
  have 1: "s = tl t" if "chain_resolve n s = Some t" for s t
    using that by (auto simp: chain_resolve_def split: if_splits)
  have 2: "chain_incoming n t = (if chain_resolve n (tl t) = Some t then [tl t] else [])" for t
    by (cases t) (auto simp: chain_resolve_def chain_incoming_def)
  have "set (chain_incoming n t) = {s. chain_resolve n s = Some t}" for t
    unfolding 2 by (cases "chain_resolve n (tl t) = Some t") (auto dest: 1 simp del: not_None_eq)
  moreover have "length (chain_incoming n t) \<le> 256 \<and> distinct (chain_incoming n t)" for t
    by (simp add: chain_incoming_def)
  ultimately show ?thesis
    unfolding incoming_ok_def max_reverse_dependent_fan_out_def by blast
qed

theorem reverse_dependents_exact_witness:
  "set (compute_reverse_dependents (chain_incoming 8) 8 (replicate 9 (CHR ''x'')))
      = {s. s \<noteq> replicate 9 (CHR ''x'') \<and> (\<exists>j\<le>8. reaches_in (chain_resolve 8) j s (replicate 9 (CHR ''x'')))}
    \<and> distinct (compute_reverse_dependents (chain_incoming 8) 8 (replicate 9 (CHR ''x'')))"
  by (rule reverse_dependents_exact[OF chain_ok])

text \<open>The documented bound is off by one: a chain of exactly eight edges, which does not exceed
  the default \<open>max_hops\<close> of 8 and ends in an id without an alias, is refused with \<open>max_hops\<close>,
  while the reverse dependents of its last id list the refused id as one whose walk reaches it.\<close>
theorem eight_hops_refused:
  "(case walk_conversation_alias_chain (chain_resolve 8) 8 ''x'' of MaxHops chain \<Rightarrow> length chain = 9 | _ \<Rightarrow> False)
   \<and> terminal (chain_resolve 8) (replicate 9 (CHR ''x''))
   \<and> walk_conversation_alias_chain (chain_resolve 8) 9 ''x'' = Resolved (replicate 9 (CHR ''x''))
   \<and> ''x'' \<in> set (compute_reverse_dependents (chain_incoming 8) 8 (replicate 9 (CHR ''x'')))"
  by code_simp

section \<open>Flattened aliases\<close>

definition alias_step :: "alias_map \<Rightarrow> string \<Rightarrow> string" where
  "alias_step raw t = (case map_of raw t of None \<Rightarrow> t | Some c \<Rightarrow> c)"

definition on_cycle :: "alias_map \<Rightarrow> string \<Rightarrow> bool" where
  "on_cycle raw t \<longleftrightarrow> t \<in> fst ` set raw \<and> (\<exists>k. (alias_step raw ^^ Suc k) t = t)"

lemma alias_step_key: "t \<in> fst ` set raw \<Longrightarrow> the (map_of raw t) = alias_step raw t"
  by (cases "map_of raw t") (auto simp: alias_step_def map_of_eq_None_iff)

lemma alias_step_no_key: "t \<notin> fst ` set raw \<Longrightarrow> alias_step raw t = t"
  by (auto simp: alias_step_def split: option.splits dest!: map_of_SomeD intro: rev_image_eqI)

lemma alias_steps_no_key: "t \<notin> fst ` set raw \<Longrightarrow> (alias_step raw ^^ k) t = t"
  by (induction k) (simp_all add: alias_step_no_key)

text \<open>What the chase returns: reached from its start, and an end or a tag on a cycle.\<close>

lemma chase_reached: "\<exists>k. (alias_step raw ^^ k) target = chase raw seen target"
proof (induction raw seen target rule: chase.induct)
  case (1 raw seen target)
  show ?case
  proof (cases "target \<in> fst ` set raw \<and> target \<notin> set seen")
    case True
    with 1 obtain k where "(alias_step raw ^^ k) (alias_step raw target)
        = chase raw (target # seen) (alias_step raw target)"
      by (auto simp: alias_step_key)
    then show ?thesis using True
      by (subst chase.simps) (auto simp: alias_step_key funpow_swap1 intro!: exI[of _ "Suc k"])
  next
    case False
    then show ?thesis by (subst chase.simps) (auto intro!: exI[of _ 0])
  qed
qed

lemma chase_end:
  assumes "\<And>s. s \<in> set seen \<Longrightarrow> \<exists>k. (alias_step raw ^^ Suc k) s = target"
  shows "chase raw seen target \<notin> fst ` set raw \<or> on_cycle raw (chase raw seen target)"
  using assms
proof (induction raw seen target rule: chase.induct)
  case (1 raw seen target)
  show ?case
  proof (cases "target \<in> fst ` set raw \<and> target \<notin> set seen")
    case True
    have "\<exists>k. (alias_step raw ^^ Suc k) s = alias_step raw target" if "s \<in> set (target # seen)" for s
    proof (cases "s = target")
      case True then show ?thesis by (intro exI[of _ 0]) simp
    next
      case False
      with that 1(2) obtain k where "(alias_step raw ^^ Suc k) s = target" by auto
      then have "(alias_step raw ^^ Suc (Suc k)) s = alias_step raw target" by simp
      then show ?thesis by blast
    qed
    with 1(1) True show ?thesis by (subst (1 2) chase.simps) (simp add: alias_step_key)
  next
    case False
    then show ?thesis using 1(2)[of target]
      by (subst (1 2) chase.simps) (auto simp: on_cycle_def)
  qed
qed

text \<open>From a tag on a cycle the chase comes back to the tag itself.\<close>

lemma chase_on_cycle:
  assumes cyc: "on_cycle raw t" and seen: "set seen = (\<lambda>l. (alias_step raw ^^ l) t) ` {..<j}"
    and first: "\<And>l. 0 < l \<Longrightarrow> l < j \<Longrightarrow> (alias_step raw ^^ l) t \<noteq> t" and j: "0 < j"
  shows "chase raw seen ((alias_step raw ^^ j) t) = t"
  using seen first j
proof (induction "card (fst ` set raw - set seen)" arbitrary: seen j rule: less_induct)
  case less
  let ?f = "alias_step raw"
  obtain p where p: "(?f ^^ Suc p) t = t" "t \<in> fst ` set raw" using cyc by (auto simp: on_cycle_def)
  have period: "(?f ^^ (n * Suc p)) t = t" for n
    using funpow_mod_eq[OF p(1), of "n * Suc p"] by (simp only: mod_mult_self2_is_0 funpow_0)
  have add: "(?f ^^ (a + b)) t = (?f ^^ a) ((?f ^^ b) t)" for a b by (simp add: funpow_add)
  have key: "(?f ^^ l) t \<in> fst ` set raw" for l
  proof (rule ccontr)
    assume n: "(?f ^^ l) t \<notin> fst ` set raw"
    have "t = (?f ^^ (l * Suc p)) t" by (simp only: period)
    also have "\<dots> = (?f ^^ (l * p)) ((?f ^^ l) t)" by (simp only: add[symmetric] mult_Suc_right add.commute)
    also have "\<dots> = (?f ^^ l) t" using n by (rule alias_steps_no_key)
    finally show False using n p(2) by simp
  qed
  show ?case
  proof (cases "(?f ^^ j) t \<in> set seen")
    case True
    then obtain m where m: "m < j" "(?f ^^ j) t = (?f ^^ m) t" using less(2) by auto
    have "m = 0"
    proof (rule ccontr)
      assume "m \<noteq> 0"
      have q: "m \<le> m * Suc p" by simp
      have "(?f ^^ (j - m)) t = (?f ^^ (j - m)) ((?f ^^ (m * Suc p)) t)" by (simp only: period)
      also have "\<dots> = (?f ^^ (m * Suc p - m)) ((?f ^^ j) t)"
        using m(1) q by (simp only: add[symmetric]) (intro arg_cong[where f = "\<lambda>n. (?f ^^ n) t"], simp)
      also have "\<dots> = (?f ^^ (m * Suc p)) t"
        unfolding m(2) using q by (simp only: add[symmetric]) (simp add: add.commute)
      finally have "(?f ^^ (j - m)) t = t" by (simp only: period)
      then show False using less(3)[of "j - m"] m(1) \<open>m \<noteq> 0\<close> by simp
    qed
    then show ?thesis using True m by (subst chase.simps) simp
  next
    case False
    have "chase raw ((?f ^^ j) t # seen) ((?f ^^ Suc j) t) = t"
    proof (rule less(1))
      have "fst ` set raw - set ((?f ^^ j) t # seen) \<subset> fst ` set raw - set seen"
        using key[of j] False by auto
      then show "card (fst ` set raw - set ((?f ^^ j) t # seen)) < card (fst ` set raw - set seen)"
        by (simp add: psubset_card_mono)
      show "set ((?f ^^ j) t # seen) = (\<lambda>l. (?f ^^ l) t) ` {..<Suc j}"
        using less(2) by (simp add: lessThan_Suc)
      have "t \<in> set seen" using less(2,4) by (metis funpow_0 imageI lessThan_iff)
      then have "(?f ^^ j) t \<noteq> t" using False by metis
      then show "(?f ^^ l) t \<noteq> t" if "0 < l" "l < Suc j" for l
        using that less(3)[of l] by (cases "l = j") auto
    qed simp
    then show ?thesis using False key[of j] by (subst chase.simps) (simp add: alias_step_key)
  qed
qed

lemma flatten_map_of:
  "(a, t) \<in> set (flatten_alias_map aliases) \<longleftrightarrow>
     (\<exists>c. (a, c) \<in> set (raw_aliases aliases) \<and> t = chase (raw_aliases aliases) [a] c \<and> t \<noteq> a)"
  by (auto simp: flatten_alias_map_def Let_def split: if_splits)

lemma raw_distinct: "distinct (map fst aliases) \<Longrightarrow> distinct (map fst (raw_aliases aliases))"
  by (simp add: raw_aliases_def distinct_map_filter)

lemma chase_raw:
  assumes d: "distinct (map fst raw)" and ac: "(a, c) \<in> set raw" and t: "t = chase raw [a] c"
  shows "\<exists>k. (alias_step raw ^^ Suc k) a = t" "t \<notin> fst ` set raw \<or> on_cycle raw t"
    "t = a \<longleftrightarrow> on_cycle raw a"
proof -
  have c: "alias_step raw a = c" using d ac by (simp add: alias_step_def)
  obtain k where "(alias_step raw ^^ k) c = t" using chase_reached t by blast
  then have k: "(alias_step raw ^^ Suc k) a = t" by (simp add: funpow_swap1 c)
  then show "\<exists>k. (alias_step raw ^^ Suc k) a = t" by blast
  show "t \<notin> fst ` set raw \<or> on_cycle raw t"
    unfolding t by (rule chase_end) (auto intro!: exI[of _ 0] simp: c)
  have "chase raw [a] ((alias_step raw ^^ 1) a) = a" if "on_cycle raw a"
    by (rule chase_on_cycle[OF that]) auto
  then show "t = a \<longleftrightarrow> on_cycle raw a"
    using k ac by (auto simp: t c on_cycle_def intro: rev_image_eqI)
qed

text \<open>Flattening ends every chain in one hop.  The aliases that survive are exactly those not on
  a cycle; each maps to a tag its chain really reaches, which is itself no alias any more: it
  is either a plain canonical tag or lies on a cut cycle.\<close>
theorem flatten_alias_map_one_hop:
  assumes "distinct (map fst aliases)"
  shows "fst ` set (flatten_alias_map aliases)
      = {a \<in> fst ` set (raw_aliases aliases). \<not> on_cycle (raw_aliases aliases) a}
    \<and> list_all (\<lambda>(a, t). t \<notin> fst ` set (flatten_alias_map aliases)
          \<and> (\<exists>k. (alias_step (raw_aliases aliases) ^^ Suc k) a = t)) (flatten_alias_map aliases)"
proof -
  let ?raw = "raw_aliases aliases" and ?flat = "flatten_alias_map aliases"
  note ch = chase_raw[OF raw_distinct[OF assms]]
  have keys: "fst ` set ?flat = {a \<in> fst ` set ?raw. \<not> on_cycle ?raw a}"
  proof (intro set_eqI iffI)
    fix a assume "a \<in> fst ` set ?flat"
    then obtain t where "(a, t) \<in> set ?flat" by force
    then obtain c where c: "(a, c) \<in> set ?raw" "chase ?raw [a] c \<noteq> a" by (auto simp: flatten_map_of)
    then have "\<not> on_cycle ?raw a" using ch(3)[OF c(1) refl] by simp
    then show "a \<in> {a \<in> fst ` set ?raw. \<not> on_cycle ?raw a}" using imageI[OF c(1), of fst] by simp
  next
    fix a assume a: "a \<in> {a \<in> fst ` set ?raw. \<not> on_cycle ?raw a}"
    then obtain c where c: "(a, c) \<in> set ?raw" by force
    then have "(a, chase ?raw [a] c) \<in> set ?flat"
      using a ch(3)[OF c refl] by (auto simp: flatten_map_of)
    from imageI[OF this, of fst] show "a \<in> fst ` set ?flat" by simp
  qed
  moreover have "t \<notin> fst ` set ?flat \<and> (\<exists>k. (alias_step ?raw ^^ Suc k) a = t)" if at: "(a, t) \<in> set ?flat" for a t
  proof -
    obtain c where "(a, c) \<in> set ?raw" "t = chase ?raw [a] c" using at unfolding flatten_map_of by blast
    then show ?thesis using ch(1,2) unfolding keys by blast
  qed
  ultimately show ?thesis by (simp only: list_all_iff) auto
qed

definition demo_aliases :: alias_map where
  "demo_aliases = [(''a'', ''b''), (''b'', ''c''), (''p'', ''q''), (''q'', ''p''), (''r'', ''p'')]"

theorem flatten_alias_map_one_hop_witness:
  "flatten_alias_map demo_aliases = [(''a'', ''c''), (''b'', ''c''), (''r'', ''p'')]
   \<and> fst ` set (flatten_alias_map demo_aliases)
      = {a \<in> fst ` set (raw_aliases demo_aliases). \<not> on_cycle (raw_aliases demo_aliases) a}
   \<and> list_all (\<lambda>(a, t). t \<notin> fst ` set (flatten_alias_map demo_aliases)
          \<and> (\<exists>k. (alias_step (raw_aliases demo_aliases) ^^ Suc k) a = t)) (flatten_alias_map demo_aliases)"
proof -
  have "distinct (map fst demo_aliases)" by code_simp
  moreover have "flatten_alias_map demo_aliases = [(''a'', ''c''), (''b'', ''c''), (''r'', ''p'')]"
    by code_simp
  ultimately show ?thesis using flatten_alias_map_one_hop by blast
qed

section \<open>Two ways an alias is missed\<close>

definition fresh_canonicalizer :: canonicalizer where
  "fresh_canonicalizer =
     load_aliases 1 \<lparr>cz_alias_cache = [], cz_known_tags = {}, cz_loaded_at = 0, cz_stored = []\<rparr>"

text \<open>Registration and lookup disagree.  An alias whose hyphens would be squeezed or stripped is
  stored under a key that lookup never produces, so it has no effect; and a tag aliased to a
  tag that is itself aliased later is resolved one hop only, until the cache is reloaded.\<close>
theorem registered_alias_missed:
  "fst (canonicalize 2 ''foo - bar'' (register_alias ''foo - bar'' ''baz'' fresh_canonicalizer)) = ''foo-bar''
   \<and> (let cz = register_alias ''b'' ''c'' (register_alias ''a'' ''b'' fresh_canonicalizer)
      in fst (canonicalize 2 ''a'' cz) = ''b'' \<and> fst (canonicalize 400 ''a'' cz) = ''c'')"
  by code_simp

section \<open>Edit distance\<close>

text \<open>The recursion of Levenshtein's distance.\<close>

fun lev :: "string \<Rightarrow> string \<Rightarrow> nat" where
  "lev [] b = length b"
| "lev a [] = length a"
| "lev (x # a) (y # b) =
     min (min (lev a (y # b) + 1) (lev (x # a) b + 1)) (lev a b + (if x \<noteq> y then 1 else 0))"

lemma lev_Nil2 [simp]: "lev a [] = length a"
  by (cases a) simp_all

lemma lev_sym: "lev a b = lev b a"
  by (induction a b rule: lev.induct) (auto simp: min.commute)

lemma upt_Suc_shift: "map f [0..<Suc n] = f 0 # map (\<lambda>j. f (Suc j)) [0..<n]"
  by (simp only: upt_conv_Cons zero_less_Suc map_Suc_upt[symmetric] list.map(2) map_map comp_def)

lemma edit_row_lev:
  "edit_row ca b (map (\<lambda>j. lev p (rev (take j b) @ q)) [0..<Suc (length b)]) (lev (ca # p) q)
     = map (\<lambda>j. lev (ca # p) (rev (take (Suc j) b) @ q)) [0..<length b]"
proof (induction b arbitrary: q)
  case (Cons cb b)
  let ?prev = "map (\<lambda>j. lev p (rev (take j b) @ cb # q)) [0..<Suc (length b)]"
  have 1: "map (\<lambda>j. lev p (rev (take j (cb # b)) @ q)) [0..<Suc (length (cb # b))] = lev p q # ?prev"
    by (subst upt_Suc_shift) (simp del: upt_Suc)
  have 2: "?prev = lev p (cb # q) # map (\<lambda>j. lev p (rev (take (Suc j) b) @ cb # q)) [0..<length b]"
    by (subst upt_Suc_shift) simp
  have 3: "edit_row ca (cb # b) (lev p q # ?prev) (lev (ca # p) q)
      = lev (ca # p) (cb # q) # edit_row ca b ?prev (lev (ca # p) (cb # q))"
    unfolding 2 by (simp only: edit_row.simps Let_def lev.simps(3))
  show ?case
    unfolding 1 3 Cons by (simp add: upt_Suc_shift del: upt_Suc lev.simps)
qed simp

lemma edit_rows_lev:
  "edit_rows a b (length p) (map (\<lambda>j. lev p (rev (take j b))) [0..<Suc (length b)])
     = map (\<lambda>j. lev (rev a @ p) (rev (take j b))) [0..<Suc (length b)]"
proof (induction a arbitrary: p)
  case (Cons ca a)
  have "Suc (length p) # edit_row ca b (map (\<lambda>j. lev p (rev (take j b))) [0..<Suc (length b)]) (Suc (length p))
      = map (\<lambda>j. lev (ca # p) (rev (take j b))) [0..<Suc (length b)]"
    using edit_row_lev[of ca b p "[]"] by (simp only: upt_Suc_shift append_Nil2) simp
  then show ?case using Cons[of "ca # p"] by (simp del: upt_Suc)
qed simp

text \<open>C30: The two-row table computes the edit distance: it equals Levenshtein's recursion on the
  strings read from their ends, whichever argument is longer.\<close>
theorem edit_distance_levenshtein: "edit_distance a b = lev (rev a) (rev b)"
proof -
  have table: "last (edit_rows a b 0 [0..<Suc (length b)]) = lev (rev a) (rev b)" for a b
  proof -
    have "map (\<lambda>j. lev [] (rev (take j b))) [0..<Suc (length b)] = [0..<Suc (length b)]"
      by (rule map_idI) (auto simp del: upt_Suc)
    then show ?thesis using edit_rows_lev[of a b "[]"] by (simp add: last_map del: upt_Suc)
  qed
  show ?thesis
    using table[of a b] table[of b a] lev_sym[of "rev a" "rev b"]
    by (auto simp: edit_distance_def Let_def simp del: upt_Suc)
qed

end
