(* ===== verification/Resequence.thy ===== *)
theory Resequence
  imports TurnStore "HOL-Library.Product_Lexorder"
begin

text \<open>
  Chronological resequencing after a merge: the planner of core/canonical\_resequence.py and
  the guarded store operation \<open>resequence_canonical_turns\<close> of storage/sqlite.py.  A row
  carries the columns the planner reads.  \<open>parse\<close> is \<open>datetime.fromisoformat\<close> normalised to
  UTC, as microseconds since \<open>datetime.min\<close>; it is a parameter.  The store operation works on
  one conversation's rows and its two artifact tables; an exception is a value of
  \<open>reseq_error\<close> and leaves the database as it was, which is the rollback.
\<close>

section \<open>The planner\<close>

record reseq_row =
  rq_id :: string
  rq_origin :: string
  rq_sort_key :: rat
  rq_group :: int
  rq_user :: string
  rq_assistant :: string
  rq_first_seen :: string
  rq_last_seen :: string
  rq_created :: string
  rq_updated :: string

record assignment =
  asg_id :: string
  asg_namespace :: string
  asg_old_group :: int
  asg_local :: nat
  asg_turn :: nat
  asg_key :: rat

text \<open>The first of the four timestamps that is present and parses.\<close>

definition row_timestamp :: "(string \<Rightarrow> nat option) \<Rightarrow> reseq_row \<Rightarrow> nat option" where
  "row_timestamp parse r =
     (case concat (map (\<lambda>raw. if raw = [] then [] else case parse raw of None \<Rightarrow> [] | Some t \<Rightarrow> [t])
             [rq_first_seen r, rq_last_seen r, rq_created r, rq_updated r]) of
        [] \<Rightarrow> None | t # _ \<Rightarrow> Some t)"

definition namespace_of :: "string \<Rightarrow> reseq_row \<Rightarrow> string" where
  "namespace_of owner r = str_or (strip (rq_origin r)) owner"

definition by_namespace :: "string \<Rightarrow> reseq_row list \<Rightarrow> (string \<times> reseq_row list) list" where
  "by_namespace owner rows = fold (\<lambda>r m. setdefault_append m (namespace_of owner r) r) rows []"

subsection \<open>Pairing inside a namespace\<close>

definition rq_has_user :: "reseq_row \<Rightarrow> bool" where
  "rq_has_user r \<longleftrightarrow> strip (rq_user r) \<noteq> []"

definition rq_has_assistant :: "reseq_row \<Rightarrow> bool" where
  "rq_has_assistant r \<longleftrightarrow> strip (rq_assistant r) \<noteq> []"

definition old_groups_differ :: "reseq_row \<Rightarrow> reseq_row \<Rightarrow> bool" where
  "old_groups_differ p r \<longleftrightarrow> rq_group p \<ge> 0 \<and> rq_group r \<ge> 0 \<and> rq_group p \<noteq> rq_group r"

text \<open>
  The pairing loop.  \<open>pending\<close> is \<open>pending_user_group\<close>, the group appended last, which the
  source keeps extending in place; it is emitted here when it is closed.
\<close>

definition close_group :: "reseq_row list \<Rightarrow> reseq_row list list" where
  "close_group pending = (if pending = [] then [] else [pending])"

fun pair_loop :: "reseq_row list \<Rightarrow> reseq_row list \<Rightarrow> reseq_row list list" where
  "pair_loop pending [] = close_group pending"
| "pair_loop pending (row # rows) =
     (let has_user = rq_has_user row; has_assistant = rq_has_assistant row
      in if has_user \<and> has_assistant then close_group pending @ [row] # pair_loop [] rows
         else if has_user then close_group pending @ pair_loop [row] rows
         else if has_assistant \<and> pending \<noteq> [] then
           (if old_groups_differ (hd pending) row then pending # [row] # pair_loop [] rows
            else (pending @ [row]) # pair_loop [] rows)
         else if \<not> has_assistant \<and> pending \<noteq> [] then
           (if old_groups_differ (hd pending) row then pending # [row] # pair_loop [] rows
            else pair_loop (pending @ [row]) rows)
         else close_group pending @ [row] # pair_loop [] rows)"

definition order_rows :: "reseq_row list \<Rightarrow> reseq_row list" where
  "order_rows rows = sort_key (\<lambda>r. (rq_sort_key r, rq_id r)) rows"

definition pair_rows :: "reseq_row list \<Rightarrow> reseq_row list list" where
  "pair_rows rows = pair_loop [] rows"

subsection \<open>Group times\<close>

definition group_time :: "(string \<Rightarrow> nat option) \<Rightarrow> reseq_row list \<Rightarrow> nat option" where
  "group_time parse g =
     (case concat (map (\<lambda>r. case row_timestamp parse r of None \<Rightarrow> [] | Some t \<Rightarrow> [t]) g) of
        [] \<Rightarrow> None | t # ts \<Rightarrow> Some (fold min ts t))"

text \<open>Missing times are filled in place, so the entry before is always known; \<open>datetime.min\<close> is 0.\<close>

fun fill_times :: "nat option \<Rightarrow> nat option list \<Rightarrow> nat list" where
  "fill_times prior [] = []"
| "fill_times prior (Some t # ts) = t # fill_times (Some t) ts"
| "fill_times prior (None # ts) =
     (let following = (case filter (\<lambda>x. x \<noteq> None) ts of [] \<Rightarrow> 0 | x # _ \<Rightarrow> the x);
          t = (case prior of Some p \<Rightarrow> p | None \<Rightarrow> following)
      in t # fill_times (Some t) ts)"

subsection \<open>The global order\<close>

type_synonym logical_group = "nat \<times> string \<times> nat \<times> reseq_row list"

definition namespace_groups ::
  "(string \<Rightarrow> nat option) \<Rightarrow> string \<Rightarrow> reseq_row list \<Rightarrow> logical_group list" where
  "namespace_groups parse ns rows =
     (let groups = pair_rows (order_rows rows)
      in map (\<lambda>(local, ts, g). (ts, ns, local, g))
           (enumerate 0 (zip (fill_times None (map (group_time parse) groups)) groups)))"

definition logical_groups ::
  "(string \<Rightarrow> nat option) \<Rightarrow> string \<Rightarrow> reseq_row list \<Rightarrow> logical_group list" where
  "logical_groups parse owner rows =
     sort_key (\<lambda>(ts, ns, local, g). (ts, ns, local))
       (concat (map (\<lambda>(ns, rs). namespace_groups parse ns rs) (by_namespace owner rows)))"

definition flat_groups :: "logical_group list \<Rightarrow> (nat \<times> string \<times> nat \<times> reseq_row) list" where
  "flat_groups lgs =
     concat (map (\<lambda>(turn, ts, ns, local, g). map (\<lambda>r. (turn, ns, local, r)) g) (enumerate 0 lgs))"

definition assign_slots :: "(nat \<times> string \<times> nat \<times> reseq_row) list \<Rightarrow> assignment list" where
  "assign_slots flat =
     map (\<lambda>(slot, turn, ns, local, r).
            \<lparr>asg_id = rq_id r, asg_namespace = ns, asg_old_group = rq_group r, asg_local = local,
             asg_turn = turn, asg_key = of_nat (Suc slot) * 1000\<rparr>) (enumerate 0 flat)"

text \<open>Old numbers with more than one candidate are left out of the artifact mapping.\<close>

definition candidates :: "assignment list \<Rightarrow> ((string \<times> int) \<times> nat list) list" where
  "candidates asg =
     fold (\<lambda>a m. setdefault_append m (asg_namespace a, asg_old_group a) (asg_turn a))
       (filter (\<lambda>a. asg_old_group a \<ge> 0) asg) []"

definition artifact_mapping :: "assignment list \<Rightarrow> ((string \<times> int) \<times> nat) list" where
  "artifact_mapping asg =
     concat (map (\<lambda>(k, ts). case remdups ts of [t] \<Rightarrow> [(k, t)] | _ \<Rightarrow> []) (candidates asg))"

definition plan_canonical_resequence ::
  "(string \<Rightarrow> nat option) \<Rightarrow> string \<Rightarrow> reseq_row list \<Rightarrow>
     assignment list \<times> ((string \<times> int) \<times> nat) list" where
  "plan_canonical_resequence parse owner rows =
     (let asg = assign_slots (flat_groups (logical_groups parse owner rows))
      in (asg, artifact_mapping asg))"

section \<open>What the plan guarantees\<close>

lemma concat_close [simp]: "concat (close_group p) = p"
  by (simp add: close_group_def)

lemma close_group_ne [simp]: "[] \<notin> set (close_group p)"
  by (simp add: close_group_def)

lemma pair_loop_concat: "concat (pair_loop pending rows) = pending @ rows"
  by (induction pending rows rule: pair_loop.induct) (simp_all add: Let_def)

lemma pair_loop_nonempty: "[] \<notin> set (pair_loop pending rows)"
  by (induction pending rows rule: pair_loop.induct) (auto simp: Let_def)

interpretation paired: row_partition pair_rows
  by unfold_locales (simp_all add: pair_rows_def pair_loop_concat pair_loop_nonempty)

lemma length_fill_times [simp]: "length (fill_times p ts) = length ts"
  by (induction p ts rule: fill_times.induct) (simp_all add: Let_def)

text \<open>A known group time is never replaced.\<close>

lemma fill_times_known: "i < length ts \<Longrightarrow> ts ! i = Some t \<Longrightarrow> fill_times p ts ! i = t"
  by (induction p ts arbitrary: i rule: fill_times.induct) (auto simp: nth_Cons' Let_def split: if_splits)

lemma by_namespace_mset: "mset (concat (map snd (by_namespace owner rows))) = mset rows"
  using fold_setdefault_mset[of "namespace_of owner" rows "[]"] by (simp add: by_namespace_def)

lemma setdefault_append_in:
  "(k', vs) \<in> set (setdefault_append m k v) \<Longrightarrow> x \<in> set vs \<Longrightarrow>
     k' = k \<and> x = v \<or> (\<exists>ws. (k', ws) \<in> set m \<and> x \<in> set ws)"
  by (induction m k v rule: setdefault_append.induct) (auto split: if_splits)

definition own_namespace :: "string \<Rightarrow> (string \<times> reseq_row list) list \<Rightarrow> bool" where
  "own_namespace owner m \<longleftrightarrow> (\<forall>ns rs r. (ns, rs) \<in> set m \<longrightarrow> r \<in> set rs \<longrightarrow> namespace_of owner r = ns)"

lemma own_namespace_fold:
  "own_namespace owner m \<Longrightarrow>
     own_namespace owner (fold (\<lambda>r m. setdefault_append m (namespace_of owner r) r) rows m)"
proof (induction rows arbitrary: m)
  case (Cons a rows)
  have "own_namespace owner (setdefault_append m (namespace_of owner a) a)"
    using Cons.prems unfolding own_namespace_def by (blast dest: setdefault_append_in)
  then show ?case using Cons.IH by simp
qed simp

lemma by_namespace_in:
  assumes "(ns, rs) \<in> set (by_namespace owner rows)" "r \<in> set rs"
  shows "namespace_of owner r = ns"
  using own_namespace_fold[of owner "[]" rows] assms
  unfolding by_namespace_def own_namespace_def by auto

definition group_rows :: "logical_group \<Rightarrow> reseq_row list" where
  "group_rows lg = snd (snd (snd lg))"

lemma namespace_groups_rows: "map group_rows (namespace_groups parse ns rows) = pair_rows (order_rows rows)"
  by (rule nth_equalityI)
     (simp_all add: namespace_groups_def Let_def group_rows_def nth_enumerate_eq)

lemma namespace_groups_concat:
  "mset (concat (map group_rows (namespace_groups parse ns rows))) = mset rows"
  by (simp add: namespace_groups_rows paired.part_concat order_rows_def)

lemma mset_concat_map: "mset (concat (map f xs)) = (\<Sum>x\<in>#mset xs. mset (f x))"
  by (induction xs) auto

lemma logical_groups_mset: "mset (concat (map group_rows (logical_groups parse owner rows))) = mset rows"
proof -
  have "mset (concat (map group_rows (logical_groups parse owner rows)))
      = mset (concat (map group_rows (concat (map (\<lambda>(ns, rs). namespace_groups parse ns rs) (by_namespace owner rows)))))"
    by (simp only: mset_concat_map logical_groups_def mset_sort)
  also have "\<dots> = mset (concat (map snd (by_namespace owner rows)))"
  proof -
    have "mset (concat (map group_rows (concat (map (\<lambda>(ns, rs). namespace_groups parse ns rs) m))))
        = mset (concat (map snd m))" for m
      by (induction m) (auto simp: namespace_groups_concat)
    then show ?thesis .
  qed
  finally show ?thesis by (simp add: by_namespace_mset)
qed

lemma flat_groups_rows: "map (\<lambda>(turn, ns, local, r). r) (flat_groups lgs) = concat (map group_rows lgs)"
proof -
  have "map (\<lambda>(turn, ns, local, r). r) (concat (map (\<lambda>(turn, ts, ns, local, g). map (\<lambda>r. (turn, ns, local, r)) g)
      (enumerate n lgs))) = concat (map group_rows lgs)" for n
    by (induction lgs arbitrary: n) (auto simp: group_rows_def comp_def map_idI)
  then show ?thesis by (simp add: flat_groups_def)
qed

lemma flat_groups_turns: "sorted (map fst (flat_groups lgs))"
proof -
  have "sorted (map fst (concat (map (\<lambda>(turn, ts, ns, local, g). map (\<lambda>r. (turn, ns, local, r)) g)
      (enumerate n lgs)))) \<and> (\<forall>x\<in>set (concat (map (\<lambda>(turn, ts, ns, local, g). map (\<lambda>r. (turn, ns, local, r)) g)
      (enumerate n lgs))). n \<le> fst x)" for n
  proof (induction lgs arbitrary: n)
    case (Cons lg lgs)
    obtain ts ns l g where lg: "lg = (ts, ns, l, g)" by (cases lg)
    have "sorted (map fst (map (\<lambda>r. (n, ns, l, r)) g))" by (induction g) auto
    then show ?case using Cons[of "Suc n"] by (fastforce simp: lg sorted_append)
  qed simp
  then show ?thesis by (simp add: flat_groups_def)
qed

lemma assign_slots_simps:
  "map asg_id (assign_slots flat) = map (\<lambda>(turn, ns, local, r). rq_id r) flat"
  "map asg_turn (assign_slots flat) = map fst flat"
  "map asg_key (assign_slots flat) = map (\<lambda>k. of_nat (Suc k) * 1000) [0..<length flat]"
  by (auto intro!: nth_equalityI simp: assign_slots_def nth_enumerate_eq split: prod.split simp del: of_nat_Suc)

lemma plan_ids: "mset (map asg_id (fst (plan_canonical_resequence parse owner rows))) = mset (map rq_id rows)"
proof -
  have "map asg_id (fst (plan_canonical_resequence parse owner rows))
      = map rq_id (concat (map group_rows (logical_groups parse owner rows)))"
    unfolding flat_groups_rows[symmetric]
    by (simp add: plan_canonical_resequence_def Let_def assign_slots_simps split_def comp_def)
  then show ?thesis by (simp add: logical_groups_mset del: mset_concat_map)
qed

lemma plan_length: "length (fst (plan_canonical_resequence parse owner rows)) = length rows"
  using plan_ids[of parse owner rows] by (metis length_map mset_eq_length)

lemma plan_keys:
  "map asg_key (fst (plan_canonical_resequence parse owner rows)) = map (\<lambda>k. of_nat (Suc k) * 1000) [0..<length rows]"
  using plan_length[of parse owner rows]
  by (simp add: plan_canonical_resequence_def Let_def assign_slots_simps del: of_nat_Suc)
     (simp add: assign_slots_def)

lemma flat_groups_filter:
  "map (\<lambda>(turn, ns, local, r). r) (filter (\<lambda>x. fst x = t) (flat_groups lgs))
     = (if t < length lgs then group_rows (lgs ! t) else [])"
proof -
  have "map (\<lambda>(turn, ns, local, r). r) (filter (\<lambda>x. fst x = n + t)
      (concat (map (\<lambda>(turn, ts, ns, local, g). map (\<lambda>r. (turn, ns, local, r)) g) (enumerate n lgs))))
      = (if t < length lgs then group_rows (lgs ! t) else [])" for n t
  proof (induction lgs arbitrary: n t)
    case (Cons lg lgs)
    obtain ts ns l g where lg: "lg = (ts, ns, l, g)" by (cases lg)
    let ?rest = "concat (map (\<lambda>(turn, ts, ns, local, g). map (\<lambda>r. (turn, ns, local, r)) g) (enumerate (Suc n) lgs))"
    have later: "Suc n \<le> fst x" if "x \<in> set ?rest" for x
      using that by (auto simp: in_set_enumerate_eq)
    show ?case
    proof (cases t)
      case 0
      have "filter (\<lambda>x. fst x = n) ?rest = []" using later by (fastforce simp: filter_empty_conv)
      then show ?thesis by (simp add: 0 lg group_rows_def filter_map comp_def)
    next
      case (Suc u)
      then show ?thesis using Cons[of "Suc n" u] by (simp add: lg filter_map comp_def)
    qed
  qed simp
  from this[of 0 t] show ?thesis by (simp add: flat_groups_def)
qed

lemma enumerate_filter_snd: "map snd (filter (\<lambda>(i, x). P x) (enumerate n xs)) = filter P xs"
  by (induction xs arbitrary: n) auto

lemma plan_turn_rows:
  "map asg_id (filter (\<lambda>a. asg_turn a = t) (fst (plan_canonical_resequence parse owner rows)))
     = (if t < length (logical_groups parse owner rows)
        then map rq_id (group_rows (logical_groups parse owner rows ! t)) else [])"
proof -
  let ?flat = "flat_groups (logical_groups parse owner rows)"
  have "filter (\<lambda>a. asg_turn a = t) (assign_slots ?flat)
      = map (\<lambda>(slot, turn, ns, local, r). \<lparr>asg_id = rq_id r, asg_namespace = ns, asg_old_group = rq_group r,
          asg_local = local, asg_turn = turn, asg_key = of_nat (Suc slot) * 1000\<rparr>)
          (filter (\<lambda>(i, x). fst x = t) (enumerate 0 ?flat))"
    by (simp add: assign_slots_def filter_map comp_def split_def)
  then have "map asg_id (filter (\<lambda>a. asg_turn a = t) (assign_slots ?flat))
      = map (\<lambda>(turn, ns, local, r). rq_id r) (map snd (filter (\<lambda>(i, x). fst x = t) (enumerate 0 ?flat)))"
    by (simp add: comp_def split_def)
  also have "\<dots> = map rq_id (map (\<lambda>(turn, ns, local, r). r) (filter (\<lambda>x. fst x = t) ?flat))"
    unfolding enumerate_filter_snd by (simp add: comp_def split_def)
  finally show ?thesis by (simp add: flat_groups_filter plan_canonical_resequence_def Let_def)
qed

lemma namespace_groups_ns: "(ts, ns', l, g) \<in> set (namespace_groups parse ns rs) \<Longrightarrow> ns' = ns"
  by (auto simp: namespace_groups_def Let_def)

lemma logical_groups_member:
  assumes "(ts, ns, l, g) \<in> set (logical_groups parse owner rows)"
  shows "g \<noteq> []" "r \<in> set g \<Longrightarrow> namespace_of owner r = ns"
proof -
  obtain rs where rs: "(ns, rs) \<in> set (by_namespace owner rows)"
    "(ts, ns, l, g) \<in> set (namespace_groups parse ns rs)"
    using assms by (auto simp: logical_groups_def dest: namespace_groups_ns)
  then have "g \<in> set (map group_rows (namespace_groups parse ns rs))"
    by (force simp: group_rows_def)
  then have g: "g \<in> set (pair_rows (order_rows rs))" by (simp only: namespace_groups_rows)
  then show "g \<noteq> []" using paired.part_nonempty by metis
  assume "r \<in> set g"
  then have "r \<in> set (order_rows rs)" using g paired.part_members by blast
  then show "namespace_of owner r = ns" using by_namespace_in[OF rs(1)] by (simp add: order_rows_def)
qed

lemma logical_groups_sorted:
  "sorted (map (\<lambda>(ts, ns, l, g). (ts, ns, l)) (logical_groups parse owner rows))"
  by (simp add: logical_groups_def)

text \<open>C31: The plan renumbers a merged conversation completely and in order.  Every row gets
  exactly one assignment; the new sort keys are 1000, 2000, and so on without a gap; turn numbers
  never decrease along them and each collects exactly the rows of one logical turn; logical
  turns are ordered by time, namespace and position, are never empty and never mix the
  namespaces of merged sources.\<close>
theorem plan_renumbers_completely:
  "mset (map asg_id (fst (plan_canonical_resequence parse owner rows))) = mset (map rq_id rows)
   \<and> map asg_key (fst (plan_canonical_resequence parse owner rows))
       = map (\<lambda>k. of_nat (Suc k) * 1000) [0..<length rows]
   \<and> sorted (map asg_turn (fst (plan_canonical_resequence parse owner rows)))
   \<and> map asg_id (filter (\<lambda>a. asg_turn a = t) (fst (plan_canonical_resequence parse owner rows)))
       = (if t < length (logical_groups parse owner rows)
          then map rq_id (group_rows (logical_groups parse owner rows ! t)) else [])
   \<and> sorted (map (\<lambda>(ts, ns, l, g). (ts, ns, l)) (logical_groups parse owner rows))
   \<and> list_all (\<lambda>(ts, ns, l, g). g \<noteq> [] \<and> list_all (\<lambda>r. namespace_of owner r = ns) g)
       (logical_groups parse owner rows)"
proof -
  have "sorted (map asg_turn (fst (plan_canonical_resequence parse owner rows)))"
    by (simp add: plan_canonical_resequence_def Let_def assign_slots_simps flat_groups_turns)
  moreover have "list_all (\<lambda>(ts, ns, l, g). g \<noteq> [] \<and> list_all (\<lambda>r. namespace_of owner r = ns) g)
       (logical_groups parse owner rows)"
    using logical_groups_member[where parse = parse and owner = owner and rows = rows]
    by (auto simp: list_all_iff)
  ultimately show ?thesis
    using plan_ids plan_keys plan_turn_rows logical_groups_sorted by blast
qed

subsection \<open>The artifact mapping\<close>

lemma lookup_candidates:
  "lookup_list (fold (\<lambda>a m. setdefault_append m (kf a) (vf a)) as m) k
     = lookup_list m k @ map vf (filter (\<lambda>a. kf a = k) as)"
  by (induction as arbitrary: m) auto

lemma distinct_candidates:
  "distinct (map fst m) \<Longrightarrow> distinct (map fst (fold (\<lambda>a m. setdefault_append m (kf a) (vf a)) as m))"
  by (induction as arbitrary: m) (simp_all add: keys_setdefault_append)

lemma map_of_concat_single:
  "distinct (map fst m) \<Longrightarrow>
     map_of (concat (map (\<lambda>(k, ts). case f ts of [t] \<Rightarrow> [(k, t)] | _ \<Rightarrow> []) m)) k
     = (case map_of m k of None \<Rightarrow> None | Some ts \<Rightarrow> (case f ts of [t] \<Rightarrow> Some t | _ \<Rightarrow> None))"
proof (induction m)
  case (Cons p m)
  obtain k' ts where p: "p = (k', ts)" by (cases p)
  let ?r = "concat (map (\<lambda>(k, ts). case f ts of [t] \<Rightarrow> [(k, t)] | _ \<Rightarrow> []) m)"
  have "k \<in> fst ` set m" if "k \<in> fst ` set ?r" for k
    using that by (force split: list.splits)
  moreover have "k' \<notin> fst ` set m" using Cons.prems by (simp add: p)
  ultimately have "map_of ?r k' = None" unfolding map_of_eq_None_iff by blast
  moreover have "map_of m k' = None" using Cons.prems by (simp add: p map_of_eq_None_iff)
  ultimately show ?case
    using Cons by (cases "k = k'") (simp_all add: p map_add_def split: list.split)
qed simp

lemma remdups_single: "remdups xs = [x] \<longleftrightarrow> set xs = {x}"
proof
  assume "set xs = {x}"
  then have "set (remdups xs) = {x}" "distinct (remdups xs)" by simp_all
  then show "remdups xs = [x]"
    by (cases "remdups xs") (auto simp: neq_Nil_conv, (metis list.set_intros(1) neq_Nil_conv singletonD subsetD)+)
qed (metis set_remdups list.set(1) list.simps(15))

lemma single_case: "(case remdups ts of [t] \<Rightarrow> Some t | _ \<Rightarrow> None) = Some x \<longleftrightarrow> set ts = {x}"
  unfolding remdups_single[symmetric] by (auto split: list.split)

lemma artifact_mapping_iff:
  "map_of (artifact_mapping asg) (ns, g) = Some t \<longleftrightarrow>
     {asg_turn a |a. a \<in> set asg \<and> asg_namespace a = ns \<and> asg_old_group a = g \<and> g \<ge> 0} = {t}"
proof -
  let ?as = "filter (\<lambda>a. asg_old_group a \<ge> 0) asg"
  have set: "set (lookup_list (candidates asg) (ns, g))
      = {asg_turn a |a. a \<in> set asg \<and> asg_namespace a = ns \<and> asg_old_group a = g \<and> g \<ge> 0}"
    by (auto simp: candidates_def lookup_candidates)
  have "map_of (artifact_mapping asg) (ns, g) = (case map_of (candidates asg) (ns, g) of None \<Rightarrow> None
      | Some ts \<Rightarrow> (case remdups ts of [t] \<Rightarrow> Some t | _ \<Rightarrow> None))"
    unfolding artifact_mapping_def
    by (rule map_of_concat_single) (simp add: candidates_def distinct_candidates)
  then have "map_of (artifact_mapping asg) (ns, g) = Some t \<longleftrightarrow> set (lookup_list (candidates asg) (ns, g)) = {t}"
    by (cases "map_of (candidates asg) (ns, g)") (simp_all add: lookup_list_def single_case)
  then show ?thesis by (simp only: set)
qed

text \<open>The artifact mapping is exactly the unambiguous part of the renumbering: an old number of a
  namespace is mapped to a turn precisely when some row carried it and all rows that carried it
  were assigned that turn; a reused or unknown number is never guessed.\<close>
theorem artifact_mapping_unambiguous:
  "map_of (snd (plan_canonical_resequence parse owner rows)) (ns, g) = Some t \<longleftrightarrow>
     {asg_turn a |a. a \<in> set (fst (plan_canonical_resequence parse owner rows))
        \<and> asg_namespace a = ns \<and> asg_old_group a = g \<and> g \<ge> 0} = {t}"
  by (simp add: plan_canonical_resequence_def Let_def artifact_mapping_iff)

end
