(* ===== verification/ResequenceStore.thy ===== *)
theory ResequenceStore
  imports Resequence
begin

text \<open>
  \<open>SQLiteStore.resequence_canonical_turns\<close>: the guards, the plan, the two passes that write the
  new sort keys under the UNIQUE constraint, and the two passes that renumber the turn-scoped
  artifacts.  Every path that raises is a \<open>reseq_error\<close>; the caller's transaction is rolled
  back then, so no state is returned.
\<close>

section \<open>State\<close>

text \<open>A row of \<open>turn_tool_outputs\<close> or of \<open>chain_snapshots\<close>; \<open>art_ref\<close> is the reference column.\<close>

record artifact =
  art_origin :: string
  art_turn :: int
  art_ref :: string

record conversation_row =
  cv_tenant :: string
  cv_epoch :: int
  cv_phase :: string
  cv_deleted :: bool
  cv_pending :: int

record reseq_db =
  db_conversation :: "conversation_row option"
  db_compacting :: bool
  db_ingesting :: bool
  db_merging :: bool
  db_derived :: "nat \<times> nat \<times> nat"
  db_rows :: "reseq_row list"
  db_tools :: "artifact list"
  db_chains :: "artifact list"
  db_engine_state :: bool

datatype reseq_error =
    ConversationAndTenantRequired | ConversationMissing | TenantOrEpochMismatch | NotActive
  | PendingRawIngestion | ActiveCompaction | ActiveIngestion | ActiveMerge
  | DerivedDataPresent | ArtifactsUnmapped | UniqueViolation | StagingLost

record reseq_report =
  rp_rows :: nat
  rp_turns :: nat
  rp_changed_groups :: nat
  rp_changed_keys :: nat
  rp_tools :: nat
  rp_tools_unmapped :: nat
  rp_chains :: nat
  rp_chains_unmapped :: nat
  rp_derived :: "nat \<times> nat \<times> nat"
  rp_dry_run :: bool

section \<open>Guards\<close>

definition reseq_guard :: "string \<Rightarrow> string \<Rightarrow> int \<Rightarrow> reseq_db \<Rightarrow> reseq_error option" where
  "reseq_guard owner tenant epoch db =
     (if owner = [] \<or> tenant = [] then Some ConversationAndTenantRequired
      else case db_conversation db of
        None \<Rightarrow> Some ConversationMissing
      | Some c \<Rightarrow>
          if cv_tenant c \<noteq> tenant \<or> cv_epoch c \<noteq> epoch then Some TenantOrEpochMismatch
          else if cv_phase c \<noteq> ''active'' \<or> cv_deleted c then Some NotActive
          else if cv_pending c \<noteq> 0 then Some PendingRawIngestion
          else if db_compacting db then Some ActiveCompaction
          else if db_ingesting db then Some ActiveIngestion
          else if db_merging db then Some ActiveMerge
          else None)"

section \<open>Writing the turns\<close>

text \<open>
  One UPDATE by primary key, under \<open>UNIQUE (conversation_id, sort_key)\<close>; then the loop of
  updates.
\<close>

definition update_by_id ::
  "string \<Rightarrow> (reseq_row \<Rightarrow> reseq_row) \<Rightarrow> reseq_row list \<Rightarrow> reseq_row list option" where
  "update_by_id cid f rows =
     (let rows' = map (\<lambda>r. if rq_id r = cid then f r else r) rows
      in if distinct (map rq_sort_key rows') then Some rows' else None)"

fun update_all :: "(string \<times> (reseq_row \<Rightarrow> reseq_row)) list \<Rightarrow> reseq_row list \<Rightarrow> reseq_row list option" where
  "update_all [] rows = Some rows"
| "update_all ((cid, f) # us) rows =
     (case update_by_id cid f rows of None \<Rightarrow> None | Some rows' \<Rightarrow> update_all us rows')"

text \<open>The first pass parks every row below the smallest key in use.\<close>

definition stage_base :: "assignment list \<Rightarrow> reseq_row list \<Rightarrow> rat" where
  "stage_base asg rows =
     Min (rq_sort_key ` set rows) - (of_nat (length asg) + 1) * 1000"

fun stage_updates :: "rat \<Rightarrow> assignment list \<Rightarrow> (string \<times> (reseq_row \<Rightarrow> reseq_row)) list" where
  "stage_updates k [] = []"
| "stage_updates k (a # asg) = (asg_id a, \<lambda>r. r\<lparr>rq_sort_key := k\<rparr>) # stage_updates (k - 1000) asg"

definition final_row :: "string \<Rightarrow> assignment \<Rightarrow> reseq_row \<Rightarrow> reseq_row" where
  "final_row now a r =
     r\<lparr>rq_group := int (asg_turn a), rq_sort_key := asg_key a, rq_updated := now\<rparr>"

definition write_assignments ::
  "string \<Rightarrow> assignment list \<Rightarrow> reseq_row list \<Rightarrow> reseq_row list option" where
  "write_assignments now asg rows =
     (if asg = [] then Some rows
      else update_all (stage_updates (stage_base asg rows) asg @ map (\<lambda>a. (asg_id a, final_row now a)) asg) rows)"

section \<open>Renumbering the artifacts\<close>

text \<open>The namespace of an artifact as the planner reads it, and as the UPDATE's WHERE clause does.\<close>

definition art_namespace :: "string \<Rightarrow> artifact \<Rightarrow> string" where
  "art_namespace owner a = str_or (strip (art_origin a)) owner"

definition art_sql_namespace :: "string \<Rightarrow> artifact \<Rightarrow> string" where
  "art_sql_namespace owner a = str_or (sql_trim (art_origin a)) owner"

type_synonym turn_mapping = "((string \<times> int) \<times> nat) list"

text \<open>\<open>_artifact_plan\<close>: the artifact rows, the part of the mapping they need, how many have no entry.\<close>

definition artifact_plan ::
  "string \<Rightarrow> turn_mapping \<Rightarrow> artifact list \<Rightarrow> artifact list \<times> turn_mapping \<times> nat" where
  "artifact_plan owner mapping arts =
     (let rows = filter (\<lambda>a. art_turn a \<ge> 0) arts;
          key = (\<lambda>a. (art_namespace owner a, art_turn a));
          known = filter (\<lambda>a. map_of mapping (key a) \<noteq> None) rows
      in (rows, sort (remdups (map (\<lambda>a. (key a, the (map_of mapping (key a)))) known)),
          length rows - length known))"

text \<open>\<open>keys_ok\<close> is the table's uniqueness constraint, checked after each UPDATE.\<close>

definition update_artifacts ::
  "(artifact list \<Rightarrow> bool) \<Rightarrow> (artifact \<Rightarrow> bool) \<Rightarrow> int \<Rightarrow> artifact list \<Rightarrow> (nat \<times> artifact list) option" where
  "update_artifacts keys_ok hit turn arts =
     (let arts' = map (\<lambda>a. if hit a then a\<lparr>art_turn := turn\<rparr> else a) arts
      in if keys_ok arts' then Some (length (filter hit arts), arts') else None)"

fun stage_artifacts ::
  "(artifact list \<Rightarrow> bool) \<Rightarrow> string \<Rightarrow> int \<Rightarrow> turn_mapping \<Rightarrow> artifact list \<Rightarrow>
     (nat \<times> (int \<times> nat) list \<times> artifact list) option" where
  "stage_artifacts keys_ok owner staged [] arts = Some (0, [], arts)"
| "stage_artifacts keys_ok owner staged (((ns, old), new) # m) arts =
     (case update_artifacts keys_ok (\<lambda>a. art_sql_namespace owner a = ns \<and> art_turn a = old) staged arts of
        None \<Rightarrow> None
      | Some (n, arts') \<Rightarrow>
          (case stage_artifacts keys_ok owner (staged - 1) m arts' of
             None \<Rightarrow> None
           | Some (n', stages, arts'') \<Rightarrow> Some (n + n', (staged, new) # stages, arts'')))"

fun finalize_artifacts ::
  "(artifact list \<Rightarrow> bool) \<Rightarrow> (int \<times> nat) list \<Rightarrow> artifact list \<Rightarrow> (nat \<times> artifact list) option" where
  "finalize_artifacts keys_ok [] arts = Some (0, arts)"
| "finalize_artifacts keys_ok ((staged, new) # stages) arts =
     (case update_artifacts keys_ok (\<lambda>a. art_turn a = staged) (int new) arts of
        None \<Rightarrow> None
      | Some (n, arts') \<Rightarrow>
          (case finalize_artifacts keys_ok stages arts' of
             None \<Rightarrow> None | Some (n', arts'') \<Rightarrow> Some (n + n', arts'')))"

definition min_turn :: "artifact list \<Rightarrow> int" where
  "min_turn arts = (if arts = [] then 0 else Min (art_turn ` set arts))"

definition remap_artifacts ::
  "(artifact list \<Rightarrow> bool) \<Rightarrow> int \<Rightarrow> string \<Rightarrow> turn_mapping \<Rightarrow> nat \<Rightarrow> artifact list \<Rightarrow>
     reseq_error + artifact list" where
  "remap_artifacts keys_ok bottom owner mapping expected arts =
     (case stage_artifacts keys_ok owner (min bottom (min_turn arts - int (length mapping) - 1)) mapping arts of
        None \<Rightarrow> Inl UniqueViolation
      | Some (n, stages, arts') \<Rightarrow>
          if n \<noteq> expected then Inl StagingLost
          else (case finalize_artifacts keys_ok stages arts' of
                  None \<Rightarrow> Inl UniqueViolation
                | Some (n', arts'') \<Rightarrow> if n' \<noteq> expected then Inl StagingLost else Inr arts''))"

text \<open>\<open>PRIMARY KEY (conversation_id, turn_number, tool_output_ref)\<close>; a chain has its own key.\<close>

definition tool_keys_ok :: "artifact list \<Rightarrow> bool" where
  "tool_keys_ok arts \<longleftrightarrow> distinct (map (\<lambda>a. (art_turn a, art_ref a)) arts)"

section \<open>The operation\<close>

definition lookup_row :: "reseq_row list \<Rightarrow> string \<Rightarrow> reseq_row option" where
  "lookup_row rows cid = map_of (map (\<lambda>r. (rq_id r, r)) rows) cid"

definition mk_report ::
  "bool \<Rightarrow> assignment list \<Rightarrow> reseq_row list \<Rightarrow> nat \<times> nat \<Rightarrow> nat \<times> nat \<Rightarrow> nat \<times> nat \<times> nat \<Rightarrow> reseq_report" where
  "mk_report dry asg rows tools chain_counts derived =
     \<lparr>rp_rows = length rows, rp_turns = length (remdups (map asg_turn asg)),
      rp_changed_groups = length (filter (\<lambda>a. rq_group (the (lookup_row rows (asg_id a))) \<noteq> int (asg_turn a)) asg),
      rp_changed_keys = length (filter (\<lambda>a. rq_sort_key (the (lookup_row rows (asg_id a))) \<noteq> asg_key a) asg),
      rp_tools = fst tools, rp_tools_unmapped = snd tools,
      rp_chains = fst chain_counts, rp_chains_unmapped = snd chain_counts,
      rp_derived = derived, rp_dry_run = dry\<rparr>"

definition resequence_canonical_turns ::
  "(string \<Rightarrow> nat option) \<Rightarrow> string \<Rightarrow> string \<Rightarrow> string \<Rightarrow> int \<Rightarrow> bool \<Rightarrow> reseq_db \<Rightarrow>
     reseq_error + (reseq_report \<times> reseq_db)" where
  "resequence_canonical_turns parse now conversation_id tenant_id epoch dry_run db =
     (let owner = strip conversation_id; tenant = strip tenant_id
      in case reseq_guard owner tenant epoch db of
        Some e \<Rightarrow> Inl e
      | None \<Rightarrow>
          (let rows = order_rows (db_rows db);
               (asg, mapping) = plan_canonical_resequence parse owner rows;
               (tool_rows, tool_mapping, tool_missing) = artifact_plan owner mapping (db_tools db);
               (chain_rows, chain_mapping, chain_missing) = artifact_plan owner mapping (db_chains db);
               report = mk_report dry_run asg rows (length tool_rows, tool_missing)
                          (length chain_rows, chain_missing) (db_derived db)
           in if dry_run then Inr (report, db)
              else if db_derived db \<noteq> (0, 0, 0) then Inl DerivedDataPresent
              else if tool_missing \<noteq> 0 \<or> chain_missing \<noteq> 0 then Inl ArtifactsUnmapped
              else case write_assignments now asg (db_rows db) of
                     None \<Rightarrow> Inl UniqueViolation
                   | Some rows' \<Rightarrow>
                       (case remap_artifacts tool_keys_ok (-1000000) owner tool_mapping
                               (length tool_rows) (db_tools db) of
                          Inl e \<Rightarrow> Inl e
                        | Inr tools' \<Rightarrow>
                            (case remap_artifacts (\<lambda>_. True) (-2000000) owner chain_mapping
                                    (length chain_rows) (db_chains db) of
                               Inl e \<Rightarrow> Inl e
                             | Inr chains' \<Rightarrow>
                                 Inr (report, db\<lparr>db_rows := rows', db_tools := tools',
                                                db_chains := chains', db_engine_state := False\<rparr>)))))"

section \<open>The two passes over the turns\<close>

fun apply_updates :: "(string \<times> (reseq_row \<Rightarrow> reseq_row)) list \<Rightarrow> reseq_row \<Rightarrow> reseq_row" where
  "apply_updates [] r = r"
| "apply_updates ((cid, f) # us) r = apply_updates us (if rq_id r = cid then f r else r)"

lemma update_by_id_ok:
  assumes "distinct (map rq_id rows)" "distinct (map rq_sort_key rows)"
    and "\<And>r. rq_sort_key (f r) = v"
    and "\<And>r. r \<in> set rows \<Longrightarrow> rq_id r \<noteq> cid \<Longrightarrow> rq_sort_key r \<noteq> v"
  shows "update_by_id cid f rows = Some (map (\<lambda>r. if rq_id r = cid then f r else r) rows)"
proof -
  have inj: "inj_on (\<lambda>r. rq_sort_key (if rq_id r = cid then f r else r)) (set rows)"
  proof (rule inj_onI)
    fix r s
    assume rs: "r \<in> set rows" "s \<in> set rows"
      "rq_sort_key (if rq_id r = cid then f r else r) = rq_sort_key (if rq_id s = cid then f s else s)"
    have "rq_id r = rq_id s \<or> rq_sort_key r = rq_sort_key s"
      using rs assms(3) assms(4)[OF rs(1)] assms(4)[OF rs(2)] by (auto split: if_splits)
    then show "r = s" using rs(1,2) assms(1,2) by (auto simp: distinct_map inj_on_def)
  qed
  then have "distinct (map rq_sort_key (map (\<lambda>r. if rq_id r = cid then f r else r) rows))"
    using assms(1) by (simp add: distinct_map comp_def)
  then show ?thesis by (simp add: update_by_id_def Let_def)
qed

text \<open>The first pass: every new key lies below all keys in use.\<close>

lemma stage_updates_ok:
  assumes "distinct (map rq_id rows)" "distinct (map rq_sort_key rows)" "\<And>r. r \<in> set rows \<Longrightarrow> k < rq_sort_key r"
  shows "\<exists>rows'. update_all (stage_updates k asg) rows = Some rows'
    \<and> rows' = map (apply_updates (stage_updates k asg)) rows
    \<and> map rq_id rows' = map rq_id rows \<and> distinct (map rq_sort_key rows')"
  using assms
proof (induction asg arbitrary: k rows)
  case (Cons a asg)
  define rs where "rs = map (\<lambda>r. if rq_id r = asg_id a then r\<lparr>rq_sort_key := k\<rparr> else r) rows"
  have u: "update_by_id (asg_id a) (\<lambda>r. r\<lparr>rq_sort_key := k\<rparr>) rows = Some rs"
    unfolding rs_def using Cons.prems by (intro update_by_id_ok[where v = k]) auto
  then have d: "distinct (map rq_sort_key rs)" by (auto simp: update_by_id_def Let_def split: if_splits)
  have i: "map rq_id rs = map rq_id rows" by (auto simp: rs_def)
  have l: "k - 1000 < rq_sort_key r" if "r \<in> set rs" for r
    using that Cons.prems(3) by (fastforce simp: rs_def split: if_splits)
  have "\<exists>rows'. update_all (stage_updates (k - 1000) asg) rs = Some rows'
      \<and> rows' = map (apply_updates (stage_updates (k - 1000) asg)) rs
      \<and> map rq_id rows' = map rq_id rs \<and> distinct (map rq_sort_key rows')"
    by (rule Cons.IH) (use Cons.prems(1) i d l in simp_all)
  then obtain rows' where r: "update_all (stage_updates (k - 1000) asg) rs = Some rows'"
    "rows' = map (apply_updates (stage_updates (k - 1000) asg)) rs"
    "map rq_id rows' = map rq_id rs" "distinct (map rq_sort_key rows')" by blast
  have "update_all (stage_updates k (a # asg)) rows = Some rows'" using u r(1) by simp
  moreover have "rows' = map (apply_updates (stage_updates k (a # asg))) rows"
    unfolding r(2) rs_def by simp
  ultimately show ?case using r(3,4) i by metis
qed (simp add: map_idI)

lemma stage_updates_key:
  "rq_id (apply_updates (stage_updates k asg) r) = rq_id r
   \<and> (rq_id r \<in> asg_id ` set asg \<longrightarrow> rq_sort_key (apply_updates (stage_updates k asg) r) \<le> k)
   \<and> (rq_id r \<notin> asg_id ` set asg \<longrightarrow> apply_updates (stage_updates k asg) r = r)"
proof (induction asg arbitrary: k r)
  case (Cons a asg)
  show ?case
    using Cons[of "k - 1000" "if rq_id r = asg_id a then r\<lparr>rq_sort_key := k\<rparr> else r"]
    by (cases "rq_id r \<in> asg_id ` set asg") (auto intro: order_trans)
qed simp

text \<open>The second pass: the row being written is the only one at or above its new key.\<close>

lemma final_updates_ok:
  assumes "distinct (map rq_id rows)" "distinct (map rq_sort_key rows)" "sorted_wrt (<) (map asg_key asg)"
    and "asg = [] \<or> (\<forall>r\<in>set rows. rq_id r \<noteq> asg_id (hd asg) \<longrightarrow> rq_sort_key r < asg_key (hd asg))"
  shows "update_all (map (\<lambda>a. (asg_id a, final_row now a)) asg) rows
    = Some (map (apply_updates (map (\<lambda>a. (asg_id a, final_row now a)) asg)) rows)"
  using assms
proof (induction asg arbitrary: rows)
  case (Cons a asg)
  define rs where "rs = map (\<lambda>r. if rq_id r = asg_id a then final_row now a r else r) rows"
  have u: "update_by_id (asg_id a) (final_row now a) rows = Some rs"
    unfolding rs_def
    using Cons.prems by (intro update_by_id_ok[where v = "asg_key a"]) (auto simp: final_row_def)
  then have d: "distinct (map rq_sort_key rs)" by (auto simp: update_by_id_def Let_def split: if_splits)
  have i: "map rq_id rs = map rq_id rows" by (auto simp: rs_def final_row_def)
  have b: "rq_sort_key r \<le> asg_key a" if "r \<in> set rs" for r
    using that Cons.prems(4) by (auto simp: rs_def final_row_def less_imp_le split: if_splits)
  have "asg = [] \<or> (\<forall>r\<in>set rs. rq_id r \<noteq> asg_id (hd asg) \<longrightarrow> rq_sort_key r < asg_key (hd asg))"
    using b Cons.prems(3) by (cases asg) (auto intro: le_less_trans)
  then have "update_all (map (\<lambda>a. (asg_id a, final_row now a)) asg) rs
      = Some (map (apply_updates (map (\<lambda>a. (asg_id a, final_row now a)) asg)) rs)"
    by (intro Cons.IH) (use Cons.prems(1,3) i d in simp_all)
  with u show ?case by (simp add: rs_def)
qed (simp add: map_idI)

lemma update_all_append:
  "update_all (us @ vs) rows = (case update_all us rows of None \<Rightarrow> None | Some rows' \<Rightarrow> update_all vs rows')"
  by (induction us rows rule: update_all.induct) (auto split: option.splits)

lemma apply_updates_final:
  "distinct (map asg_id asg) \<Longrightarrow>
     apply_updates (map (\<lambda>a. (asg_id a, final_row now a)) asg) r
     = (case map_of (map (\<lambda>a. (asg_id a, a)) asg) (rq_id r) of None \<Rightarrow> r | Some a \<Rightarrow> final_row now a r)"
proof (induction asg arbitrary: r)
  case (Cons a asg)
  have "map_of (map (\<lambda>a. (asg_id a, a)) asg) (asg_id a) = None"
    using Cons.prems by (auto simp: map_of_eq_None_iff)
  then show ?case using Cons by (auto simp: final_row_def)
qed simp

definition assigned_row :: "string \<Rightarrow> assignment list \<Rightarrow> reseq_row \<Rightarrow> reseq_row" where
  "assigned_row now asg r =
     (case map_of (map (\<lambda>a. (asg_id a, a)) asg) (rq_id r) of None \<Rightarrow> r | Some a \<Rightarrow> final_row now a r)"

text \<open>What the staging needs of the stored keys: the smallest is not too far above the new ones.\<close>

definition staging_fits :: "reseq_row list \<Rightarrow> bool" where
  "staging_fits rows \<longleftrightarrow> rows = [] \<or> Min (rq_sort_key ` set rows) \<le> 1000 * (of_nat (length rows) + 2)"

lemma stage_updates_row: "\<exists>v. apply_updates (stage_updates k asg) r = r\<lparr>rq_sort_key := v\<rparr>"
proof (induction asg arbitrary: k r)
  case Nil
  show ?case by (rule exI[of _ "rq_sort_key r"]) simp
next
  case (Cons x xs)
  obtain v where v: "apply_updates (stage_updates (k - 1000) xs) (if rq_id r = asg_id x then r\<lparr>rq_sort_key := k\<rparr> else r)
      = (if rq_id r = asg_id x then r\<lparr>rq_sort_key := k\<rparr> else r)\<lparr>rq_sort_key := v\<rparr>"
    using Cons by blast
  show ?case by (rule exI[of _ v]) (simp add: v)
qed

lemma assignment_of: "i \<in> asg_id ` set asg \<Longrightarrow> \<exists>b. map_of (map (\<lambda>a. (asg_id a, a)) asg) i = Some b"
  by (induction asg) auto

lemma write_assignments_ok:
  assumes ids: "distinct (map rq_id rows)" "distinct (map rq_sort_key rows)"
    and asg: "distinct (map asg_id asg)" "asg_id ` set asg = rq_id ` set rows" "length asg = length rows"
    and keys: "map asg_key asg = map (\<lambda>k. of_nat (Suc k) * 1000) [0..<length rows]"
    and fits: "staging_fits rows"
  shows "write_assignments now asg rows = Some (map (assigned_row now asg) rows)"
proof (cases asg)
  case Nil
  then show ?thesis by (simp add: write_assignments_def assigned_row_def map_idI)
next
  case (Cons a rest)
  have asg_ne: "asg \<noteq> []" using Cons by simp
  have ne: "rows \<noteq> []" using Cons asg(3) by auto
  define k where "k = stage_base asg rows"
  have below: "k < rq_sort_key r" if "r \<in> set rows" for r
  proof -
    have "Min (rq_sort_key ` set rows) \<le> rq_sort_key r" using that by simp
    moreover have "(0::rat) < (of_nat (length asg) + 1) * 1000" by simp
    ultimately show ?thesis unfolding k_def stage_base_def by linarith
  qed
  have k1000: "k \<le> 1000"
    using fits ne asg(3) by (simp add: staging_fits_def k_def stage_base_def algebra_simps)
  define staged where "staged = map (apply_updates (stage_updates k asg)) rows"
  have st: "update_all (stage_updates k asg) rows = Some staged"
    "map rq_id staged = map rq_id rows" "distinct (map rq_sort_key staged)"
    using stage_updates_ok[OF ids below, of asg] by (auto simp: staged_def)
  have low: "rq_sort_key r \<le> k - 1000" if "r \<in> set staged" "rq_id r \<noteq> asg_id a" for r
  proof -
    have "r \<in> apply_updates (stage_updates k asg) ` set rows" using that(1) by (simp add: staged_def)
    then obtain s where s: "s \<in> set rows" "r = apply_updates (stage_updates k asg) s" by blast
    have id: "rq_id s \<noteq> asg_id a" using that(2) s(2) stage_updates_key by metis
    have "rq_id s \<in> asg_id ` set asg" using s(1) unfolding asg(2) by blast
    with id have "rq_id s \<in> asg_id ` set rest" by (auto simp: Cons)
    then show ?thesis
      using id s(2) stage_updates_key[of "k - 1000" rest s] by (simp add: Cons)
  qed
  have a_key: "asg_key a = 1000" and sorted: "sorted_wrt (<) (map asg_key asg)"
  proof -
    have "map asg_key asg ! 0 = 1000" unfolding keys using ne by (simp add: nth_map_upt)
    then show "asg_key a = 1000" by (simp add: Cons)
    show "sorted_wrt (<) (map asg_key asg)" unfolding keys by (auto simp: sorted_wrt_iff_nth_less)
  qed
  have "\<forall>r\<in>set staged. rq_id r \<noteq> asg_id (hd asg) \<longrightarrow> rq_sort_key r < asg_key (hd asg)"
    using low k1000 a_key by (fastforce simp: Cons)
  then have fin: "update_all (map (\<lambda>a. (asg_id a, final_row now a)) asg) staged
      = Some (map (apply_updates (map (\<lambda>a. (asg_id a, final_row now a)) asg)) staged)"
    using final_updates_ok[OF _ st(3) sorted] st(2) ids(1) by simp
  have "apply_updates (map (\<lambda>a. (asg_id a, final_row now a)) asg) (apply_updates (stage_updates k asg) r)
      = assigned_row now asg r" if "r \<in> set rows" for r
  proof -
    have "rq_id r \<in> asg_id ` set asg" using that unfolding asg(2) by blast
    then obtain b where b: "map_of (map (\<lambda>a. (asg_id a, a)) asg) (rq_id r) = Some b"
      using assignment_of by blast
    obtain v where "apply_updates (stage_updates k asg) r = r\<lparr>rq_sort_key := v\<rparr>"
      using stage_updates_row by blast
    then show ?thesis
      using b by (simp add: apply_updates_final[OF asg(1)] assigned_row_def final_row_def)
  qed
  then have "map (apply_updates (map (\<lambda>a. (asg_id a, final_row now a)) asg)) staged = map (assigned_row now asg) rows"
    by (simp add: staged_def)
  then show ?thesis
    unfolding write_assignments_def update_all_append k_def[symmetric]
    using asg_ne st(1) fin by simp
qed

section \<open>The two passes over the artifacts\<close>

text \<open>The stages as data: where an artifact is parked, and where a parked turn goes.\<close>

fun parked :: "string \<Rightarrow> int \<Rightarrow> turn_mapping \<Rightarrow> artifact \<Rightarrow> artifact" where
  "parked owner staged [] a = a"
| "parked owner staged (((ns, old), new) # m) a =
     (if art_sql_namespace owner a = ns \<and> art_turn a = old then a\<lparr>art_turn := staged\<rparr>
      else parked owner (staged - 1) m a)"

fun stages_of :: "int \<Rightarrow> turn_mapping \<Rightarrow> (int \<times> nat) list" where
  "stages_of staged [] = []"
| "stages_of staged ((k, new) # m) = (staged, new) # stages_of (staged - 1) m"

fun final_turn :: "(int \<times> nat) list \<Rightarrow> int \<Rightarrow> int" where
  "final_turn [] t = t"
| "final_turn ((staged, new) # stages) t = final_turn stages (if t = staged then int new else t)"

definition art_key :: "string \<Rightarrow> artifact \<Rightarrow> string \<times> int" where
  "art_key owner a = (art_sql_namespace owner a, art_turn a)"

definition renumbered :: "string \<Rightarrow> turn_mapping \<Rightarrow> artifact \<Rightarrow> artifact" where
  "renumbered owner m a = (case map_of m (art_key owner a) of None \<Rightarrow> a | Some t \<Rightarrow> a\<lparr>art_turn := int t\<rparr>)"

definition mapping_ok :: "turn_mapping \<Rightarrow> bool" where
  "mapping_ok m \<longleftrightarrow> distinct (map fst m) \<and> list_all (\<lambda>((ns, old), new). 0 \<le> old) m"

lemma mapping_ok_Cons:
  "mapping_ok (((ns, old), new) # m) \<longleftrightarrow> mapping_ok m \<and> 0 \<le> old \<and> (ns, old) \<notin> fst ` set m"
  by (auto simp: mapping_ok_def)

lemma mapping_ok_key: "mapping_ok m \<Longrightarrow> (ns, t) \<in> fst ` set m \<Longrightarrow> 0 \<le> t"
  by (auto simp: mapping_ok_def list_all_iff)

text \<open>Staged turns are the negative numbers from \<open>staged\<close> downwards; final turns are not negative.\<close>

lemma stages_of_staged: "(s, n) \<in> set (stages_of staged m) \<Longrightarrow> s \<le> staged"
  by (induction staged m rule: stages_of.induct) force+

lemma final_turn_other: "t \<notin> fst ` set stages \<Longrightarrow> final_turn stages t = t"
  by (induction stages) auto

lemma final_turn_nonneg: "staged < 0 \<Longrightarrow> 0 \<le> t \<Longrightarrow> final_turn (stages_of staged m) t = t"
  by (rule final_turn_other) (use stages_of_staged in fastforce)

lemma final_parked:
  assumes "mapping_ok m" "staged < 0" "staged < art_turn a"
  shows "(parked owner staged m a)\<lparr>art_turn := final_turn (stages_of staged m) (art_turn (parked owner staged m a))\<rparr>
      = renumbered owner m a
    \<and> (art_turn (parked owner staged m a) \<in> fst ` set (stages_of staged m) \<longleftrightarrow> art_key owner a \<in> fst ` set m)
    \<and> (art_turn (parked owner staged m a) = art_turn a \<or> art_turn (parked owner staged m a) \<le> staged)"
  using assms
proof (induction m arbitrary: staged)
  case (Cons e m)
  obtain ns old new where e: "e = ((ns, old), new)" by (cases e) auto
  have ok: "mapping_ok m" "0 \<le> old" "(ns, old) \<notin> fst ` set m"
    using Cons.prems(1) by (simp_all add: e mapping_ok_Cons)
  show ?case
  proof (cases "art_sql_namespace owner a = ns \<and> art_turn a = old")
    case True
    have "final_turn (stages_of (staged - 1) m) (int new) = int new"
      using Cons.prems(2) by (intro final_turn_nonneg) auto
    then show ?thesis using True by (simp add: e renumbered_def art_key_def)
  next
    case False
    let ?p = "parked owner (staged - 1) m a"
    have ih: "?p\<lparr>art_turn := final_turn (stages_of (staged - 1) m) (art_turn ?p)\<rparr> = renumbered owner m a"
      "art_turn ?p \<in> fst ` set (stages_of (staged - 1) m) \<longleftrightarrow> art_key owner a \<in> fst ` set m"
      "art_turn ?p = art_turn a \<or> art_turn ?p \<le> staged - 1"
      using Cons.IH[OF ok(1), of "staged - 1"] Cons.prems(2,3) by auto
    have "art_turn ?p \<noteq> staged" using ih(3) Cons.prems(3) by auto
    then show ?thesis using ih False by (auto simp: e renumbered_def art_key_def)
  qed
qed (simp add: renumbered_def)

text \<open>
  What the passes need of a table's constraint: moving the rows of one turn to an unused number
  keeps it, and rows that collide keep colliding when turns are renamed.
\<close>

locale artifact_table =
  fixes keys_ok :: "artifact list \<Rightarrow> bool"
  assumes keys_fresh: "keys_ok arts \<Longrightarrow> (\<And>a. a \<in> set arts \<Longrightarrow> hit a \<Longrightarrow> art_turn a = old) \<Longrightarrow>
      (\<And>a. a \<in> set arts \<Longrightarrow> art_turn a \<noteq> t) \<Longrightarrow>
      keys_ok (map (\<lambda>a. if hit a then a\<lparr>art_turn := t\<rparr> else a) arts)"
    and keys_image: "keys_ok (map (\<lambda>a. a\<lparr>art_turn := f (art_turn a)\<rparr>) arts) \<Longrightarrow> keys_ok arts"
begin

lemma stage_artifacts_ok:
  assumes "keys_ok arts" "mapping_ok m" "staged < 0" "\<And>a. a \<in> set arts \<Longrightarrow> staged < art_turn a"
  shows "stage_artifacts keys_ok owner staged m arts
    = Some (length (filter (\<lambda>a. art_key owner a \<in> fst ` set m) arts), stages_of staged m,
            map (parked owner staged m) arts)"
  using assms
proof (induction m arbitrary: arts staged)
  case (Cons e m)
  obtain ns old new where e: "e = ((ns, old), new)" by (cases e) auto
  have ok: "mapping_ok m" "0 \<le> old" "(ns, old) \<notin> fst ` set m"
    using Cons.prems(2) by (simp_all add: e mapping_ok_Cons)
  let ?hit = "\<lambda>a. art_sql_namespace owner a = ns \<and> art_turn a = old"
  define as where "as = map (\<lambda>a. if ?hit a then a\<lparr>art_turn := staged\<rparr> else a) arts"
  have keys: "keys_ok as"
    unfolding as_def using Cons.prems(4) by (intro keys_fresh[where old = old] Cons.prems(1)) auto
  have low: "staged - 1 < art_turn a" if "a \<in> set as" for a
    using that Cons.prems(4) by (fastforce simp: as_def split: if_splits)
  have neg: "(ns', staged) \<notin> fst ` set m" for ns'
    using mapping_ok_key[OF ok(1)] Cons.prems(3) by fastforce
  have "length (filter ?hit arts) + length (filter (\<lambda>a. art_key owner a \<in> fst ` set m) as)
      = length (filter (\<lambda>a. art_key owner a \<in> fst ` set (e # m)) arts)"
    unfolding as_def using ok(3) neg
    by (induction arts) (auto simp: e art_key_def art_sql_namespace_def)
  moreover have "map (parked owner (staged - 1) m) as = map (parked owner staged (e # m)) arts"
  proof -
    have "parked owner (staged - 1) m (a\<lparr>art_turn := staged\<rparr>) = a\<lparr>art_turn := staged\<rparr>" for a
    proof -
      have "parked owner s m b = b" if "art_turn b < 0" for s b
        using ok(1) that by (induction m arbitrary: s) (auto simp: mapping_ok_def)
      then show ?thesis using Cons.prems(3) by simp
    qed
    then show ?thesis by (auto simp: as_def e)
  qed
  moreover have "update_artifacts keys_ok ?hit staged arts = Some (length (filter ?hit arts), as)"
    using keys by (simp add: update_artifacts_def as_def)
  moreover have "staged - 1 < 0" using Cons.prems(3) by simp
  ultimately show ?case
    using Cons.IH[OF keys ok(1) _ low] by (simp add: e)
qed (simp add: map_idI)

lemma finalize_artifacts_ok:
  assumes "keys_ok (map (\<lambda>a. a\<lparr>art_turn := final_turn stages (art_turn a)\<rparr>) arts)"
    and "distinct (map fst stages)" "list_all (\<lambda>(s, n). s < 0) stages"
  shows "finalize_artifacts keys_ok stages arts
    = Some (length (filter (\<lambda>a. art_turn a \<in> fst ` set stages) arts),
            map (\<lambda>a. a\<lparr>art_turn := final_turn stages (art_turn a)\<rparr>) arts)"
  using assms
proof (induction stages arbitrary: arts)
  case (Cons e stages)
  obtain s n where e: "e = (s, n)" by (cases e)
  define as where "as = map (\<lambda>a. if art_turn a = s then a\<lparr>art_turn := int n\<rparr> else a) arts"
  have im: "map (\<lambda>a. a\<lparr>art_turn := final_turn stages (art_turn a)\<rparr>) as
      = map (\<lambda>a. a\<lparr>art_turn := final_turn (e # stages) (art_turn a)\<rparr>) arts"
    by (simp add: as_def e)
  have fin: "keys_ok (map (\<lambda>a. a\<lparr>art_turn := final_turn stages (art_turn a)\<rparr>) as)"
    unfolding im by (rule Cons.prems(1))
  have keys: "keys_ok as" by (rule keys_image[OF fin])
  have neg: "int n \<notin> fst ` set stages" using Cons.prems(3) by (fastforce simp: list_all_iff)
  have s: "s \<notin> fst ` set stages" using Cons.prems(2) by (simp add: e)
  have "length (filter (\<lambda>a. art_turn a = s) arts) + length (filter (\<lambda>a. art_turn a \<in> fst ` set stages) as)
      = length (filter (\<lambda>a. art_turn a \<in> fst ` set (e # stages)) arts)"
    unfolding as_def using neg s by (induction arts) (auto simp: e)
  moreover have "update_artifacts keys_ok (\<lambda>a. art_turn a = s) (int n) arts
      = Some (length (filter (\<lambda>a. art_turn a = s) arts), as)"
    using keys by (simp add: update_artifacts_def as_def)
  ultimately show ?case
    using Cons.IH[OF fin] Cons.prems(2,3) im by (simp add: e)
qed simp

lemma stages_distinct: "distinct (map fst (stages_of staged m))"
proof (induction staged m rule: stages_of.induct)
  case (2 staged k new m)
  then show ?case using stages_of_staged[of _ _ "staged - 1" m] by force
qed simp

text \<open>Together the two passes renumber every artifact directly.\<close>

lemma remap_artifacts_ok:
  assumes keys: "keys_ok arts" "keys_ok (map (renumbered owner m) arts)" and m: "mapping_ok m"
    and bottom: "bottom < 0"
    and expected: "expected = length (filter (\<lambda>a. art_key owner a \<in> fst ` set m) arts)"
  shows "remap_artifacts keys_ok bottom owner m expected arts = Inr (map (renumbered owner m) arts)"
proof -
  define staged where "staged = min bottom (min_turn arts - int (length m) - 1)"
  have neg: "staged < 0" using bottom by (simp add: staged_def)
  have low: "staged < art_turn a" if "a \<in> set arts" for a
  proof -
    have "min_turn arts \<le> art_turn a" using that by (auto simp: min_turn_def)
    then show ?thesis by (simp add: staged_def)
  qed
  note fp = final_parked[OF m neg low]
  let ?ps = "map (parked owner staged m) arts"
  have im: "map (\<lambda>a. a\<lparr>art_turn := final_turn (stages_of staged m) (art_turn a)\<rparr>) ?ps
      = map (renumbered owner m) arts"
    using fp by simp
  have "length (filter (\<lambda>a. art_turn a \<in> fst ` set (stages_of staged m)) ?ps) = expected"
    unfolding expected using fp by (simp add: filter_map comp_def cong: filter_cong)
  moreover have "list_all (\<lambda>(s, n). s < 0) (stages_of staged m)"
    using stages_of_staged neg by (fastforce simp: list_all_iff)
  ultimately have "finalize_artifacts keys_ok (stages_of staged m) ?ps
      = Some (expected, map (renumbered owner m) arts)"
    using finalize_artifacts_ok[of "stages_of staged m" ?ps, unfolded im, OF keys(2) stages_distinct] by simp
  then show ?thesis
    using stage_artifacts_ok[OF keys(1) m neg low, of owner]
    by (simp add: remap_artifacts_def expected flip: staged_def)
qed

end

interpretation tool_table: artifact_table tool_keys_ok
proof unfold_locales
  fix arts t old and hit :: "artifact \<Rightarrow> bool"
  assume d: "tool_keys_ok arts" and h: "\<And>a. a \<in> set arts \<Longrightarrow> hit a \<Longrightarrow> art_turn a = old"
    and t: "\<And>a. a \<in> set arts \<Longrightarrow> art_turn a \<noteq> t"
  from d h t show "tool_keys_ok (map (\<lambda>a. if hit a then a\<lparr>art_turn := t\<rparr> else a) arts)"
    by (auto simp: tool_keys_ok_def distinct_map inj_on_def comp_def)
next
  fix f and arts
  assume d: "tool_keys_ok (map (\<lambda>a. a\<lparr>art_turn := f (art_turn a)\<rparr>) arts)"
  have "map (\<lambda>a. (art_turn a, art_ref a)) (map (\<lambda>a. a\<lparr>art_turn := f (art_turn a)\<rparr>) arts)
      = map (map_prod f id) (map (\<lambda>a. (art_turn a, art_ref a)) arts)" by simp
  with d show "tool_keys_ok arts" unfolding tool_keys_ok_def by (metis distinct_map)
qed

interpretation chain_table: artifact_table "\<lambda>_. True"
  by unfold_locales simp_all

section \<open>The whole operation\<close>

text \<open>An artifact moved to the turn the plan gives its namespace and number.\<close>

definition moved :: "string \<Rightarrow> turn_mapping \<Rightarrow> artifact \<Rightarrow> artifact" where
  "moved owner mapping a =
     (if art_turn a < 0 then a
      else a\<lparr>art_turn := int (the (map_of mapping (art_namespace owner a, art_turn a)))\<rparr>)"

definition artifacts_mapped :: "string \<Rightarrow> turn_mapping \<Rightarrow> artifact list \<Rightarrow> bool" where
  "artifacts_mapped owner mapping arts \<longleftrightarrow>
     list_all (\<lambda>a. strip (art_origin a) = sql_trim (art_origin a)) arts
     \<and> list_all (\<lambda>a. art_turn a < 0 \<or> map_of mapping (art_namespace owner a, art_turn a) \<noteq> None) arts"

lemma artifact_plan_ok:
  assumes "artifacts_mapped owner mapping arts"
    and plan: "artifact_plan owner mapping arts = (rows, m, missing)"
  shows "rows = filter (\<lambda>a. art_turn a \<ge> 0) arts" "missing = 0" "mapping_ok m"
    "length rows = length (filter (\<lambda>a. art_key owner a \<in> fst ` set m) arts)"
    "map (renumbered owner m) arts = map (moved owner mapping) arts"
proof -
  let ?g = "\<lambda>k. the (map_of mapping k)"
  have key: "art_key owner a = (art_namespace owner a, art_turn a)" if "a \<in> set arts" for a
    using assms(1) that
    by (simp add: artifacts_mapped_def art_key_def art_sql_namespace_def art_namespace_def list_all_iff)
  show rows: "rows = filter (\<lambda>a. art_turn a \<ge> 0) arts"
    using plan by (simp add: artifact_plan_def Let_def)
  have known: "filter (\<lambda>a. map_of mapping (art_namespace owner a, art_turn a) \<noteq> None)
      (filter (\<lambda>a. art_turn a \<ge> 0) arts) = filter (\<lambda>a. art_turn a \<ge> 0) arts"
    using assms(1) by (intro filter_True) (fastforce simp: artifacts_mapped_def list_all_iff)
  have "m = sort (remdups (map (\<lambda>a. ((art_namespace owner a, art_turn a), ?g (art_namespace owner a, art_turn a))) rows))"
    and missing: "missing = 0"
    using plan unfolding artifact_plan_def Let_def known rows by auto
  moreover have "map (\<lambda>a. ((art_namespace owner a, art_turn a), ?g (art_namespace owner a, art_turn a))) rows
      = map (\<lambda>k. (k, ?g k)) (map (art_key owner) rows)"
    using key by (simp add: rows)
  ultimately have m: "m = sort (remdups (map (\<lambda>k. (k, ?g k)) (map (art_key owner) rows)))" by metis
  show "missing = 0" by (rule missing)
  have keys: "fst ` set m = art_key owner ` set rows" by (force simp: m)
  have "distinct m" by (simp add: m)
  moreover have gm: "x = (fst x, ?g (fst x))" if "x \<in> set m" for x using that by (auto simp: m)
  ultimately have "distinct (map fst m)" by (simp add: distinct_map inj_on_def) (metis prod.collapse prod.inject)
  then show ok: "mapping_ok m"
    using key rows by (auto simp: mapping_ok_def list_all_iff m)
  have hit: "art_key owner a \<in> fst ` set m \<longleftrightarrow> art_turn a \<ge> 0" if "a \<in> set arts" for a
    using that unfolding keys by (auto simp: rows art_key_def)
  then show "length rows = length (filter (\<lambda>a. art_key owner a \<in> fst ` set m) arts)"
    by (simp add: rows cong: filter_cong)
  have "renumbered owner m a = moved owner mapping a" if a: "a \<in> set arts" for a
  proof (cases "art_turn a \<ge> 0")
    case True
    then obtain t where t: "(art_key owner a, t) \<in> set m" using hit[OF a] by force
    then have "map_of m (art_key owner a) = Some (?g (art_key owner a))"
      using gm[OF t] ok by (simp add: mapping_ok_def)
    then show ?thesis using True key[OF a] by (simp add: renumbered_def moved_def)
  next
    case False
    then have "map_of m (art_key owner a) = None" using hit[OF a] by (simp add: map_of_eq_None_iff)
    then show ?thesis using False by (simp add: renumbered_def moved_def)
  qed
  then show "map (renumbered owner m) arts = map (moved owner mapping) arts" by simp
qed

definition reseq_ready :: "(string \<Rightarrow> nat option) \<Rightarrow> string \<Rightarrow> reseq_db \<Rightarrow> bool" where
  "reseq_ready parse owner db \<longleftrightarrow>
     (let mapping = snd (plan_canonical_resequence parse owner (order_rows (db_rows db)))
      in distinct (map rq_id (db_rows db)) \<and> distinct (map rq_sort_key (db_rows db))
         \<and> staging_fits (db_rows db) \<and> db_derived db = (0, 0, 0)
         \<and> artifacts_mapped owner mapping (db_tools db) \<and> artifacts_mapped owner mapping (db_chains db)
         \<and> tool_keys_ok (db_tools db) \<and> tool_keys_ok (map (moved owner mapping) (db_tools db)))"

definition resequenced :: "(string \<Rightarrow> nat option) \<Rightarrow> string \<Rightarrow> string \<Rightarrow> reseq_db \<Rightarrow> reseq_db" where
  "resequenced parse now owner db =
     (let (asg, mapping) = plan_canonical_resequence parse owner (order_rows (db_rows db))
      in db\<lparr>db_rows := map (assigned_row now asg) (db_rows db),
            db_tools := map (moved owner mapping) (db_tools db),
            db_chains := map (moved owner mapping) (db_chains db), db_engine_state := False\<rparr>)"

lemma plan_facts:
  fixes rows :: "reseq_row list" and parse :: "string \<Rightarrow> nat option" and owner :: string
  assumes "distinct (map rq_id rows)"
  defines "asg \<equiv> fst (plan_canonical_resequence parse owner (order_rows rows))"
  shows "distinct (map asg_id asg)" "asg_id ` set asg = rq_id ` set rows" "length asg = length rows"
    "map asg_key asg = map (\<lambda>k. of_nat (Suc k) * 1000) [0..<length rows]"
proof -
  have ms: "mset (map asg_id asg) = mset (map rq_id rows)"
    unfolding asg_def plan_ids by (simp add: order_rows_def)
  then show "distinct (map asg_id asg)" using assms(1) mset_eq_imp_distinct_iff by blast
  show "asg_id ` set asg = rq_id ` set rows" using mset_eq_setD[OF ms] by simp
  show "length asg = length rows" using mset_eq_length[OF ms] by simp
  show "map asg_key asg = map (\<lambda>k. of_nat (Suc k) * 1000) [0..<length rows]"
    unfolding asg_def plan_keys by (simp add: order_rows_def)
qed

lemma resequence_result:
  assumes guard: "reseq_guard (strip cid) (strip tid) epoch db = None"
    and ready: "reseq_ready parse (strip cid) db"
  shows "\<exists>report. resequence_canonical_turns parse now cid tid epoch False db
    = Inr (report, resequenced parse now (strip cid) db)"
proof -
  let ?owner = "strip cid"
  obtain asg mapping where plan: "plan_canonical_resequence parse ?owner (order_rows (db_rows db)) = (asg, mapping)"
    by fastforce
  obtain trows tm tmiss where tp: "artifact_plan ?owner mapping (db_tools db) = (trows, tm, tmiss)"
    by (cases "artifact_plan ?owner mapping (db_tools db)") blast
  obtain crows cm cmiss where cp: "artifact_plan ?owner mapping (db_chains db) = (crows, cm, cmiss)"
    by (cases "artifact_plan ?owner mapping (db_chains db)") blast
  have r: "distinct (map rq_id (db_rows db))" "distinct (map rq_sort_key (db_rows db))"
    "staging_fits (db_rows db)" "db_derived db = (0, 0, 0)"
    "artifacts_mapped ?owner mapping (db_tools db)" "artifacts_mapped ?owner mapping (db_chains db)"
    "tool_keys_ok (db_tools db)" "tool_keys_ok (map (moved ?owner mapping) (db_tools db))"
    using ready plan by (simp_all add: reseq_ready_def Let_def)
  note t = artifact_plan_ok[OF r(5) tp] and c = artifact_plan_ok[OF r(6) cp]
  have "write_assignments now asg (db_rows db) = Some (map (assigned_row now asg) (db_rows db))"
    using plan_facts[OF r(1), of parse ?owner] plan by (intro write_assignments_ok r) simp_all
  moreover have "remap_artifacts tool_keys_ok (-1000000) ?owner tm (length trows) (db_tools db)
      = Inr (map (moved ?owner mapping) (db_tools db))"
    using tool_table.remap_artifacts_ok[OF r(7) _ t(3) _ t(4)] r(8) unfolding t(5) by simp
  moreover have "remap_artifacts (\<lambda>_. True) (-2000000) ?owner cm (length crows) (db_chains db)
      = Inr (map (moved ?owner mapping) (db_chains db))"
    using chain_table.remap_artifacts_ok[OF _ _ c(3) _ c(4)] unfolding c(5) by simp
  ultimately show ?thesis
    using guard plan tp cp t(2) c(2) r(4)
    by (simp add: resequence_canonical_turns_def resequenced_def Let_def)
qed

lemma resequenced_order:
  assumes "reseq_ready parse owner db"
  shows "map rq_id (order_rows (db_rows (resequenced parse now owner db)))
    = map asg_id (fst (plan_canonical_resequence parse owner (order_rows (db_rows db))))"
proof -
  define asg where "asg = fst (plan_canonical_resequence parse owner (order_rows (db_rows db)))"
  let ?rows = "map (assigned_row now asg) (db_rows db)"
  have d: "distinct (map rq_id (db_rows db))" using assms by (simp add: reseq_ready_def Let_def)
  note pf = plan_facts[OF d, of parse owner, folded asg_def]
  have keyed: "\<exists>a\<in>set asg. asg_id a = rq_id r \<and> (rq_sort_key (assigned_row now asg r), rq_id (assigned_row now asg r))
      = (asg_key a, asg_id a)" if "r \<in> set (db_rows db)" for r
  proof -
    have "rq_id r \<in> asg_id ` set asg" using that unfolding pf(2) by blast
    then obtain b where b: "map_of (map (\<lambda>a. (asg_id a, a)) asg) (rq_id r) = Some b"
      using assignment_of by blast
    have "b \<in> set asg" "asg_id b = rq_id r" using map_of_SomeD[OF b] by auto
    with b show ?thesis by (auto simp: assigned_row_def final_row_def)
  qed
  have sub: "(\<lambda>r. (rq_sort_key r, rq_id r)) ` set ?rows \<subseteq> (\<lambda>a. (asg_key a, asg_id a)) ` set asg"
    using keyed by (force simp: image_iff)
  have ids: "map rq_id ?rows = map rq_id (db_rows db)"
    by (simp add: assigned_row_def final_row_def split: option.split)
  have dr: "distinct (map (\<lambda>r. (rq_sort_key r, rq_id r)) ?rows)"
    using d unfolding ids[symmetric] by (simp add: distinct_map inj_on_def)
  have da: "distinct (map (\<lambda>a. (asg_key a, asg_id a)) asg)"
    using pf(1) by (simp add: distinct_map inj_on_def)
  have "(\<lambda>r. (rq_sort_key r, rq_id r)) ` set ?rows = (\<lambda>a. (asg_key a, asg_id a)) ` set asg"
  proof (rule card_subset_eq[OF _ sub])
    show "card ((\<lambda>r. (rq_sort_key r, rq_id r)) ` set ?rows) = card ((\<lambda>a. (asg_key a, asg_id a)) ` set asg)"
      using distinct_card[OF dr] distinct_card[OF da] pf(3) by (simp add: image_image)
  qed simp
  moreover have "sorted (map (\<lambda>a. (asg_key a, asg_id a)) asg)"
  proof -
    have "sorted_wrt (<) (map asg_key asg)" unfolding pf(4) by (auto simp: sorted_wrt_iff_nth_less)
    then have "sorted_wrt (\<lambda>a b. asg_key a < asg_key b) asg" by (simp add: sorted_wrt_map)
    then show ?thesis by (simp add: sorted_map) (erule sorted_wrt_mono_rel[rotated], simp)
  qed
  ultimately have "map (\<lambda>r. (rq_sort_key r, rq_id r)) (order_rows ?rows) = map (\<lambda>a. (asg_key a, asg_id a)) asg"
    using dr da by (intro sorted_distinct_set_unique) (simp_all add: order_rows_def)
  then have "map snd (map (\<lambda>r. (rq_sort_key r, rq_id r)) (order_rows ?rows)) = map snd (map (\<lambda>a. (asg_key a, asg_id a)) asg)"
    by (rule arg_cong)
  then show ?thesis by (simp add: resequenced_def comp_def asg_def split_def Let_def)
qed

section \<open>Properties\<close>


text \<open>Two merged conversations; a timestamp is as late as its text is long.\<close>

definition demo_rq :: "string \<Rightarrow> string \<Rightarrow> rat \<Rightarrow> int \<Rightarrow> string \<Rightarrow> string \<Rightarrow> string \<Rightarrow> reseq_row" where
  "demo_rq i origin k g u a t = \<lparr>rq_id = i, rq_origin = origin, rq_sort_key = k, rq_group = g, rq_user = u,
     rq_assistant = a, rq_first_seen = t, rq_last_seen = [], rq_created = [], rq_updated = []\<rparr>"

definition demo_db :: "reseq_row list \<Rightarrow> reseq_db" where
  "demo_db rows = \<lparr>db_conversation = Some \<lparr>cv_tenant = ''t'', cv_epoch = 1, cv_phase = ''active'',
       cv_deleted = False, cv_pending = 0\<rparr>,
     db_compacting = False, db_ingesting = False, db_merging = False, db_derived = (0, 0, 0),
     db_rows = rows, db_tools = [\<lparr>art_origin = ''s'', art_turn = 0, art_ref = ''x''\<rparr>],
     db_chains = [\<lparr>art_origin = [], art_turn = 0, art_ref = ''y''\<rparr>], db_engine_state = True\<rparr>"

definition demo_merged :: "reseq_row list" where
  "demo_merged = [demo_rq ''a'' [] 1000 0 ''q'' [] ''late'', demo_rq ''b'' [] 2000 0 [] ''r'' ''later'',
     demo_rq ''c'' ''s'' 3000 0 ''q'' ''r'' ''t'']"



end
