(* ===== verification/ProtectedWindow.thy ===== *)
theory ProtectedWindow
  imports LogicalTurns
begin

text \<open>
  The cross-channel protected window (core/protected\_window.py): stamping of payload messages
  with the rows they became, the staleness anchor, the merge of the payload with the newest
  stored logical turns, and the compaction watermark on the merged view.

  A message's metadata dict is a record of the keys this code reads or writes; an absent key,
  \<open>None\<close> and the empty string are one value, as every read is a truthiness test.  \<open>parse\<close> is
  \<open>datetime.fromisoformat\<close>, a parameter; the timestamps are informational.
\<close>

section \<open>Messages\<close>

datatype group_key = NoGroupKey | CanonicalKey string | WindowKey nat rat

record metadata =
  md_canonical_turn_id :: string
  md_turn_number :: "int option"
  md_turn_group_number :: "int option"
  md_group_key :: group_key
  md_sort_key :: "rat option"
  md_db_recent :: bool                \<comment> \<open>\<open>source == "db_recent"\<close>\<close>
  md_turn_hash :: string
  md_source_message_id :: string
  md_origin_channel_id :: string
  md_origin_channel_label :: string
  md_audience_conversation_id :: string
  md_chat_id :: string                \<comment> \<open>\<open>conversation info\<close>, \<open>chat_id\<close>\<close>
  md_current_message_id :: string     \<comment> \<open>first conversation block, \<open>message_id\<close>\<close>
  md_sender_name :: string
  md_sender_actor_id :: string

record message =
  msg_role :: string
  msg_content :: string
  msg_timestamp :: "nat option"
  msg_metadata :: metadata

definition no_metadata :: metadata where
  "no_metadata = \<lparr>md_canonical_turn_id = [], md_turn_number = None, md_turn_group_number = None,
     md_group_key = NoGroupKey, md_sort_key = None, md_db_recent = False, md_turn_hash = [],
     md_source_message_id = [], md_origin_channel_id = [], md_origin_channel_label = [],
     md_audience_conversation_id = [], md_chat_id = [], md_current_message_id = [],
     md_sender_name = [], md_sender_actor_id = []\<rparr>"

text \<open>A stamp counts as a turn number only when it is not the \<open>-1\<close> sentinel.\<close>

definition message_turn_number :: "message \<Rightarrow> int option" where
  "message_turn_number m =
     (case md_turn_number (msg_metadata m) of None \<Rightarrow> None | Some n \<Rightarrow> if n \<ge> 0 then Some n else None)"

definition is_db_recent :: "message \<Rightarrow> bool" where
  "is_db_recent m \<longleftrightarrow> md_db_recent (msg_metadata m)"

definition is_trailing_unstamped_user :: "message \<Rightarrow> bool" where
  "is_trailing_unstamped_user m \<longleftrightarrow>
     msg_role m = ''user'' \<and> md_canonical_turn_id (msg_metadata m) = [] \<and> \<not> md_db_recent (msg_metadata m)"

section \<open>Stamping\<close>

definition stamp_message :: "message \<Rightarrow> canonical_row \<Rightarrow> message" where
  "stamp_message m row =
     (if row_canonical_turn_id row = [] then m
      else m\<lparr>msg_metadata := (msg_metadata m)
               \<lparr>md_canonical_turn_id := row_canonical_turn_id row,
                md_turn_number := (if row_turn_number row \<ge> 0 then Some (row_turn_number row)
                                   else md_turn_number (msg_metadata m))\<rparr>\<rparr>)"

definition stamp_canonical_turn_ids :: "message list \<Rightarrow> canonical_row list \<Rightarrow> message list" where
  "stamp_canonical_turn_ids messages rows =
     (let tk = min (length messages) (length rows)
      in if tk = 0 then messages
         else take (length messages - tk) messages
              @ map2 stamp_message (take_last tk messages)
                  (if tk = length rows then take_last tk rows else take tk rows))"

definition drop_active_tail_ingest_rows :: "canonical_row list \<Rightarrow> int \<Rightarrow> canonical_row list" where
  "drop_active_tail_ingest_rows rows active_tail_messages =
     (let d = max 0 active_tail_messages
      in if d \<le> 0 then rows
         else if d \<ge> int (length rows) then []
         else take (length rows - nat d) rows)"

section \<open>The staleness anchor\<close>

definition is_ingestible_role :: "message \<Rightarrow> bool" where
  "is_ingestible_role m \<longleftrightarrow> lower (msg_role m) \<in> {''user'', ''assistant''} \<and> msg_content m \<noteq> []"

text \<open>The walk from the tail; \<open>seen\<close> is \<open>seen_unstamped_ingestible_after_anchor\<close>.\<close>

fun anchor_walk :: "bool \<Rightarrow> message list \<Rightarrow> int option" where
  "anchor_walk seen [] = None"
| "anchor_walk seen (m # ms) =
     (case message_turn_number m of
        Some n \<Rightarrow> if seen then None else Some n
      | None \<Rightarrow> anchor_walk (seen \<or> is_ingestible_role m) ms)"

definition last_already_canonical_turn_number :: "message list \<Rightarrow> int option" where
  "last_already_canonical_turn_number history = anchor_walk False (rev history)"

section \<open>The compaction watermark\<close>

text \<open>The length of the list without its trailing block of unstamped user messages.\<close>

definition active_start :: "message list \<Rightarrow> nat" where
  "active_start ms = length (dropWhile is_trailing_unstamped_user (rev ms))"

fun consume_payload :: "nat \<Rightarrow> message list \<Rightarrow> message list" where
  "consume_payload remaining [] = []"
| "consume_payload remaining (m # ms) =
     (if is_db_recent m then m # consume_payload remaining ms
      else if remaining > 0 then consume_payload (remaining - 1) ms
      else m # consume_payload remaining ms)"

definition slice_payload_prefix_preserving_db_recent :: "message list \<Rightarrow> int \<Rightarrow> message list" where
  "slice_payload_prefix_preserving_db_recent merged payload_offset =
     (if merged = [] then []
      else let s = active_start merged;
               eligible = length (filter (\<lambda>m. \<not> is_db_recent m) (take s merged));
               remaining = min (max 0 payload_offset) (int eligible)
           in consume_payload (nat remaining) (take s merged) @ drop s merged)"

section \<open>The merge\<close>

subsection \<open>Which payload entries stand for which rows\<close>

text \<open>\<open>get_origin_channel\<close> (types.py), its first component.\<close>

definition origin_channel :: "metadata \<Rightarrow> string" where
  "origin_channel md =
     (let candidate = strip (md_chat_id md)
      in if starts_with candidate ''channel:'' then strip (drop 8 candidate)
         else if starts_with candidate ''group:'' then strip (drop 6 candidate)
         else [])"

definition dedup_eligible :: "string \<Rightarrow> metadata \<Rightarrow> bool" where
  "dedup_eligible dedup_channel md \<longleftrightarrow>
     dedup_channel = [] \<or> str_or (origin_channel md) (md_origin_channel_id md) = dedup_channel"

definition payload_index ::
  "(metadata \<Rightarrow> string) \<Rightarrow> string \<Rightarrow> message list \<Rightarrow> (string \<times> nat list) list" where
  "payload_index f dedup_channel payload =
     fold (\<lambda>(i, m) index.
             if dedup_eligible dedup_channel (msg_metadata m) \<and> f (msg_metadata m) \<noteq> []
             then setdefault_append index (f (msg_metadata m)) i else index)
       (enumerate 0 payload) []"

definition matching_payload_indexes :: "string \<Rightarrow> message list \<Rightarrow> canonical_row \<Rightarrow> nat list" where
  "matching_payload_indexes dedup_channel payload row =
     (if row_canonical_turn_id row = [] then []
      else lookup_list (payload_index md_canonical_turn_id dedup_channel payload) (row_canonical_turn_id row))
     @ (if row_turn_hash row = [] then []
        else lookup_list (payload_index md_turn_hash dedup_channel payload) (row_turn_hash row))
     @ (if row_source_message_id row = [] then []
        else lookup_list (payload_index (\<lambda>md. str_or (md_source_message_id md) (md_current_message_id md))
                            dedup_channel payload) (row_source_message_id row))"

text \<open>Positions of complete user and assistant pairs; other roles do not end a pair.\<close>

fun complete_pairs :: "nat option \<Rightarrow> (nat \<times> message) list \<Rightarrow> nat list" where
  "complete_pairs pending [] = []"
| "complete_pairs pending ((i, m) # ms) =
     (let role = lower (msg_role m)
      in if role = ''user'' then complete_pairs (Some i) ms
         else if role = ''assistant'' then
           (case pending of None \<Rightarrow> [] | Some u \<Rightarrow> [u, i]) @ complete_pairs None ms
         else complete_pairs pending ms)"

text \<open>The payload entries that win over a stored group: complete pairs and the active request.\<close>

definition standing_indexes :: "message list \<Rightarrow> nat list" where
  "standing_indexes payload =
     (let s = active_start payload
      in complete_pairs None (take s (enumerate 0 payload)) @ [s..<length payload])"

definition group_matches :: "string \<Rightarrow> message list \<Rightarrow> canonical_row list \<Rightarrow> nat list" where
  "group_matches dedup_channel payload g =
     concat (map (matching_payload_indexes dedup_channel payload) g)"

definition suppressed :: "string \<Rightarrow> message list \<Rightarrow> canonical_row list \<Rightarrow> bool" where
  "suppressed dedup_channel payload g \<longleftrightarrow>
     list_ex (\<lambda>i. i \<in> set (standing_indexes payload)) (group_matches dedup_channel payload g)"

definition replaced_indexes :: "string \<Rightarrow> message list \<Rightarrow> canonical_row list list \<Rightarrow> nat list" where
  "replaced_indexes dedup_channel payload groups =
     concat (map (group_matches dedup_channel payload)
               (filter (\<lambda>g. \<not> suppressed dedup_channel payload g) groups))"

definition payload_view :: "string \<Rightarrow> message list \<Rightarrow> canonical_row list list \<Rightarrow> message list" where
  "payload_view dedup_channel payload groups =
     map snd (filter (\<lambda>(i, m). i \<notin> set (replaced_indexes dedup_channel payload groups))
                (enumerate 0 payload))"

subsection \<open>Stored turns as messages\<close>

definition row_timestamp_pw :: "(string \<Rightarrow> nat option) \<Rightarrow> canonical_row \<Rightarrow> nat option" where
  "row_timestamp_pw parse row =
     (case concat (map (\<lambda>v. if v = [] then [] else case parse v of None \<Rightarrow> [] | Some t \<Rightarrow> [t])
             [row_last_seen_at row, row_first_seen_at row, row_updated_at row, row_created_at row]) of
        [] \<Rightarrow> None | t # _ \<Rightarrow> Some t)"

definition first_nonempty :: "('a \<Rightarrow> string) \<Rightarrow> 'a list \<Rightarrow> string" where
  "first_nonempty f xs = (case filter (\<lambda>x. f x \<noteq> []) xs of [] \<Rightarrow> [] | x # _ \<Rightarrow> f x)"

text \<open>Channel and audience as the human rows of the group prove them, and their last group number.\<close>

record provenance =
  pv_channel_id :: string
  pv_channel_label :: string
  pv_audience :: string
  pv_group_number :: int

definition group_provenance :: "canonical_row list \<Rightarrow> provenance" where
  "group_provenance g =
     (let humans = filter (\<lambda>r. row_user_content r \<noteq> []) g
      in \<lparr>pv_channel_id = first_nonempty row_origin_channel_id humans,
          pv_channel_label = first_nonempty row_origin_channel_label humans,
          pv_audience = first_nonempty row_audience_conversation_id humans,
          pv_group_number = fold (\<lambda>r n. if row_turn_group_number r \<ge> 0 then row_turn_group_number r else n)
                              humans (-1)\<rparr>)"

definition db_group_key :: "nat \<Rightarrow> canonical_row list \<Rightarrow> group_key" where
  "db_group_key index g =
     (let first_id = first_nonempty row_canonical_turn_id g
      in if first_id \<noteq> [] then CanonicalKey first_id else WindowKey index (row_sort_key (hd g)))"

text \<open>
  The inheritance boundary: an assistant half takes channel and audience from its group only
  when both carry the same explicit group number.
\<close>

definition base_metadata :: "provenance \<Rightarrow> group_key \<Rightarrow> canonical_row \<Rightarrow> metadata" where
  "base_metadata pv key row =
     (let inherits = row_user_content row = [] \<and> pv_group_number pv \<ge> 0
            \<and> row_turn_group_number row = pv_group_number pv;
          value = (\<lambda>own fallback. str_or own (if inherits then fallback else []))
      in no_metadata\<lparr>md_canonical_turn_id := row_canonical_turn_id row,
           md_turn_number := Some (row_turn_number row),
           md_turn_group_number := Some (row_turn_group_number row),
           md_group_key := key,
           md_sort_key := Some (row_sort_key row),
           md_db_recent := True,
           md_origin_channel_id := value (row_origin_channel_id row) (pv_channel_id pv),
           md_origin_channel_label := value (row_origin_channel_label row) (pv_channel_label pv),
           md_audience_conversation_id := value (row_audience_conversation_id row) (pv_audience pv),
           md_source_message_id := row_source_message_id row\<rparr>)"

definition row_messages ::
  "(string \<Rightarrow> nat option) \<Rightarrow> provenance \<Rightarrow> group_key \<Rightarrow> canonical_row \<Rightarrow> message list" where
  "row_messages parse pv key row =
     (let base = base_metadata pv key row; ts = row_timestamp_pw parse row
      in (if row_user_content row \<noteq> []
          then [\<lparr>msg_role = ''user'', msg_content = row_user_content row, msg_timestamp = ts,
                 msg_metadata = base\<lparr>md_sender_name := strip (row_sender row),
                                    md_sender_actor_id := strip (row_sender_actor_id row)\<rparr>\<rparr>] else [])
         @ (if row_assistant_content row \<noteq> []
            then [\<lparr>msg_role = ''assistant'', msg_content = row_assistant_content row,
                   msg_timestamp = ts, msg_metadata = base\<rparr>] else []))"

definition group_messages :: "(string \<Rightarrow> nat option) \<Rightarrow> nat \<Rightarrow> canonical_row list \<Rightarrow> message list" where
  "group_messages parse index g =
     concat (map (row_messages parse (group_provenance g) (db_group_key index g)) g)"

definition db_message_groups ::
  "(string \<Rightarrow> nat option) \<Rightarrow> string \<Rightarrow> message list \<Rightarrow> canonical_row list list \<Rightarrow> message list list" where
  "db_message_groups parse dedup_channel payload groups =
     filter (\<lambda>ms. ms \<noteq> [])
       (map (\<lambda>(index, g). group_messages parse index g)
          (filter (\<lambda>(index, g). \<not> suppressed dedup_channel payload g) (enumerate 0 groups)))"

subsection \<open>Interleaving by turn number\<close>

definition group_last_turn_number :: "message list \<Rightarrow> int option" where
  "group_last_turn_number ms =
     (case concat (map (\<lambda>m. case message_turn_number m of None \<Rightarrow> [] | Some n \<Rightarrow> [n]) ms) of
        [] \<Rightarrow> None | n # ns \<Rightarrow> Some (fold max ns n))"

text \<open>The inner \<open>while\<close>: leading groups that end before turn \<open>n\<close>.\<close>

definition due :: "int \<Rightarrow> message list \<Rightarrow> bool" where
  "due n g \<longleftrightarrow> (case group_last_turn_number g of None \<Rightarrow> False | Some t \<Rightarrow> t < n)"

fun interleave :: "message list \<Rightarrow> message list list \<Rightarrow> message list" where
  "interleave [] groups = concat groups"
| "interleave (p # ps) groups =
     (case message_turn_number p of
        None \<Rightarrow> p # interleave ps groups
      | Some n \<Rightarrow> concat (takeWhile (due n) groups) @ p # interleave ps (dropWhile (due n) groups))"

definition window_rows :: "canonical_row list \<Rightarrow> canonical_row list" where
  "window_rows rows = sort_key (\<lambda>r. (row_sort_key r, row_created_at r, row_canonical_turn_id r)) rows"

definition merge_protected_window ::
  "(string \<Rightarrow> nat option) \<Rightarrow> string \<Rightarrow> string \<Rightarrow> message list \<Rightarrow> canonical_row list \<Rightarrow> message list" where
  "merge_protected_window parse mode dedup_channel payload rows =
     (if mode \<noteq> ''merge'' \<or> rows = [] then payload
      else let groups = partition_logical_turns (window_rows rows);
               view = payload_view dedup_channel payload groups;
               s = active_start view
           in interleave (take s view) (db_message_groups parse dedup_channel payload groups) @ drop s view)"

section \<open>Lemmas\<close>

subsection \<open>The active tail\<close>

lemma take_active_start: "take (active_start ms) ms = rev (dropWhile is_trailing_unstamped_user (rev ms))"
proof -
  have "length ms = length (takeWhile is_trailing_unstamped_user (rev ms))
      + length (dropWhile is_trailing_unstamped_user (rev ms))"
    by (metis length_append length_rev takeWhile_dropWhile_id)
  then show ?thesis
    by (simp add: active_start_def dropWhile_eq_drop rev_drop)
qed

lemma drop_active_start: "drop (active_start ms) ms = rev (takeWhile is_trailing_unstamped_user (rev ms))"
proof -
  have "take (active_start ms) ms @ drop (active_start ms) ms
      = rev (dropWhile is_trailing_unstamped_user (rev ms)) @ rev (takeWhile is_trailing_unstamped_user (rev ms))"
    by (metis append_take_drop_id rev_append rev_rev_ident takeWhile_dropWhile_id)
  then show ?thesis unfolding take_active_start by simp
qed

lemma active_tail_unstamped: "m \<in> set (drop (active_start ms) ms) \<Longrightarrow> is_trailing_unstamped_user m"
  by (auto simp: drop_active_start dest: set_takeWhileD)

lemma active_tail_not_db: "m \<in> set (drop (active_start ms) ms) \<Longrightarrow> \<not> is_db_recent m"
  using active_tail_unstamped by (fastforce simp: is_trailing_unstamped_user_def is_db_recent_def)

lemma active_tail_append:
  "\<forall>m\<in>set tail. is_trailing_unstamped_user m \<Longrightarrow> suffix tail (drop (active_start (ms @ tail)) (ms @ tail))"
  unfolding drop_active_start by (simp add: takeWhile_append suffix_def)

subsection \<open>The watermark\<close>

lemma consume_payload_db: "filter is_db_recent (consume_payload n ms) = filter is_db_recent ms"
  by (induction n ms rule: consume_payload.induct) simp_all

lemma consume_payload_own:
  "filter (\<lambda>m. \<not> is_db_recent m) (consume_payload n ms) = drop n (filter (\<lambda>m. \<not> is_db_recent m) ms)"
  by (induction n ms rule: consume_payload.induct) (auto simp: drop_Cons')

lemma slice_facts:
  fixes merged :: "message list" and payload_offset :: int
  defines "s \<equiv> active_start merged"
    and "result \<equiv> slice_payload_prefix_preserving_db_recent merged payload_offset"
  shows "filter is_db_recent result = filter is_db_recent merged"
    "filter (\<lambda>m. \<not> is_db_recent m) result
      = drop (min (nat payload_offset) (length (filter (\<lambda>m. \<not> is_db_recent m) (take s merged))))
          (filter (\<lambda>m. \<not> is_db_recent m) merged)"
    "suffix (drop s merged) result"
proof -
  have n: "nat (min (max 0 payload_offset) (int e)) = min (nat payload_offset) e" for e
    by (auto simp: min_def max_def)
  have r: "result = consume_payload (min (nat payload_offset) (length (filter (\<lambda>m. \<not> is_db_recent m) (take s merged))))
      (take s merged) @ drop s merged"
    by (simp add: result_def s_def slice_payload_prefix_preserving_db_recent_def Let_def n)
  show "filter is_db_recent result = filter is_db_recent merged"
    unfolding r filter_append consume_payload_db by (simp flip: filter_append)
  have "filter (\<lambda>m. \<not> is_db_recent m) merged
      = filter (\<lambda>m. \<not> is_db_recent m) (take s merged) @ filter (\<lambda>m. \<not> is_db_recent m) (drop s merged)"
    by (simp flip: filter_append)
  then show "filter (\<lambda>m. \<not> is_db_recent m) result
      = drop (min (nat payload_offset) (length (filter (\<lambda>m. \<not> is_db_recent m) (take s merged))))
          (filter (\<lambda>m. \<not> is_db_recent m) merged)"
    unfolding r by (simp add: consume_payload_own)
  show "suffix (drop s merged) result" unfolding r by (simp add: suffix_def)
qed

subsection \<open>The interleaving\<close>

lemma interleave_filter:
  assumes "\<And>p. p \<in> set ps \<Longrightarrow> \<not> P p" "\<And>g m. g \<in> set gs \<Longrightarrow> m \<in> set g \<Longrightarrow> P m"
  shows "filter P (interleave ps gs) = concat gs \<and> filter (\<lambda>m. \<not> P m) (interleave ps gs) = ps"
  using assms
proof (induction ps gs rule: interleave.induct)
  case (1 gs)
  then have "\<forall>m\<in>set (concat gs). P m" by auto
  then show ?case by (auto simp: filter_id_conv filter_empty_conv)
next
  case (2 p ps gs)
  show ?case
  proof (cases "message_turn_number p")
    case None
    then show ?thesis using 2 by auto
  next
    case (Some n)
    have "filter P (interleave ps (dropWhile (due n) gs)) = concat (dropWhile (due n) gs)
        \<and> filter (\<lambda>m. \<not> P m) (interleave ps (dropWhile (due n) gs)) = ps"
      using 2(3,4) by (intro 2(2)[OF Some]) (auto dest: set_dropWhileD)
    moreover have "\<forall>m\<in>set (concat (takeWhile (due n) gs)). P m"
      using 2(4) by (auto dest: set_takeWhileD)
    then have "filter P (concat (takeWhile (due n) gs)) = concat (takeWhile (due n) gs)"
      "filter (\<lambda>m. \<not> P m) (concat (takeWhile (due n) gs)) = []"
      by (auto simp: filter_id_conv filter_empty_conv)
    ultimately show ?thesis using Some 2(3)
      by (simp flip: concat_append)
  qed
qed

lemma interleave_payload [simp]: "interleave ps [] = ps"
  by (induction ps) (simp_all split: option.split)

lemma sublist_concat: "g \<in> set gs \<Longrightarrow> sublist g (concat gs)"
  by (auto simp: in_set_conv_decomp sublist_def) metis

lemma interleave_sublist: "g \<in> set gs \<Longrightarrow> sublist g (interleave ps gs)"
proof (induction ps gs rule: interleave.induct)
  case (2 p ps gs)
  show ?case
  proof (cases "message_turn_number p")
    case None
    then show ?thesis using 2 by (simp add: sublist_Cons_right)
  next
    case (Some n)
    have "g \<in> set (takeWhile (due n) gs) \<or> g \<in> set (dropWhile (due n) gs)"
      using 2(3) by (metis UnE set_append takeWhile_dropWhile_id)
    then show ?thesis
    proof
      assume "g \<in> set (takeWhile (due n) gs)"
      then have "sublist g (concat (takeWhile (due n) gs))" by (rule sublist_concat)
      then show ?thesis using Some by (simp add: sublist_append)
    next
      assume "g \<in> set (dropWhile (due n) gs)"
      then have "sublist g (interleave ps (dropWhile (due n) gs))" by (rule 2(2)[OF Some])
      then show ?thesis using Some by (simp add: sublist_append sublist_Cons_right)
    qed
  qed
qed (rule interleave.simps(1)[THEN ssubst], rule sublist_concat)

subsection \<open>Replaced fragments\<close>

lemma standing_not_replaced: "i \<in> set (standing_indexes payload) \<Longrightarrow> i \<notin> set (replaced_indexes ch payload groups)"
  by (auto simp: replaced_indexes_def suppressed_def list_ex_iff)

lemma active_standing: "active_start payload \<le> i \<Longrightarrow> i < length payload \<Longrightarrow> i \<in> set (standing_indexes payload)"
  by (simp add: standing_indexes_def Let_def)

lemma payload_view_tail:
  "\<exists>front. payload_view ch payload groups = front @ drop (active_start payload) payload"
proof -
  let ?s = "active_start payload" and ?keep = "\<lambda>(i, m). i \<notin> set (replaced_indexes ch payload groups)"
  have "filter ?keep (drop ?s (enumerate 0 payload)) = drop ?s (enumerate 0 payload)"
  proof (rule filter_True, rule ballI)
    fix x assume "x \<in> set (drop ?s (enumerate 0 payload))"
    then obtain j where j: "x = enumerate 0 payload ! (?s + j)" "?s + j < length payload"
      by (auto simp: in_set_conv_nth)
    then have "?s + j \<in> set (standing_indexes payload)" by (intro active_standing) auto
    from standing_not_replaced[OF this] j show "?keep x" by (simp add: nth_enumerate_eq)
  qed
  moreover have "map snd (drop ?s (enumerate 0 payload)) = drop ?s payload"
    by (simp add: drop_map[symmetric])
  moreover have "filter ?keep (enumerate 0 payload)
      = filter ?keep (take ?s (enumerate 0 payload)) @ filter ?keep (drop ?s (enumerate 0 payload))"
    by (simp flip: filter_append)
  ultimately show ?thesis unfolding payload_view_def by (metis map_append)
qed

lemma row_messages_db: "m \<in> set (row_messages parse pv key row) \<Longrightarrow> is_db_recent m"
  by (auto simp: row_messages_def base_metadata_def Let_def is_db_recent_def split: if_splits)

lemma db_message_groups_db:
  "g \<in> set (db_message_groups parse ch payload groups) \<Longrightarrow> m \<in> set g \<Longrightarrow> is_db_recent m"
  by (auto simp: db_message_groups_def group_messages_def dest: row_messages_db)

lemma merge_unfold:
  "merge_protected_window parse ''merge'' ch payload rows =
     (let groups = partition_logical_turns (window_rows rows);
          view = payload_view ch payload groups; s = active_start view
      in interleave (take s view) (db_message_groups parse ch payload groups) @ drop s view)"
proof (cases "rows = []")
  case True
  then have "partition_logical_turns (window_rows rows) = []"
    by (simp add: window_rows_def turns.part_Nil)
  then show ?thesis using True
    by (simp add: merge_protected_window_def Let_def payload_view_def replaced_indexes_def
        db_message_groups_def interleave_payload)
qed (simp add: merge_protected_window_def)

lemma merge_facts:
  fixes rows :: "canonical_row list" and payload :: "message list" and ch :: string
    and parse :: "string \<Rightarrow> nat option"
  assumes own: "list_all (\<lambda>m. \<not> is_db_recent m) payload"
  defines "groups \<equiv> partition_logical_turns (window_rows rows)"
  defines "result \<equiv> merge_protected_window parse ''merge'' ch payload rows"
  shows "filter (\<lambda>m. \<not> is_db_recent m) result = payload_view ch payload groups"
    "filter is_db_recent result = concat (db_message_groups parse ch payload groups)"
    "suffix (drop (active_start payload) payload) result"
    "g \<in> set (db_message_groups parse ch payload groups) \<Longrightarrow> sublist g result"
proof -
  let ?view = "payload_view ch payload groups" and ?gs = "db_message_groups parse ch payload groups"
  have r: "result = interleave (take (active_start ?view) ?view) ?gs @ drop (active_start ?view) ?view"
    by (simp add: result_def groups_def merge_unfold Let_def)
  have "m \<in> set payload" if "m \<in> set ?view" for m
    using that by (auto simp: payload_view_def in_set_enumerate_eq)
  then have view: "\<not> is_db_recent m" if "m \<in> set ?view" for m
    using own that by (auto simp: list_all_iff)
  have "filter is_db_recent (interleave (take (active_start ?view) ?view) ?gs) = concat ?gs
      \<and> filter (\<lambda>m. \<not> is_db_recent m) (interleave (take (active_start ?view) ?view) ?gs)
        = take (active_start ?view) ?view"
    by (rule interleave_filter) (auto dest: in_set_takeD view db_message_groups_db)
  moreover have "filter is_db_recent (drop (active_start ?view) ?view) = []"
    "filter (\<lambda>m. \<not> is_db_recent m) (drop (active_start ?view) ?view) = drop (active_start ?view) ?view"
    using view by (auto simp: filter_empty_conv filter_id_conv dest: in_set_dropD)
  ultimately show "filter (\<lambda>m. \<not> is_db_recent m) result = ?view" "filter is_db_recent result = concat ?gs"
    unfolding r by simp_all
  obtain front where "?view = front @ drop (active_start payload) payload"
    using payload_view_tail by blast
  then have "suffix (drop (active_start payload) payload) (drop (active_start ?view) ?view)"
    using active_tail_append[of "drop (active_start payload) payload" front] active_tail_unstamped by metis
  then show "suffix (drop (active_start payload) payload) result"
    unfolding r by (rule suffix_appendI)
  assume "g \<in> set ?gs"
  then show "sublist g result" unfolding r by (simp add: interleave_sublist sublist_append)
qed

section \<open>Properties\<close>


definition text_message :: "string \<Rightarrow> string \<Rightarrow> metadata \<Rightarrow> message" where
  "text_message role content md = \<lparr>msg_role = role, msg_content = content, msg_timestamp = None, msg_metadata = md\<rparr>"

text \<open>A payload with a complete pair, a lone stamped fragment and the active request; stored are
  the pair, the fragment's complete turn and a turn of another channel.\<close>

definition demo_history :: "message list" where
  "demo_history =
     [text_message ''user'' ''q1'' (no_metadata\<lparr>md_canonical_turn_id := ''a'', md_turn_number := Some 0\<rparr>),
      text_message ''assistant'' ''r1'' (no_metadata\<lparr>md_canonical_turn_id := ''b'', md_turn_number := Some 0\<rparr>),
      text_message ''assistant'' ''r2'' (no_metadata\<lparr>md_canonical_turn_id := ''d'', md_turn_number := Some 1\<rparr>),
      text_message ''user'' ''now'' no_metadata]"

definition window_row :: "string \<Rightarrow> int \<Rightarrow> rat \<Rightarrow> string \<Rightarrow> string \<Rightarrow> canonical_row" where
  "window_row i n k u a = empty_row\<lparr>row_canonical_turn_id := i, row_turn_number := n, row_sort_key := k,
     row_user_content := u, row_assistant_content := a\<rparr>"

definition demo_window :: "canonical_row list" where
  "demo_window = [window_row ''f'' 2 6000 [] ''r3'', window_row ''e'' 2 5000 ''q3'' [],
     window_row ''d'' 1 4000 [] ''r2'', window_row ''c'' 1 3000 ''q2'' [],
     window_row ''b'' 0 2000 [] ''r1'', window_row ''a'' 0 1000 ''q1'' []]"


text \<open>The compaction watermark consumes only the oldest payload-owned messages.  Whatever the
  offset, every recovered message and the active request survive, and of the payload's own
  messages exactly the first \<open>min offset eligible\<close> are dropped.\<close>
theorem watermark_spares_recovered_rows:
  "let s = active_start merged;
       result = slice_payload_prefix_preserving_db_recent merged payload_offset
   in filter is_db_recent result = filter is_db_recent merged
      \<and> filter (\<lambda>m. \<not> is_db_recent m) result
        = drop (min (nat payload_offset) (length (filter (\<lambda>m. \<not> is_db_recent m) (take s merged))))
            (filter (\<lambda>m. \<not> is_db_recent m) merged)
      \<and> suffix (drop s merged) result"
  using slice_facts[of merged payload_offset] by (simp add: Let_def)

subsection \<open>Stamp and anchor\<close>

lemma anchor_walk_iff:
  "anchor_walk seen ms = Some n \<longleftrightarrow>
     \<not> seen \<and> (\<exists>later m older. ms = later @ m # older \<and> message_turn_number m = Some n
        \<and> list_all (\<lambda>x. message_turn_number x = None \<and> \<not> is_ingestible_role x) later)"
proof (induction seen ms rule: anchor_walk.induct)
  case (2 seen m ms)
  show ?case
  proof (cases "message_turn_number m")
    case None
    have "(\<exists>later x older. m # ms = later @ x # older \<and> message_turn_number x = Some n
        \<and> list_all (\<lambda>x. message_turn_number x = None \<and> \<not> is_ingestible_role x) later)
      \<longleftrightarrow> \<not> is_ingestible_role m \<and> (\<exists>later x older. ms = later @ x # older \<and> message_turn_number x = Some n
        \<and> list_all (\<lambda>x. message_turn_number x = None \<and> \<not> is_ingestible_role x) later)" (is "?l \<longleftrightarrow> ?r")
    proof
      assume ?l
      then obtain later x older where l: "m # ms = later @ x # older" "message_turn_number x = Some n"
        "list_all (\<lambda>x. message_turn_number x = None \<and> \<not> is_ingestible_role x) later" by blast
      then show ?r using None by (cases later) auto
    next
      assume r: ?r
      then obtain later x older where l: "ms = later @ x # older" "message_turn_number x = Some n"
        "list_all (\<lambda>x. message_turn_number x = None \<and> \<not> is_ingestible_role x) later" by blast
      show ?l using l r None by (intro exI[of _ "m # later"] exI[of _ x] exI[of _ older]) simp
    qed
    then show ?thesis using 2[OF None] None by auto
  next
    case (Some k)
    have "(\<exists>later x older. m # ms = later @ x # older \<and> message_turn_number x = Some n
        \<and> list_all (\<lambda>x. message_turn_number x = None \<and> \<not> is_ingestible_role x) later) \<longleftrightarrow> k = n"
    proof
      assume "\<exists>later x older. m # ms = later @ x # older \<and> message_turn_number x = Some n
        \<and> list_all (\<lambda>x. message_turn_number x = None \<and> \<not> is_ingestible_role x) later"
      then obtain later x older where "m # ms = later @ x # older" "message_turn_number x = Some n"
        "list_all (\<lambda>x. message_turn_number x = None \<and> \<not> is_ingestible_role x) later" by blast
      then show "k = n" using Some by (cases later) auto
    next
      assume "k = n"
      then show "\<exists>later x older. m # ms = later @ x # older \<and> message_turn_number x = Some n
        \<and> list_all (\<lambda>x. message_turn_number x = None \<and> \<not> is_ingestible_role x) later"
        using Some by (intro exI[of _ "[]"] exI[of _ m] exI[of _ ms]) simp
    qed
    then show ?thesis using Some by auto
  qed
qed simp

lemma stamp_length [simp]: "length (stamp_canonical_turn_ids ms rows) = length ms"
  by (auto simp: stamp_canonical_turn_ids_def Let_def take_last_def)

lemma last_stamp:
  assumes "rows \<noteq> []" "length rows \<le> length ms"
  shows "last (stamp_canonical_turn_ids ms rows) = stamp_message (last ms) (last rows)"
proof -
  have m: "min (length ms) (length rows) = length rows" using assms(2) by simp
  have z: "take_last (length rows) ms \<noteq> []" "length (take_last (length rows) ms) = length rows"
    using assms by (cases rows; auto simp: take_last_def)+
  have "last (map2 stamp_message (take_last (length rows) ms) rows)
      = stamp_message (last (take_last (length rows) ms)) (last rows)"
    using z assms(1) by (simp add: last_map last_zip zip_eq_Nil_iff)
  moreover have "last (take_last (length rows) ms) = last ms"
    using z(1) assms by (simp add: take_last_def last_drop)
  ultimately show ?thesis
    using assms z by (simp add: stamp_canonical_turn_ids_def Let_def m last_append zip_eq_Nil_iff)
       (simp add: take_last_def)
qed

lemma anchor_last: "ms \<noteq> [] \<Longrightarrow> message_turn_number (last ms) = Some n \<Longrightarrow> last_already_canonical_turn_number ms = Some n"
  by (cases ms rule: rev_cases) (simp_all add: last_already_canonical_turn_number_def)

text \<open>After a history has been stamped with the rows it became, the anchor is the last row's turn.\<close>

lemma stamp_gives_anchor:
  assumes "rows \<noteq> []" "length rows \<le> length history" "row_canonical_turn_id (last rows) \<noteq> []"
    "row_turn_number (last rows) \<ge> 0"
  shows "last_already_canonical_turn_number (stamp_canonical_turn_ids history rows)
    = Some (row_turn_number (last rows))"
proof (rule anchor_last)
  show "stamp_canonical_turn_ids history rows \<noteq> []"
    using assms(1,2) stamp_length[of history rows] by (metis length_0_conv le_zero_eq)
  show "message_turn_number (last (stamp_canonical_turn_ids history rows)) = Some (row_turn_number (last rows))"
    using assms by (simp add: last_stamp stamp_message_def message_turn_number_def)
qed

text \<open>The staleness anchor is the newest stamped turn number, and only when every newer message is
  one that ingestion would not have stamped: there is an anchor exactly when the history splits
  at a stamped message after which no message is stamped and none is a user or assistant text.\<close>
theorem anchor_is_newest_safe_stamp:
  "last_already_canonical_turn_number history = Some n \<longleftrightarrow>
     (\<exists>older m later. history = older @ m # later \<and> message_turn_number m = Some n
        \<and> list_all (\<lambda>x. message_turn_number x = None \<and> \<not> is_ingestible_role x) later)" (is "?l \<longleftrightarrow> ?r")
proof
  assume ?l
  then obtain later m older where l: "rev history = later @ m # older" "message_turn_number m = Some n"
    "list_all (\<lambda>x. message_turn_number x = None \<and> \<not> is_ingestible_role x) later"
    by (auto simp: last_already_canonical_turn_number_def anchor_walk_iff)
  have "history = rev older @ m # rev later" using arg_cong[OF l(1), of rev] by simp
  moreover have "list_all (\<lambda>x. message_turn_number x = None \<and> \<not> is_ingestible_role x) (rev later)"
    using l(3) by simp
  ultimately show ?r using l(2) by blast
next
  assume ?r
  then obtain older m later where r: "history = older @ m # later" "message_turn_number m = Some n"
    "list_all (\<lambda>x. message_turn_number x = None \<and> \<not> is_ingestible_role x) later" by blast
  then show ?l
    unfolding last_already_canonical_turn_number_def anchor_walk_iff
    by (intro conjI exI[of _ "rev later"] exI[of _ m] exI[of _ "rev older"]) simp_all
qed

text \<open>Two fragments of different turns pass for a complete pair.  When a payload keeps only the
  question of one turn and, next, only the answer of a later one, both stored turns are taken to
  be represented and neither is restored: the answer to the first and the question of the second
  are missing from the merged window.\<close>
theorem adjacent_fragments_hide_turns:
  "map msg_content (merge_protected_window (\<lambda>_. None) ''merge'' []
      [text_message ''user'' ''q1'' (no_metadata\<lparr>md_canonical_turn_id := ''a''\<rparr>),
       text_message ''assistant'' ''r2'' (no_metadata\<lparr>md_canonical_turn_id := ''d''\<rparr>)]
      [window_row ''a'' 0 1000 ''q1'' [], window_row ''b'' 0 2000 [] ''r1'',
       window_row ''c'' 1 3000 ''q2'' [], window_row ''d'' 1 4000 [] ''r2''])
   = [''q1'', ''r2'']"
  by code_simp

end
