(* ===== verification/Lifecycle.thy ===== *)
theory Lifecycle
  imports TurnStore Facts
begin

text \<open>
  The lifecycle of one conversation in storage/sqlite.py: its phase and epoch, its ingestion
  episodes and compaction operations with their leases, and what a compaction writes.

  The state is what the database holds about one conversation; \<open>lc_foreign_ops\<close> and
  \<open>lc_foreign_episodes\<close> are the primary keys other conversations use.  A SQL UPDATE is a map over
  the table, its \<open>rowcount\<close> the number of rows its WHERE clause hits; an INSERT checks the
  primary key, the partial unique index and the foreign key.  \<open>IntegrityError\<close> is a value, and a
  method that raises leaves the state as it was (rollback).  \<open>now\<close>, the lease cutoff and fresh
  identifiers are arguments; timestamps are integers, as the code compares ISO strings of one
  format.
\<close>

section \<open>State\<close>

datatype phase = Init | Ingesting | Compacting | Active | Deleted | Merged

datatype op_status = Queued | Running | Completed | Cancelled | Failed | Abandoned

datatype episode_status = EpisodeRunning | EpisodeCompleted | EpisodeCancelled | EpisodeAbandoned

record conversation =
  lf_tenant :: string
  lf_epoch :: int
  lf_phase :: phase
  lf_pending :: int
  lf_last_raw :: int
  lf_last_ingestible :: int
  lf_deleted_at :: "int option"

record operation =
  op_id :: string
  op_epoch :: int
  op_phase_index :: int
  op_phase_count :: int
  op_phase_name :: string
  op_state :: op_status
  op_started :: int
  op_completed :: "int option"
  op_owner :: string
  op_heartbeat :: int
  op_error :: string

record episode =
  ep_id :: string
  ep_epoch :: int
  ep_raw :: int
  ep_started :: int
  ep_completed :: "int option"
  ep_state :: episode_status
  ep_owner :: string
  ep_heartbeat :: int

text \<open>The columns of \<open>canonical_turns\<close> that tagging and compaction read or write.\<close>

record turn =
  ct_id :: string
  ct_group :: int
  ct_key :: rat
  ct_hash :: string
  ct_user :: string
  ct_assistant :: string
  ct_primary_tag :: string
  ct_tags :: "string list"
  ct_session_date :: string
  ct_covered :: int                           \<comment> \<open>\<open>covered_ingestible_entries\<close>\<close>
  ct_tagged_at :: "int option"
  ct_compacted_at :: "int option"
  ct_operation :: "string option"

datatype derived_table =
  Segments | FactRows | TagSummaries | TagSummaryEmbeddings | SegmentToolOutputs | SegmentChunks | FactLinks

text \<open>A row a compaction derives: \<open>dv_ref\<close> is its reference, for a chunk the segment it belongs to.\<close>

record derived =
  dv_table :: derived_table
  dv_ref :: string
  dv_operation :: "string option"

record lifecycle =
  lc_generation :: "(int \<times> bool) option"      \<comment> \<open>row of \<open>conversation_lifecycle\<close>\<close>
  lc_conversation :: "conversation option"
  lc_ops :: "operation list"
  lc_episodes :: "episode list"
  lc_turns :: "turn list"
  lc_derived :: "derived list"
  lc_handles :: "string list"                 \<comment> \<open>\<open>speaker_handles\<close> of the audience\<close>
  lc_foreign_ops :: "string list"
  lc_foreign_episodes :: "string list"

datatype lc_error = IntegrityError | KeyError | PermissionError | LifecycleConflict
  | EpochMismatch | LeaseLost

definition op_active :: "operation \<Rightarrow> bool" where
  "op_active x \<longleftrightarrow> op_state x = Queued \<or> op_state x = Running"

definition op_terminal :: "operation \<Rightarrow> bool" where
  "op_terminal x \<longleftrightarrow> op_state x \<in> {Completed, Failed, Abandoned, Cancelled}"

section \<open>Statements on the tables\<close>

definition update_conversation :: "(conversation \<Rightarrow> bool) \<Rightarrow> (conversation \<Rightarrow> conversation) \<Rightarrow> lifecycle \<Rightarrow> bool \<times> lifecycle" where
  "update_conversation P f s =
     (case lc_conversation s of
        None \<Rightarrow> (False, s)
      | Some c \<Rightarrow> if P c then (True, s\<lparr>lc_conversation := Some (f c)\<rparr>) else (False, s))"

definition update_ops :: "(operation \<Rightarrow> bool) \<Rightarrow> (operation \<Rightarrow> operation) \<Rightarrow> lifecycle \<Rightarrow> nat \<times> lifecycle" where
  "update_ops P f s =
     (length (filter P (lc_ops s)), s\<lparr>lc_ops := map (\<lambda>x. if P x then f x else x) (lc_ops s)\<rparr>)"

definition update_episodes :: "(episode \<Rightarrow> bool) \<Rightarrow> (episode \<Rightarrow> episode) \<Rightarrow> lifecycle \<Rightarrow> nat \<times> lifecycle" where
  "update_episodes P f s =
     (length (filter P (lc_episodes s)), s\<lparr>lc_episodes := map (\<lambda>e. if P e then f e else e) (lc_episodes s)\<rparr>)"

text \<open>INSERT under the primary key, \<open>idx_compaction_operation_active\<close> and the foreign key.\<close>

definition insert_op :: "operation \<Rightarrow> lifecycle \<Rightarrow> lifecycle option" where
  "insert_op x s =
     (if lc_conversation s = None \<or> op_id x \<in> set (map op_id (lc_ops s)) \<or> op_id x \<in> set (lc_foreign_ops s)
         \<or> op_active x \<and> list_ex (\<lambda>p. op_active p \<and> op_epoch p = op_epoch x) (lc_ops s)
      then None else Some (s\<lparr>lc_ops := lc_ops s @ [x]\<rparr>))"

definition insert_episode :: "episode \<Rightarrow> lifecycle \<Rightarrow> lifecycle option" where
  "insert_episode e s =
     (if lc_conversation s = None \<or> ep_id e \<in> set (map ep_id (lc_episodes s))
         \<or> ep_id e \<in> set (lc_foreign_episodes s)
         \<or> ep_state e = EpisodeRunning
            \<and> list_ex (\<lambda>p. ep_state p = EpisodeRunning \<and> ep_epoch p = ep_epoch e) (lc_episodes s)
      then None else Some (s\<lparr>lc_episodes := lc_episodes s @ [e]\<rparr>))"

definition new_op :: "string \<Rightarrow> int \<Rightarrow> string \<Rightarrow> int \<Rightarrow> string \<Rightarrow> op_status \<Rightarrow> int \<Rightarrow> operation" where
  "new_op i e worker pc name st now =
     \<lparr>op_id = i, op_epoch = e, op_phase_index = 0, op_phase_count = pc, op_phase_name = name,
      op_state = st, op_started = now, op_completed = None, op_owner = worker, op_heartbeat = now,
      op_error = []\<rparr>"

definition new_episode :: "string \<Rightarrow> int \<Rightarrow> string \<Rightarrow> int \<Rightarrow> int \<Rightarrow> episode" where
  "new_episode i e worker raw now =
     \<lparr>ep_id = i, ep_epoch = e, ep_raw = raw, ep_started = now, ep_completed = None,
      ep_state = EpisodeRunning, ep_owner = worker, ep_heartbeat = now\<rparr>"

section \<open>Taggable groups\<close>

text \<open>
  The \<open>GROUP BY turn_group_number HAVING\<close> condition shared by
  \<open>has_complete_untagged_canonical_group\<close>, \<open>iter_complete_untagged_canonical_groups\<close>,
  \<open>claim_ingestion_for_complete_group\<close>, \<open>complete_ingestion_episode\<close>, \<open>drain_compaction_exit\<close> and
  the backlog check: an untagged row, and one combined row, one row of each half, or an earlier
  row with a single half.  SQL's \<open>trim\<close> removes spaces only.
\<close>

definition sql_user :: "turn \<Rightarrow> bool" where
  "sql_user t \<longleftrightarrow> \<not> sql_blank (ct_user t)"

definition sql_assistant :: "turn \<Rightarrow> bool" where
  "sql_assistant t \<longleftrightarrow> \<not> sql_blank (ct_assistant t)"

definition last_key :: "turn list \<Rightarrow> rat" where
  "last_key ts = fold max (map ct_key ts) (ct_key (hd ts))"

definition group_complete :: "turn list \<Rightarrow> turn list \<Rightarrow> bool" where
  "group_complete turns g \<longleftrightarrow>
     (let n = length g; u = length (filter sql_user g); a = length (filter sql_assistant g);
          b = length (filter (\<lambda>t. sql_user t \<and> sql_assistant t) g)
      in n = 1 \<and> u = 1 \<and> a = 1
         \<or> n = 2 \<and> u = 1 \<and> a = 1 \<and> b = 0
         \<or> n = 1 \<and> last_key g < last_key turns \<and> u + a = 1)"

definition group_of :: "turn list \<Rightarrow> int \<Rightarrow> turn list" where
  "group_of turns g = filter (\<lambda>t. ct_group t = g) turns"

definition taggable :: "turn list \<Rightarrow> int \<Rightarrow> bool" where
  "taggable turns g \<longleftrightarrow>
     g \<ge> 0 \<and> list_ex (\<lambda>t. ct_tagged_at t = None) (group_of turns g) \<and> group_complete turns (group_of turns g)"

definition has_taggable_group :: "turn list \<Rightarrow> bool" where
  "has_taggable_group turns \<longleftrightarrow> list_ex (\<lambda>t. taggable turns (ct_group t)) turns"

definition has_complete_untagged_canonical_group :: "int \<Rightarrow> lifecycle \<Rightarrow> bool" where
  "has_complete_untagged_canonical_group e s \<longleftrightarrow>
     (case lc_conversation s of None \<Rightarrow> False | Some c \<Rightarrow> lf_epoch c = e \<and> has_taggable_group (lc_turns s))"

section \<open>Conversations\<close>

text \<open>\<open>conversation_lifecycle\<close>: the generation row every lifecycle-locked operation looks for.\<close>

definition activate_conversation :: "bool \<Rightarrow> lifecycle \<Rightarrow> lc_error + (int \<times> lifecycle)" where
  "activate_conversation recreate_deleted s =
     (case lc_generation s of
        None \<Rightarrow> Inr (0, s\<lparr>lc_generation := Some (0, False)\<rparr>)
      | Some (g, deleted) \<Rightarrow>
          if deleted \<and> \<not> recreate_deleted then Inl LifecycleConflict
          else (let g' = g + (if deleted then 1 else 0) in Inr (g', s\<lparr>lc_generation := Some (g', False)\<rparr>)))"

definition begin_conversation_deletion :: "lifecycle \<Rightarrow> int \<times> lifecycle" where
  "begin_conversation_deletion s =
     (let g = (case lc_generation s of None \<Rightarrow> 1 | Some (g, _) \<Rightarrow> g + 1)
      in (g, s\<lparr>lc_generation := Some (g, True)\<rparr>))"

definition is_conversation_generation_current :: "int \<Rightarrow> lifecycle \<Rightarrow> bool" where
  "is_conversation_generation_current generation s \<longleftrightarrow>
     (case lc_generation s of None \<Rightarrow> generation = 0 | Some (g, deleted) \<Rightarrow> g = generation \<and> \<not> deleted)"

definition fresh_conversation :: "string \<Rightarrow> conversation" where
  "fresh_conversation tenant =
     \<lparr>lf_tenant = tenant, lf_epoch = 1, lf_phase = Init, lf_pending = 0, lf_last_raw = 0,
      lf_last_ingestible = 0, lf_deleted_at = None\<rparr>"

definition claim_or_verify_conversation :: "string \<Rightarrow> lifecycle \<Rightarrow> lc_error + lifecycle" where
  "claim_or_verify_conversation tenant s =
     (let s' = (case lc_conversation s of
                  None \<Rightarrow> s\<lparr>lc_conversation := Some (fresh_conversation tenant)\<rparr> | Some _ \<Rightarrow> s)
      in if lf_tenant (the (lc_conversation s')) \<noteq> tenant then Inl PermissionError else Inr s')"

definition get_lifecycle_epoch :: "lifecycle \<Rightarrow> lc_error + int" where
  "get_lifecycle_epoch s = (case lc_conversation s of None \<Rightarrow> Inl KeyError | Some c \<Rightarrow> Inr (lf_epoch c))"

definition verify_lifecycle_epoch :: "int \<Rightarrow> lifecycle \<Rightarrow> lc_error + unit" where
  "verify_lifecycle_epoch expected s =
     (if expected \<noteq> (case lc_conversation s of None \<Rightarrow> -1 | Some c \<Rightarrow> lf_epoch c) then Inl EpochMismatch else Inr ())"

definition get_conversation_phase :: "lifecycle \<Rightarrow> lc_error + phase" where
  "get_conversation_phase s = (case lc_conversation s of None \<Rightarrow> Inl KeyError | Some c \<Rightarrow> Inr (lf_phase c))"

text \<open>\<open>deleted_at IS NULL AND phase NOT IN ('deleted','merged')\<close>.\<close>

definition live :: "conversation \<Rightarrow> bool" where
  "live c \<longleftrightarrow> lf_deleted_at c = None \<and> lf_phase c \<notin> {Deleted, Merged}"

definition is_attachable_target :: "string option \<Rightarrow> lifecycle \<Rightarrow> bool" where
  "is_attachable_target tenant s \<longleftrightarrow>
     (case lc_conversation s of
        None \<Rightarrow> False
      | Some c \<Rightarrow> live c \<and> (case tenant of None \<Rightarrow> True | Some t \<Rightarrow> lf_tenant c = t))"

definition stop_episode :: "int \<Rightarrow> episode \<Rightarrow> episode" where
  "stop_episode now e =
     e\<lparr>ep_state := EpisodeAbandoned,
       ep_completed := (case ep_completed e of None \<Rightarrow> Some now | Some t \<Rightarrow> Some t)\<rparr>"

definition cancel_op :: "int \<Rightarrow> operation \<Rightarrow> operation" where
  "cancel_op now p =
     p\<lparr>op_state := Cancelled,
       op_completed := (case op_completed p of None \<Rightarrow> Some now | Some t \<Rightarrow> Some t)\<rparr>"

definition mark_conversation_deleted :: "int \<Rightarrow> lifecycle \<Rightarrow> lc_error + lifecycle" where
  "mark_conversation_deleted now s =
     (case update_conversation (\<lambda>_. True) (\<lambda>c. c\<lparr>lf_phase := Deleted, lf_deleted_at := Some now\<rparr>) s of
        (False, _) \<Rightarrow> Inl KeyError
      | (True, s1) \<Rightarrow>
          (let s2 = snd (update_episodes (\<lambda>e. ep_state e = EpisodeRunning) (stop_episode now) s1);
               s3 = snd (update_ops op_active (cancel_op now) s2)
           in Inr (s3\<lparr>lc_handles := []\<rparr>)))"

definition increment_lifecycle_epoch_on_resurrect :: "int \<Rightarrow> lifecycle \<Rightarrow> lc_error + (int \<times> lifecycle)" where
  "increment_lifecycle_epoch_on_resurrect now s =
     (let s1 = snd (update_conversation (\<lambda>c. lf_phase c = Deleted)
                      (\<lambda>c. c\<lparr>lf_epoch := lf_epoch c + 1, lf_phase := Init, lf_deleted_at := None\<rparr>) s)
      in case lc_conversation s1 of
           None \<Rightarrow> Inl KeyError
         | Some c \<Rightarrow>
             (let s2 = snd (update_episodes (\<lambda>e. ep_epoch e < lf_epoch c \<and> ep_state e = EpisodeRunning)
                              (stop_episode now) s1);
                  s3 = snd (update_ops (\<lambda>p. op_epoch p < lf_epoch c \<and> op_active p) (cancel_op now) s2)
              in Inr (lf_epoch c, s3)))"

text \<open>Writes guarded by the epoch alone.\<close>

definition update_request_metadata :: "int \<Rightarrow> int \<Rightarrow> int \<Rightarrow> lifecycle \<Rightarrow> bool \<times> lifecycle" where
  "update_request_metadata e raw ingestible =
     update_conversation (\<lambda>c. lf_epoch c = e) (\<lambda>c. c\<lparr>lf_last_raw := raw, lf_last_ingestible := ingestible\<rparr>)"

definition widen_pending_raw_payload_entries :: "int \<Rightarrow> int \<Rightarrow> lifecycle \<Rightarrow> bool \<times> lifecycle" where
  "widen_pending_raw_payload_entries e v =
     update_conversation (\<lambda>c. lf_epoch c = e) (\<lambda>c. c\<lparr>lf_pending := max (lf_pending c) v\<rparr>)"

definition set_phase :: "int \<Rightarrow> phase \<Rightarrow> lifecycle \<Rightarrow> bool \<times> lifecycle" where
  "set_phase e ph = update_conversation (\<lambda>c. lf_epoch c = e) (\<lambda>c. c\<lparr>lf_phase := ph\<rparr>)"

definition set_phase_and_drain_pending_raw :: "int \<Rightarrow> phase \<Rightarrow> lifecycle \<Rightarrow> int option \<times> lifecycle" where
  "set_phase_and_drain_pending_raw e ph s =
     (case lc_conversation s of
        None \<Rightarrow> (None, s)
      | Some c \<Rightarrow>
          if lf_epoch c \<noteq> e then (None, s)
          else (Some (lf_pending c), s\<lparr>lc_conversation := Some (c\<lparr>lf_phase := ph, lf_pending := 0\<rparr>)\<rparr>))"

section \<open>Ingestion episodes\<close>

definition widen_episode :: "int \<Rightarrow> int \<Rightarrow> lifecycle \<Rightarrow> nat \<times> lifecycle" where
  "widen_episode e raw =
     update_episodes (\<lambda>x. ep_state x = EpisodeRunning \<and> ep_epoch x = e) (\<lambda>x. x\<lparr>ep_raw := max (ep_raw x) raw\<rparr>)"

text \<open>\<open>INSERT ... ON CONFLICT (conversation_id, lifecycle_epoch) WHERE status = 'running' DO UPDATE\<close>.\<close>

definition upsert_ingestion_episode ::
  "int \<Rightarrow> string \<Rightarrow> int \<Rightarrow> string \<Rightarrow> int \<Rightarrow> lifecycle \<Rightarrow> lc_error + lifecycle" where
  "upsert_ingestion_episode now episode_id e worker raw s =
     (if list_ex (\<lambda>x. ep_state x = EpisodeRunning \<and> ep_epoch x = e) (lc_episodes s)
      then Inr (snd (widen_episode e raw s))
      else case insert_episode (new_episode episode_id e worker raw now) s of
             None \<Rightarrow> Inl IntegrityError | Some s' \<Rightarrow> Inr s')"

definition take_episode :: "int \<Rightarrow> int \<Rightarrow> int \<Rightarrow> string \<Rightarrow> lifecycle \<Rightarrow> nat \<times> lifecycle" where
  "take_episode now cutoff e worker =
     update_episodes
       (\<lambda>x. ep_state x = EpisodeRunning \<and> ep_epoch x = e \<and> (ep_owner x = worker \<or> ep_heartbeat x < cutoff))
       (\<lambda>x. x\<lparr>ep_owner := worker, ep_heartbeat := now\<rparr>)"

datatype claim_result = Stale | NoWork | ClaimedTransitioned | BusyTransitioned | Claimed | Busy

definition claim_ingestion_for_complete_group ::
  "int \<Rightarrow> string \<Rightarrow> int \<Rightarrow> string \<Rightarrow> int \<Rightarrow> int \<Rightarrow> lifecycle \<Rightarrow> lc_error + (claim_result \<times> lifecycle)" where
  "claim_ingestion_for_complete_group now episode_id e worker raw ttl s =
     (case lc_conversation s of
        None \<Rightarrow> Inr (Stale, s)
      | Some c \<Rightarrow>
          if lf_deleted_at c \<noteq> None \<or> lf_epoch c \<noteq> e then Inr (Stale, s)
          else if lf_phase c \<notin> {Init, Active, Ingesting} then Inr (NoWork, s)
          else if \<not> has_taggable_group (lc_turns s) then Inr (NoWork, s)
          else
            (let transitioned = lf_phase c \<in> {Init, Active};
                 s1 = (if transitioned then s\<lparr>lc_conversation := Some (c\<lparr>lf_phase := Ingesting\<rparr>)\<rparr> else s)
             in case upsert_ingestion_episode now episode_id e worker (max 1 raw) s1 of
                  Inl err \<Rightarrow> Inl err
                | Inr s2 \<Rightarrow>
                    (let (n, s3) = take_episode now (now - ttl) e worker s2
                     in Inr (if transitioned then (if n = 1 then ClaimedTransitioned else BusyTransitioned)
                             else (if n = 1 then Claimed else Busy), s3))))"

definition claim_ingestion_lease :: "int \<Rightarrow> int \<Rightarrow> string \<Rightarrow> int \<Rightarrow> lifecycle \<Rightarrow> bool \<times> lifecycle" where
  "claim_ingestion_lease now e worker ttl s =
     (let (n, s') = take_episode now (now - ttl) e worker s in (n = 1, s'))"

text \<open>The correlated subquery \<open>lifecycle_epoch = (SELECT lifecycle_epoch FROM conversations ...)\<close>.\<close>

definition epoch_current :: "int \<Rightarrow> lifecycle \<Rightarrow> bool" where
  "epoch_current e s \<longleftrightarrow> (case lc_conversation s of None \<Rightarrow> False | Some c \<Rightarrow> lf_epoch c = e)"

definition owned_episode :: "int \<Rightarrow> string \<Rightarrow> lifecycle \<Rightarrow> episode \<Rightarrow> bool" where
  "owned_episode e worker s x \<longleftrightarrow>
     ep_state x = EpisodeRunning \<and> ep_epoch x = e \<and> ep_owner x = worker \<and> epoch_current e s"

definition refresh_ingestion_heartbeat :: "int \<Rightarrow> int \<Rightarrow> string \<Rightarrow> lifecycle \<Rightarrow> bool \<times> lifecycle" where
  "refresh_ingestion_heartbeat now e worker s =
     (let (n, s') = update_episodes (owned_episode e worker s) (\<lambda>x. x\<lparr>ep_heartbeat := now\<rparr>) s in (n = 1, s'))"

definition complete_ingestion_episode :: "int \<Rightarrow> int \<Rightarrow> string \<Rightarrow> lifecycle \<Rightarrow> bool \<times> lifecycle" where
  "complete_ingestion_episode now e worker s =
     (let (n, s') = update_episodes (\<lambda>x. owned_episode e worker s x \<and> \<not> has_taggable_group (lc_turns s))
                      (\<lambda>x. x\<lparr>ep_state := EpisodeCompleted, ep_completed := Some now\<rparr>) s
      in (n = 1, s'))"

definition find_stale_ingestion_episodes :: "int \<Rightarrow> int \<Rightarrow> lifecycle \<Rightarrow> episode list" where
  "find_stale_ingestion_episodes now grace s =
     (case lc_conversation s of
        None \<Rightarrow> []
      | Some c \<Rightarrow> if lf_phase c = Deleted then []
          else sort_key ep_heartbeat
                 (filter (\<lambda>x. ep_state x = EpisodeRunning \<and> ep_epoch x = lf_epoch c \<and> ep_heartbeat x < now - grace)
                    (lc_episodes s)))"

section \<open>Compaction operations\<close>

definition begin_compaction_with_lock ::
  "(lifecycle \<Rightarrow> bool) \<Rightarrow> phase option \<Rightarrow> int \<Rightarrow> int \<Rightarrow> string \<Rightarrow> string \<Rightarrow> int \<Rightarrow> string \<Rightarrow> lifecycle \<Rightarrow> bool \<times> lifecycle" where
  "begin_compaction_with_lock pre_begin_check required now e worker i pc name s =
     (case (lc_generation s, lc_conversation s) of
        (Some _, Some c) \<Rightarrow>
          if lf_deleted_at c \<noteq> None \<or> lf_epoch c \<noteq> e then (False, s)
          else if (case required of Some ph \<Rightarrow> lf_phase c \<noteq> ph | None \<Rightarrow> lf_phase c \<notin> {Active, Ingesting})
          then (False, s)
          else if \<not> pre_begin_check s then (False, s)
          else (case insert_op (new_op i e worker pc name Running now)
                       (s\<lparr>lc_conversation := Some (c\<lparr>lf_phase := Compacting\<rparr>)\<rparr>) of
                  None \<Rightarrow> (False, s) | Some s' \<Rightarrow> (True, s'))
      | _ \<Rightarrow> (False, s))"

definition start_compaction_operation ::
  "int \<Rightarrow> string \<Rightarrow> int \<Rightarrow> string \<Rightarrow> int \<Rightarrow> string \<Rightarrow> lifecycle \<Rightarrow> lc_error + lifecycle" where
  "start_compaction_operation now i e worker pc name s =
     (case insert_op (new_op i e worker pc name Queued now) s of None \<Rightarrow> Inl IntegrityError | Some s' \<Rightarrow> Inr s')"

text \<open>
  \<open>claim_compaction_lease\<close> returns whether the UPDATE hit and, from the SELECT before it, the
  newest active operation and its owner.
\<close>

definition newest_active :: "int \<Rightarrow> lifecycle \<Rightarrow> operation option" where
  "newest_active e s =
     (case rev (sort_key op_started (filter (\<lambda>p. op_active p \<and> op_epoch p = e) (lc_ops s))) of
        [] \<Rightarrow> None | p # _ \<Rightarrow> Some p)"

definition claim_compaction_lease ::
  "int \<Rightarrow> int \<Rightarrow> string \<Rightarrow> int \<Rightarrow> lifecycle \<Rightarrow> (bool \<times> string option \<times> string option) \<times> lifecycle" where
  "claim_compaction_lease now e worker ttl s =
     (let (n, s') = update_ops
            (\<lambda>p. op_active p \<and> op_epoch p = e \<and> (op_owner p = worker \<or> op_heartbeat p < now - ttl))
            (\<lambda>p. p\<lparr>op_owner := worker, op_heartbeat := now\<rparr>) s
      in ((n > 0, map_option op_id (newest_active e s), map_option op_owner (newest_active e s)), s'))"

text \<open>
  The takeover.  Deleting a segment cascades to its chunks (trigger \<open>segments_chunks_ad\<close>); the
  three tables that came with the fence are cleaned only when the mode enforces it.
\<close>

definition cleaned_always :: "derived_table \<Rightarrow> bool" where
  "cleaned_always t \<longleftrightarrow> t \<in> {Segments, FactRows, TagSummaries, TagSummaryEmbeddings}"

definition derived_cleanup :: "fence_mode \<Rightarrow> string \<Rightarrow> derived list \<Rightarrow> derived list" where
  "derived_cleanup mode dead rows =
     (let hit = (\<lambda>d. dv_operation d = Some dead \<and> (cleaned_always (dv_table d) \<or> enforces mode));
          gone = map dv_ref (filter (\<lambda>d. hit d \<and> dv_table d = Segments) rows)
      in filter (\<lambda>d. \<not> hit d \<and> \<not> (dv_table d = SegmentChunks \<and> dv_ref d \<in> set gone)) rows)"

definition unmark_compacted :: "string \<Rightarrow> turn \<Rightarrow> turn" where
  "unmark_compacted dead t =
     (if ct_operation t = Some dead then t\<lparr>ct_compacted_at := None, ct_operation := None\<rparr> else t)"

definition cleanup_abandoned_compaction ::
  "fence_mode \<Rightarrow> int \<Rightarrow> string \<Rightarrow> string \<Rightarrow> int \<Rightarrow> string \<Rightarrow> int \<Rightarrow> lifecycle \<Rightarrow> lc_error + (bool \<times> lifecycle)" where
  "cleanup_abandoned_compaction mode now dead i e worker pc s =
     (if lc_generation s = None then Inr (False, s)
      else
        (let (n, s1) = update_ops (\<lambda>p. op_id p = dead \<and> op_epoch p = e \<and> op_state p = Running)
                         (\<lambda>p. p\<lparr>op_state := Abandoned, op_completed := Some now\<rparr>) s;
             s2 = s1\<lparr>lc_derived := derived_cleanup mode dead (lc_derived s1),
                     lc_turns := map (unmark_compacted dead) (lc_turns s1)\<rparr>
         in if n > 0
            then (case insert_op (new_op i e worker pc ''starting'' Running now) s2 of
                    None \<Rightarrow> Inl IntegrityError | Some s3 \<Rightarrow> Inr (True, s3))
            else Inr (False, s2)))"

definition refresh_compaction_heartbeat :: "int \<Rightarrow> int \<Rightarrow> string \<Rightarrow> string \<Rightarrow> lifecycle \<Rightarrow> bool \<times> lifecycle" where
  "refresh_compaction_heartbeat now e worker i s =
     (let (n, s') = update_ops (\<lambda>p. op_id p = i \<and> op_epoch p = e \<and> op_owner p = worker \<and> op_state p = Running)
                      (\<lambda>p. p\<lparr>op_heartbeat := now\<rparr>) s
      in (n > 0, s'))"

definition owned_op :: "int \<Rightarrow> string \<Rightarrow> lifecycle \<Rightarrow> operation \<Rightarrow> bool" where
  "owned_op e worker s p \<longleftrightarrow> op_active p \<and> op_epoch p = e \<and> epoch_current e s \<and> op_owner p = worker"

definition advance_compaction_phase :: "int \<Rightarrow> int \<Rightarrow> string \<Rightarrow> int \<Rightarrow> string \<Rightarrow> lifecycle \<Rightarrow> bool \<times> lifecycle" where
  "advance_compaction_phase now e worker index name s =
     (let (n, s') = update_ops (owned_op e worker s)
            (\<lambda>p. p\<lparr>op_phase_index := index, op_phase_name := name, op_heartbeat := now, op_state := Running\<rparr>) s
      in (n = 1, s'))"

definition complete_compaction_operation :: "int \<Rightarrow> int \<Rightarrow> string \<Rightarrow> lifecycle \<Rightarrow> bool \<times> lifecycle" where
  "complete_compaction_operation now e worker s =
     (let (n, s') = update_ops (owned_op e worker s) (\<lambda>p. p\<lparr>op_state := Completed, op_completed := Some now\<rparr>) s
      in (n = 1, s'))"

definition fail_compaction_operation :: "int \<Rightarrow> int \<Rightarrow> string \<Rightarrow> string \<Rightarrow> lifecycle \<Rightarrow> bool \<times> lifecycle" where
  "fail_compaction_operation now e worker msg s =
     (let (n, s') = update_ops (owned_op e worker s)
            (\<lambda>p. p\<lparr>op_state := Failed, op_completed := Some now, op_error := msg\<rparr>) s
      in (n = 1, s'))"

definition fail_orphaned_compaction_operation ::
  "int \<Rightarrow> string \<Rightarrow> int \<Rightarrow> int \<Rightarrow> string \<Rightarrow> lifecycle \<Rightarrow> bool \<times> lifecycle" where
  "fail_orphaned_compaction_operation now i e stale_after msg s =
     (let orphaned = (case lc_conversation s of None \<Rightarrow> False
                      | Some c \<Rightarrow> lf_epoch c = e \<and> lf_phase c \<noteq> Compacting);
          (n, s') = update_ops
            (\<lambda>p. op_id p = i \<and> op_state p = Running \<and> op_heartbeat p < now - stale_after \<and> op_epoch p = e \<and> orphaned)
            (\<lambda>p. p\<lparr>op_state := Failed, op_completed := Some now, op_error := msg\<rparr>) s
      in (n = 1, s'))"

definition find_stale_compaction_operations :: "int \<Rightarrow> int \<Rightarrow> lifecycle \<Rightarrow> operation list" where
  "find_stale_compaction_operations now grace s =
     (case lc_conversation s of
        None \<Rightarrow> []
      | Some c \<Rightarrow> if lf_phase c = Deleted then []
          else sort_key op_heartbeat
                 (filter (\<lambda>p. op_state p = Running \<and> op_epoch p = lf_epoch c \<and> op_heartbeat p < now - grace)
                    (lc_ops s)))"

text \<open>
  The exit: refused while another operation is active or the caller's own is not finished;
  then the phase follows from what is left to tag, and the pending payload count is drained.
\<close>

definition own_op_finished :: "int \<Rightarrow> string \<Rightarrow> string \<Rightarrow> lifecycle \<Rightarrow> bool" where
  "own_op_finished e worker i s \<longleftrightarrow>
     list_ex (\<lambda>p. op_id p = i \<and> op_owner p = worker \<and> op_epoch p = e \<and> op_terminal p) (lc_ops s)"

definition drain_compaction_exit ::
  "int \<Rightarrow> string \<Rightarrow> int \<Rightarrow> string \<Rightarrow> string option \<Rightarrow> lifecycle \<Rightarrow> lc_error + (phase option \<times> lifecycle)" where
  "drain_compaction_exit now episode_id e worker expected s =
     (case (lc_generation s, lc_conversation s) of
        (Some _, Some c) \<Rightarrow>
          if (case expected of None \<Rightarrow> False | Some i \<Rightarrow> \<not> own_op_finished e worker i s)
             \<or> list_ex (\<lambda>p. op_active p \<and> op_epoch p = e) (lc_ops s)
             \<or> lf_epoch c \<noteq> e
             \<or> expected \<noteq> None \<and> lf_phase c \<noteq> Compacting
          then Inr (None, s)
          else if has_taggable_group (lc_turns s) then
            (case insert_episode (new_episode episode_id e worker (lf_pending c) now)
                    (s\<lparr>lc_conversation := Some (c\<lparr>lf_phase := Ingesting, lf_pending := 0\<rparr>)\<rparr>) of
               None \<Rightarrow> Inl IntegrityError | Some s' \<Rightarrow> Inr (Some Ingesting, s'))
          else Inr (Some Active, s\<lparr>lc_conversation := Some (c\<lparr>lf_phase := Active, lf_pending := 0\<rparr>)\<rparr>)
      | _ \<Rightarrow> Inr (None, s))"

section \<open>Fenced writes\<close>

text \<open>\<open>_validate_compaction_guard_kwargs\<close>: all three guard arguments or none.\<close>

definition guard_kwargs_valid :: "string option \<Rightarrow> string option \<Rightarrow> int option \<Rightarrow> bool" where
  "guard_kwargs_valid i worker e \<longleftrightarrow>
     length (filter (\<lambda>b. b) [i = None, worker = None, e = None]) \<in> {0, 3}"

definition holds_lease :: "string \<Rightarrow> string \<Rightarrow> int \<Rightarrow> lifecycle \<Rightarrow> bool" where
  "holds_lease i worker e s \<longleftrightarrow>
     list_ex (\<lambda>p. op_id p = i \<and> op_state p = Running \<and> op_owner p = worker \<and> op_epoch p = e) (lc_ops s)"

definition groups_of_ids :: "string list \<Rightarrow> turn list \<Rightarrow> int list" where
  "groups_of_ids ids turns = map ct_group (filter (\<lambda>t. ct_id t \<in> set ids \<and> ct_group t \<ge> 0) turns)"

definition compaction_target :: "string list \<Rightarrow> turn list \<Rightarrow> turn \<Rightarrow> bool" where
  "compaction_target ids turns t \<longleftrightarrow> ct_id t \<in> set ids \<or> ct_group t \<in> set (groups_of_ids ids turns)"

definition mark_canonical_turns_compacted ::
  "fence_mode \<Rightarrow> int \<Rightarrow> string list \<Rightarrow> (string \<times> string \<times> int) option \<Rightarrow> lifecycle \<Rightarrow> lc_error + (nat \<times> lifecycle)" where
  "mark_canonical_turns_compacted mode stamp ids guard s =
     (if ids = [] then Inr (0, s)
      else
        let hit = compaction_target ids (lc_turns s)
        in case guard of
             None \<Rightarrow>
               Inr (length (filter hit (lc_turns s)),
                    s\<lparr>lc_turns := map (\<lambda>t. if hit t then t\<lparr>ct_compacted_at := Some stamp\<rparr> else t) (lc_turns s)\<rparr>)
           | Some (i, worker, e) \<Rightarrow>
               let n = (if holds_lease i worker e s then length (filter hit (lc_turns s)) else 0);
                   s' = (if holds_lease i worker e s
                         then s\<lparr>lc_turns := map (\<lambda>t. if hit t then t\<lparr>ct_compacted_at := Some stamp, ct_operation := Some i\<rparr>
                                                   else t) (lc_turns s)\<rparr>
                         else s)
               in if n = 0 then (if enforces mode then Inl LeaseLost else Inr (0, s)) else Inr (n, s'))"

section \<open>The backlog sweeper\<close>

text \<open>\<open>verify_backlog_candidate_under_lock\<close> (core/sweeper\_backlog.py).\<close>

record backlog_candidate =
  bc_tenant :: string
  bc_epoch :: int

definition last_terminal :: "int \<Rightarrow> lifecycle \<Rightarrow> int option" where
  "last_terminal e s =
     (case map (\<lambda>p. case op_completed p of Some t \<Rightarrow> t | None \<Rightarrow> op_started p)
             (filter (\<lambda>p. op_terminal p \<and> op_epoch p = e) (lc_ops s)) of
        [] \<Rightarrow> None | t # ts \<Rightarrow> Some (fold max ts t))"

definition verify_backlog_candidate_under_lock :: "backlog_candidate \<Rightarrow> int \<Rightarrow> int \<Rightarrow> int \<Rightarrow> lifecycle \<Rightarrow> bool" where
  "verify_backlog_candidate_under_lock cand min_turns now grace s \<longleftrightarrow>
     (case lc_conversation s of
        None \<Rightarrow> False
      | Some c \<Rightarrow>
          lf_phase c = Active \<and> lf_deleted_at c = None \<and> lf_tenant c = bc_tenant cand \<and> lf_epoch c = bc_epoch cand
          \<and> int (length (filter (\<lambda>t. ct_tagged_at t \<noteq> None \<and> ct_compacted_at t = None) (lc_turns s))) \<ge> min_turns
          \<and> \<not> has_taggable_group (lc_turns s)
          \<and> \<not> list_ex (\<lambda>p. op_active p \<and> op_epoch p = bc_epoch cand) (lc_ops s)
          \<and> (case last_terminal (bc_epoch cand) s of None \<Rightarrow> True | Some t \<Rightarrow> t < now - grace))"

definition claim_compaction_backlog ::
  "backlog_candidate \<Rightarrow> int \<Rightarrow> int \<Rightarrow> int \<Rightarrow> string \<Rightarrow> string \<Rightarrow> int \<Rightarrow> lifecycle \<Rightarrow> bool \<times> lifecycle" where
  "claim_compaction_backlog cand min_turns now grace i worker pc s =
     begin_compaction_with_lock (verify_backlog_candidate_under_lock cand min_turns now grace)
       (Some Active) now (bc_epoch cand) worker i pc ''starting'' s"

end
