(* ===== verification/LifecycleProps.thy ===== *)
theory LifecycleProps
  imports Lifecycle
begin

text \<open>
  The lifecycle as a state machine: the step relation of the operations the program runs on one
  conversation, the invariant of its reachable states, the finality of finished operations and
  the fence it gives, and the takeover of an abandoned compaction.
\<close>

section \<open>Steps\<close>

text \<open>
  \<open>outside\<close> stands for the other writers of the transcript and of derived rows: they never
  stamp a turn with a compaction operation.  \<open>set_phase\<close> is only ever called with \<open>'active'\<close>, and
  the exit always names its operation; \<open>upsert_ingestion_episode\<close>, \<open>start_compaction_operation\<close>
  and \<open>set_phase_and_drain_pending_raw\<close> have no caller of their own.
\<close>

definition stamps :: "turn list \<Rightarrow> string set" where
  "stamps turns = {i. \<exists>t\<in>set turns. ct_operation t = Some i}"

inductive lc_step :: "lifecycle \<Rightarrow> lifecycle \<Rightarrow> bool" where
  activate: "activate_conversation r s = Inr (g, s') \<Longrightarrow> lc_step s s'"
| begin_deletion: "begin_conversation_deletion s = (g, s') \<Longrightarrow> lc_step s s'"
| claim_conversation: "claim_or_verify_conversation tenant s = Inr s' \<Longrightarrow> lc_step s s'"
| delete: "mark_conversation_deleted now s = Inr s' \<Longrightarrow> lc_step s s'"
| resurrect: "increment_lifecycle_epoch_on_resurrect now s = Inr (e, s') \<Longrightarrow> lc_step s s'"
| metadata: "update_request_metadata e raw ingestible s = (b, s') \<Longrightarrow> lc_step s s'"
| widen: "widen_pending_raw_payload_entries e v s = (b, s') \<Longrightarrow> lc_step s s'"
| activate_phase: "set_phase e Active s = (b, s') \<Longrightarrow> lc_step s s'"
| claim_ingestion: "claim_ingestion_for_complete_group now i e w raw ttl s = Inr (res, s') \<Longrightarrow> lc_step s s'"
| take_ingestion: "claim_ingestion_lease now e w ttl s = (b, s') \<Longrightarrow> lc_step s s'"
| refresh_ingestion: "refresh_ingestion_heartbeat now e w s = (b, s') \<Longrightarrow> lc_step s s'"
| complete_ingestion: "complete_ingestion_episode now e w s = (b, s') \<Longrightarrow> lc_step s s'"
| begin_compaction: "begin_compaction_with_lock chk req now e w i pc name s = (b, s') \<Longrightarrow> lc_step s s'"
| take_compaction: "claim_compaction_lease now e w ttl s = (res, s') \<Longrightarrow> lc_step s s'"
| takeover: "cleanup_abandoned_compaction mode now dead i e w pc s = Inr (b, s') \<Longrightarrow> lc_step s s'"
| refresh_compaction: "refresh_compaction_heartbeat now e w i s = (b, s') \<Longrightarrow> lc_step s s'"
| advance: "advance_compaction_phase now e w ix name s = (b, s') \<Longrightarrow> lc_step s s'"
| complete_compaction: "complete_compaction_operation now e w s = (b, s') \<Longrightarrow> lc_step s s'"
| fail_compaction: "fail_compaction_operation now e w msg s = (b, s') \<Longrightarrow> lc_step s s'"
| fail_orphan: "fail_orphaned_compaction_operation now i e stale msg s = (b, s') \<Longrightarrow> lc_step s s'"
| drain: "drain_compaction_exit now i e w (Some own) s = Inr (res, s') \<Longrightarrow> lc_step s s'"
| compacted: "mark_canonical_turns_compacted mode stamp ids guard s = Inr (n, s') \<Longrightarrow> lc_step s s'"
| outside: "stamps turns \<subseteq> stamps (lc_turns s) \<Longrightarrow> lc_step s (s\<lparr>lc_turns := turns, lc_derived := drv\<rparr>)"

abbreviation lc_run :: "lifecycle \<Rightarrow> lifecycle \<Rightarrow> bool" where
  "lc_run \<equiv> lc_step\<^sup>*\<^sup>*"

definition no_conversation :: "lifecycle \<Rightarrow> bool" where
  "no_conversation s \<longleftrightarrow> lc_conversation s = None \<and> lc_ops s = [] \<and> lc_episodes s = [] \<and> stamps (lc_turns s) = {}"

section \<open>The invariant\<close>

definition ops_ok :: "int \<Rightarrow> operation list \<Rightarrow> bool" where
  "ops_ok e ops \<longleftrightarrow> (\<forall>p\<in>set ops. op_epoch p \<le> e) \<and> (\<forall>p\<in>set ops. op_active p \<longrightarrow> op_epoch p = e)
     \<and> length (filter op_active ops) \<le> 1"

definition episodes_ok :: "int \<Rightarrow> episode list \<Rightarrow> bool" where
  "episodes_ok e eps \<longleftrightarrow> (\<forall>x\<in>set eps. ep_epoch x \<le> e) \<and> (\<forall>x\<in>set eps. ep_state x = EpisodeRunning \<longrightarrow> ep_epoch x = e)
     \<and> length (filter (\<lambda>x. ep_state x = EpisodeRunning) eps) \<le> 1"

definition stamps_ok :: "operation list \<Rightarrow> turn list \<Rightarrow> bool" where
  "stamps_ok ops turns \<longleftrightarrow> (\<forall>i\<in>stamps turns. \<exists>p\<in>set ops. op_id p = i \<and> op_state p \<noteq> Abandoned)"

definition quiet :: "lifecycle \<Rightarrow> bool" where
  "quiet s \<longleftrightarrow> (\<forall>p\<in>set (lc_ops s). \<not> op_active p) \<and> (\<forall>x\<in>set (lc_episodes s). ep_state x \<noteq> EpisodeRunning)"

definition lc_inv :: "lifecycle \<Rightarrow> bool" where
  "lc_inv s \<longleftrightarrow>
     (case lc_conversation s of
        None \<Rightarrow> lc_ops s = [] \<and> lc_episodes s = []
      | Some c \<Rightarrow> ops_ok (lf_epoch c) (lc_ops s) \<and> episodes_ok (lf_epoch c) (lc_episodes s)
          \<and> (lf_deleted_at c \<noteq> None \<longrightarrow> lf_phase c \<noteq> Compacting \<and> quiet s)
          \<and> (lf_phase c = Deleted \<longrightarrow> lf_deleted_at c \<noteq> None))
     \<and> distinct (map op_id (lc_ops s)) \<and> distinct (map ep_id (lc_episodes s))
     \<and> stamps_ok (lc_ops s) (lc_turns s)"

named_theorems lc_simps \<open>updates of the lifecycle state\<close>

text \<open>An update of operations keeps identity and epoch, and never revives a finished one.\<close>

definition tame :: "(operation \<Rightarrow> bool) \<Rightarrow> (operation \<Rightarrow> operation) \<Rightarrow> bool" where
  "tame P f \<longleftrightarrow> (\<forall>p. P p \<longrightarrow> op_id (f p) = op_id p \<and> op_epoch (f p) = op_epoch p \<and> op_active p)"

definition tame_episode :: "(episode \<Rightarrow> bool) \<Rightarrow> (episode \<Rightarrow> episode) \<Rightarrow> bool" where
  "tame_episode P f \<longleftrightarrow>
     (\<forall>x. P x \<longrightarrow> ep_id (f x) = ep_id x \<and> ep_epoch (f x) = ep_epoch x \<and> ep_state x = EpisodeRunning)"

lemma length_filter_map_le:
  assumes "\<And>x. Q (g x) \<Longrightarrow> Q x"
  shows "length (filter Q (map g xs)) \<le> length (filter Q xs)"
  using assms by (induction xs) (auto intro: le_SucI)

lemma tame_active: "tame P f \<Longrightarrow> op_active (if P p then f p else p) \<Longrightarrow> op_active p"
  by (auto simp: tame_def split: if_splits)

lemma ops_ok_update:
  assumes "tame P f" "ops_ok e ops"
  shows "ops_ok e (map (\<lambda>p. if P p then f p else p) ops)"
proof -
  have "length (filter op_active (map (\<lambda>p. if P p then f p else p) ops)) \<le> length (filter op_active ops)"
    by (rule length_filter_map_le) (rule tame_active[OF assms(1)])
  with assms show ?thesis
    by (auto simp: ops_ok_def tame_def)
qed

lemma episodes_ok_update:
  assumes "tame_episode P f" "episodes_ok e eps"
  shows "episodes_ok e (map (\<lambda>x. if P x then f x else x) eps)"
proof -
  have "length (filter (\<lambda>x. ep_state x = EpisodeRunning) (map (\<lambda>x. if P x then f x else x) eps))
      \<le> length (filter (\<lambda>x. ep_state x = EpisodeRunning) eps)"
    using assms(1) by (intro length_filter_map_le) (auto simp: tame_episode_def split: if_splits)
  with assms show ?thesis
    by (auto simp: episodes_ok_def tame_episode_def)
qed

lemma map_id_update:
  "(\<And>p. P p \<Longrightarrow> k (f p) = k p) \<Longrightarrow> map k (map (\<lambda>p. if P p then f p else p) xs) = map k xs"
  by (induction xs) auto

lemma stamps_ok_update:
  assumes "stamps_ok ops turns" "stamps turns' \<subseteq> stamps turns"
    and "\<And>p. P p \<Longrightarrow> op_id (f p) = op_id p"
    and "\<And>p. P p \<Longrightarrow> op_state (f p) = Abandoned \<Longrightarrow> op_id p \<notin> stamps turns'"
  shows "stamps_ok (map (\<lambda>p. if P p then f p else p) ops) turns'"
proof -
  { fix i assume i: "i \<in> stamps turns'"
    with assms(1,2) obtain p where p: "p \<in> set ops" "op_id p = i" "op_state p \<noteq> Abandoned"
      by (auto simp: stamps_ok_def)
    then have "\<exists>q\<in>set (map (\<lambda>p. if P p then f p else p) ops). op_id q = i \<and> op_state q \<noteq> Abandoned"
      using i assms(3,4)[of p] by (intro bexI[of _ "if P p then f p else p"]) auto }
  then show ?thesis by (auto simp: stamps_ok_def)
qed

section \<open>Every statement keeps the invariant\<close>

lemma update_ops_state [lc_simps]:
  "snd (update_ops P f s) = s\<lparr>lc_ops := map (\<lambda>p. if P p then f p else p) (lc_ops s)\<rparr>"
  by (simp add: update_ops_def)

lemma update_episodes_state [lc_simps]:
  "snd (update_episodes P f s) = s\<lparr>lc_episodes := map (\<lambda>x. if P x then f x else x) (lc_episodes s)\<rparr>"
  by (simp add: update_episodes_def)

lemma inv_update_ops:
  assumes inv: "lc_inv s" and tame: "tame P f" and "\<And>p. P p \<Longrightarrow> op_state (f p) \<noteq> Abandoned"
  shows "lc_inv (s\<lparr>lc_ops := map (\<lambda>p. if P p then f p else p) (lc_ops s)\<rparr>)"
proof -
  have ids: "map op_id (map (\<lambda>p. if P p then f p else p) (lc_ops s)) = map op_id (lc_ops s)"
    using tame by (intro map_id_update) (simp add: tame_def)
  have quiet: "quiet s \<Longrightarrow> quiet (s\<lparr>lc_ops := map (\<lambda>p. if P p then f p else p) (lc_ops s)\<rparr>)"
    using tame by (auto simp: quiet_def tame_def)
  have stamp: "stamps_ok (map (\<lambda>p. if P p then f p else p) (lc_ops s)) (lc_turns s)"
    using inv tame assms(3) by (intro stamps_ok_update) (auto simp: lc_inv_def tame_def)
  show ?thesis
    using inv quiet stamp ops_ok_update[OF tame]
    unfolding lc_inv_def by (auto simp add: ids simp del: map_map split: option.splits)
qed

lemma inv_update_episodes:
  assumes inv: "lc_inv s" and tame: "tame_episode P f"
  shows "lc_inv (s\<lparr>lc_episodes := map (\<lambda>x. if P x then f x else x) (lc_episodes s)\<rparr>)"
proof -
  have ids: "map ep_id (map (\<lambda>x. if P x then f x else x) (lc_episodes s)) = map ep_id (lc_episodes s)"
    using tame by (intro map_id_update) (simp add: tame_episode_def)
  have quiet: "quiet s \<Longrightarrow> quiet (s\<lparr>lc_episodes := map (\<lambda>x. if P x then f x else x) (lc_episodes s)\<rparr>)"
    using tame by (auto simp: quiet_def tame_episode_def)
  show ?thesis
    using inv quiet episodes_ok_update[OF tame]
    unfolding lc_inv_def by (auto simp add: ids simp del: map_map split: option.splits)
qed

text \<open>A conversation update that keeps the epoch and neither deletes nor starts a compaction.\<close>

lemma inv_update_conversation:
  assumes "lc_inv s" "update_conversation P f s = (b, s')"
    and "\<And>c. P c \<Longrightarrow> lf_epoch (f c) = lf_epoch c \<and> lf_deleted_at (f c) = lf_deleted_at c
               \<and> (lf_phase (f c) = lf_phase c \<or> lf_phase (f c) \<in> {Active, Ingesting})"
  shows "lc_inv s'"
proof (cases "lc_conversation s")
  case None
  with assms show ?thesis by (auto simp: update_conversation_def)
next
  case (Some c)
  show ?thesis
  proof (cases "P c")
    case True
    then have "s' = s\<lparr>lc_conversation := Some (f c)\<rparr>"
      using assms(2) Some by (simp add: update_conversation_def)
    then show ?thesis
      using assms(1) assms(3)[OF True] Some by (auto simp: lc_inv_def quiet_def)
  next
    case False
    then show ?thesis using assms(1,2) Some by (simp add: update_conversation_def)
  qed
qed

lemma inv_insert_op:
  assumes "lc_inv s" "insert_op p s = Some s'" "lc_conversation s = Some c"
    and "op_epoch p = lf_epoch c" "lf_deleted_at c = None"
  shows "lc_inv s'"
proof -
  have s': "s' = s\<lparr>lc_ops := lc_ops s @ [p]\<rparr>" and fresh: "op_id p \<notin> set (map op_id (lc_ops s))"
    and single: "op_active p \<Longrightarrow> \<forall>q\<in>set (lc_ops s). op_active q \<longrightarrow> op_epoch q \<noteq> op_epoch p"
    using assms(2) by (auto simp: insert_op_def list_ex_iff split: if_splits)
  have "ops_ok (lf_epoch c) (lc_ops s)"
    using assms(1,3) by (simp add: lc_inv_def)
  with single assms(4) have "ops_ok (lf_epoch c) (lc_ops s @ [p])"
    by (auto simp: ops_ok_def)
  moreover have "stamps_ok (lc_ops s @ [p]) (lc_turns s)"
    using assms(1) by (auto simp: lc_inv_def stamps_ok_def)
  ultimately show ?thesis
    using assms(1,3,5) fresh by (auto simp: lc_inv_def s')
qed

lemma inv_insert_episode:
  assumes "lc_inv s" "insert_episode x s = Some s'" "lc_conversation s = Some c"
    and "ep_epoch x = lf_epoch c" "lf_deleted_at c = None"
  shows "lc_inv s'"
proof -
  have s': "s' = s\<lparr>lc_episodes := lc_episodes s @ [x]\<rparr>" and fresh: "ep_id x \<notin> set (map ep_id (lc_episodes s))"
    and single: "ep_state x = EpisodeRunning \<Longrightarrow>
       \<forall>y\<in>set (lc_episodes s). ep_state y = EpisodeRunning \<longrightarrow> ep_epoch y \<noteq> ep_epoch x"
    using assms(2) by (auto simp: insert_episode_def list_ex_iff split: if_splits)
  have "episodes_ok (lf_epoch c) (lc_episodes s)"
    using assms(1,3) by (simp add: lc_inv_def)
  with single assms(4) have "episodes_ok (lf_epoch c) (lc_episodes s @ [x])"
    by (auto simp: episodes_ok_def)
  then show ?thesis
    using assms(1,3,5) fresh by (auto simp: lc_inv_def s')
qed

lemma inv_turns:
  "lc_inv s \<Longrightarrow> stamps_ok (lc_ops s) turns \<Longrightarrow> lc_inv (s\<lparr>lc_turns := turns, lc_derived := drv\<rparr>)"
  by (auto simp: lc_inv_def quiet_def split: option.splits)

lemma inv_generation: "lc_inv s \<Longrightarrow> lc_inv (s\<lparr>lc_generation := g\<rparr>)"
  by (auto simp: lc_inv_def quiet_def split: option.splits)

lemma inv_handles: "lc_inv s \<Longrightarrow> lc_inv (s\<lparr>lc_handles := h\<rparr>)"
  by (auto simp: lc_inv_def quiet_def split: option.splits)

section \<open>Every operation keeps the invariant\<close>

lemma tame_active_only:
  "(\<And>p. P p \<Longrightarrow> op_active p) \<Longrightarrow> (\<And>p. op_id (f p) = op_id p \<and> op_epoch (f p) = op_epoch p) \<Longrightarrow> tame P f"
  by (simp add: tame_def)

lemma running_active [simp]: "op_state p = Running \<Longrightarrow> op_active p"
  by (simp add: op_active_def)

lemma inv_cancel_all:
  assumes "lc_conversation s = Some c" "lf_deleted_at c \<noteq> None" "lf_phase c \<noteq> Compacting"
    and "ops_ok (lf_epoch c) (lc_ops s)" "episodes_ok (lf_epoch c) (lc_episodes s)"
    and "distinct (map op_id (lc_ops s))" "distinct (map ep_id (lc_episodes s))"
    and "stamps_ok (lc_ops s) (lc_turns s)"
  shows "lc_inv (s\<lparr>lc_episodes := map (\<lambda>x. if ep_state x = EpisodeRunning then stop_episode now x else x) (lc_episodes s),
                   lc_ops := map (\<lambda>p. if op_active p then cancel_op now p else p) (lc_ops s)\<rparr>)"
proof -
  have c: "op_id (cancel_op now p) = op_id p" "op_epoch (cancel_op now p) = op_epoch p"
     "op_state (cancel_op now p) = Cancelled" for p by (simp_all add: cancel_op_def)
  have e: "ep_id (stop_episode now x) = ep_id x" "ep_epoch (stop_episode now x) = ep_epoch x"
     "ep_state (stop_episode now x) = EpisodeAbandoned" for x by (simp_all add: stop_episode_def)
  have ids: "map op_id (map (\<lambda>p. if op_active p then cancel_op now p else p) (lc_ops s)) = map op_id (lc_ops s)"
       "map ep_id (map (\<lambda>x. if ep_state x = EpisodeRunning then stop_episode now x else x) (lc_episodes s))
         = map ep_id (lc_episodes s)"
    by (intro map_id_update, simp add: c e)+
  have ops: "ops_ok (lf_epoch c) (map (\<lambda>p. if op_active p then cancel_op now p else p) (lc_ops s))"
    by (intro ops_ok_update assms(4)) (simp add: tame_def c)
  have eps: "episodes_ok (lf_epoch c)
      (map (\<lambda>x. if ep_state x = EpisodeRunning then stop_episode now x else x) (lc_episodes s))"
    by (intro episodes_ok_update assms(5)) (simp add: tame_episode_def e)
  have st: "stamps_ok (map (\<lambda>p. if op_active p then cancel_op now p else p) (lc_ops s)) (lc_turns s)"
    using assms(8) by (intro stamps_ok_update[OF assms(8)]) (auto simp: c)
  have quiet: "quiet (s\<lparr>lc_episodes := map (\<lambda>x. if ep_state x = EpisodeRunning then stop_episode now x else x) (lc_episodes s),
                   lc_ops := map (\<lambda>p. if op_active p then cancel_op now p else p) (lc_ops s)\<rparr>)"
    by (auto simp: quiet_def c e op_active_def)
  show ?thesis
    unfolding lc_inv_def using assms(1,2,3,6,7) quiet ops eps st
    by (simp add: ids del: map_map)
qed

lemma inv_delete:
  assumes "lc_inv s" "mark_conversation_deleted now s = Inr s'"
  shows "lc_inv s'"
proof (cases "lc_conversation s")
  case None
  with assms show ?thesis by (simp add: mark_conversation_deleted_def update_conversation_def)
next
  case (Some c)
  define d where "d = c\<lparr>lf_phase := Deleted, lf_deleted_at := Some now\<rparr>"
  define t where "t = s\<lparr>lc_conversation := Some d\<rparr>"
  have s': "s' = t\<lparr>lc_episodes := map (\<lambda>x. if ep_state x = EpisodeRunning then stop_episode now x else x) (lc_episodes t),
                   lc_ops := map (\<lambda>p. if op_active p then cancel_op now p else p) (lc_ops t)\<rparr>
              \<lparr>lc_handles := []\<rparr>"
    using assms(2) Some by (simp add: mark_conversation_deleted_def update_conversation_def lc_simps t_def d_def)
  have "lc_inv (t\<lparr>lc_episodes := map (\<lambda>x. if ep_state x = EpisodeRunning then stop_episode now x else x) (lc_episodes t),
                   lc_ops := map (\<lambda>p. if op_active p then cancel_op now p else p) (lc_ops t)\<rparr>)"
    using assms(1) Some by (intro inv_cancel_all[of _ d]) (auto simp: t_def d_def lc_inv_def)
  then show ?thesis unfolding s' by (rule inv_handles)
qed

lemma ops_ok_raise: "ops_ok e ops \<Longrightarrow> \<forall>p\<in>set ops. \<not> op_active p \<Longrightarrow> ops_ok (e + 1) ops"
  by (auto simp: ops_ok_def)

lemma episodes_ok_raise:
  "episodes_ok e eps \<Longrightarrow> \<forall>x\<in>set eps. ep_state x \<noteq> EpisodeRunning \<Longrightarrow> episodes_ok (e + 1) eps"
  by (auto simp: episodes_ok_def)

lemma resurrect_state:
  assumes "lc_inv s" "increment_lifecycle_epoch_on_resurrect now s = Inr (e, s')"
  shows "s' = snd (update_conversation (\<lambda>c. lf_phase c = Deleted)
            (\<lambda>c. c\<lparr>lf_epoch := lf_epoch c + 1, lf_phase := Init, lf_deleted_at := None\<rparr>) s)"
    and "lc_inv s'"
proof -
  define s1 where "s1 = snd (update_conversation (\<lambda>c. lf_phase c = Deleted)
            (\<lambda>c. c\<lparr>lf_epoch := lf_epoch c + 1, lf_phase := Init, lf_deleted_at := None\<rparr>) s)"
  obtain c where c: "lc_conversation s = Some c"
    using assms(2) by (cases "lc_conversation s")
      (auto simp: increment_lifecycle_epoch_on_resurrect_def update_conversation_def)
  have lists: "lc_ops s1 = lc_ops s" "lc_episodes s1 = lc_episodes s" "lc_turns s1 = lc_turns s"
    by (auto simp: s1_def update_conversation_def c)
  define c1 where "c1 = (if lf_phase c = Deleted
     then c\<lparr>lf_epoch := lf_epoch c + 1, lf_phase := Init, lf_deleted_at := None\<rparr> else c)"
  have c1: "lc_conversation s1 = Some c1"
    by (simp add: s1_def c1_def update_conversation_def c)
  have del: "lf_phase c = Deleted \<Longrightarrow> quiet s"
    using assms(1) c by (auto simp: lc_inv_def)
  have inv1: "lc_inv s1"
    using assms(1) c c1 del unfolding lc_inv_def
    by (cases "lf_phase c = Deleted")
      (auto simp: lists quiet_def c1_def intro: ops_ok_raise episodes_ok_raise)
  then have cur: "\<forall>x\<in>set (lc_episodes s1). \<not> (ep_epoch x < lf_epoch c1 \<and> ep_state x = EpisodeRunning)"
      "\<forall>p\<in>set (lc_ops s1). \<not> (op_epoch p < lf_epoch c1 \<and> op_active p)"
    using c1 by (auto simp: lc_inv_def ops_ok_def episodes_ok_def)
  have id: "map (\<lambda>x. if P x then f x else x) xs = xs" if "\<forall>x\<in>set xs. \<not> P x" for P f and xs :: "'z list"
    using that by (induction xs) auto
  have "s' = s1"
    using assms(2) c1 cur unfolding increment_lifecycle_epoch_on_resurrect_def s1_def[symmetric]
    by (simp add: lc_simps id Let_def)
  then show "s' = snd (update_conversation (\<lambda>c. lf_phase c = Deleted)
            (\<lambda>c. c\<lparr>lf_epoch := lf_epoch c + 1, lf_phase := Init, lf_deleted_at := None\<rparr>) s)" "lc_inv s'"
    using inv1 by (simp_all add: s1_def)
qed

lemma inv_claim_conversation:
  assumes "lc_inv s" "claim_or_verify_conversation tenant s = Inr s'"
  shows "lc_inv s'"
proof (cases "lc_conversation s")
  case None
  with assms show ?thesis
    by (auto simp: claim_or_verify_conversation_def lc_inv_def fresh_conversation_def quiet_def
        ops_ok_def episodes_ok_def split: if_splits)
next
  case (Some c)
  with assms show ?thesis by (auto simp: claim_or_verify_conversation_def Let_def split: if_splits)
qed

lemma inv_take_episode: "lc_inv s \<Longrightarrow> lc_inv (snd (take_episode now cutoff e w s))"
  unfolding take_episode_def lc_simps by (rule inv_update_episodes) (auto simp: tame_episode_def)

lemma inv_widen_episode: "lc_inv s \<Longrightarrow> lc_inv (snd (widen_episode e raw s))"
  unfolding widen_episode_def lc_simps by (rule inv_update_episodes) (auto simp: tame_episode_def)

lemma inv_upsert:
  assumes "lc_inv s" "upsert_ingestion_episode now i e w raw s = Inr s'"
    "lc_conversation s = Some c" "lf_epoch c = e" "lf_deleted_at c = None"
  shows "lc_inv s'"
  using assms inv_widen_episode[OF assms(1), of e raw]
  by (auto simp: upsert_ingestion_episode_def new_episode_def split: if_splits option.splits
      intro: inv_insert_episode)

lemma upsert_conversation:
  "upsert_ingestion_episode now i e w raw s = Inr s' \<Longrightarrow> lc_conversation s' = lc_conversation s"
  by (auto simp: upsert_ingestion_episode_def widen_episode_def lc_simps insert_episode_def
      split: if_splits option.splits)

lemma inv_phase:
  assumes "lc_inv s" "lc_conversation s = Some c" "ph \<in> {Active, Ingesting}"
  shows "lc_inv (s\<lparr>lc_conversation := Some (c\<lparr>lf_phase := ph\<rparr>)\<rparr>)"
  using assms by (auto simp: lc_inv_def quiet_def)

lemma claim_ingestion_state:
  assumes "claim_ingestion_for_complete_group now i e w raw ttl s = Inr (res, s')"
  obtains "s' = s"
  | c s1 s2 where "lc_conversation s = Some c" "lf_deleted_at c = None" "lf_epoch c = e"
      "s1 = s \<or> s1 = s\<lparr>lc_conversation := Some (c\<lparr>lf_phase := Ingesting\<rparr>)\<rparr>"
      "upsert_ingestion_episode now i e w (max 1 raw) s1 = Inr s2"
      "s' = snd (take_episode now (now - ttl) e w s2)"
proof (cases "lc_conversation s")
  case None
  with assms that(1) show ?thesis by (simp add: claim_ingestion_for_complete_group_def)
next
  case (Some c)
  show ?thesis
  proof (cases "lf_deleted_at c = None \<and> lf_epoch c = e \<and> lf_phase c \<in> {Init, Active, Ingesting}
            \<and> has_taggable_group (lc_turns s)")
    case False
    then show ?thesis using assms that(1) Some
      by (auto simp: claim_ingestion_for_complete_group_def split: if_splits)
  next
    case True
    define s1 where "s1 = (if lf_phase c \<in> {Init, Active} then s\<lparr>lc_conversation := Some (c\<lparr>lf_phase := Ingesting\<rparr>)\<rparr> else s)"
    obtain s2 where "upsert_ingestion_episode now i e w (max 1 raw) s1 = Inr s2"
        "s' = snd (take_episode now (now - ttl) e w s2)"
      using assms Some True unfolding claim_ingestion_for_complete_group_def s1_def[symmetric]
      by (auto simp: Let_def s1_def split: sum.splits prod.splits if_splits)
    then show ?thesis using that(2)[OF Some _ _ _ _ _, of s1 s2] True by (auto simp: s1_def)
  qed
qed

lemma inv_claim_ingestion:
  assumes inv: "lc_inv s" and step: "claim_ingestion_for_complete_group now i e w raw ttl s = Inr (res, s')"
  shows "lc_inv s'"
  using step
proof (cases rule: claim_ingestion_state)
  case 1
  with inv show ?thesis by simp
next
  case (2 c s1 s2)
  have inv1: "lc_inv s1" using inv inv_phase[OF inv 2(1), of Ingesting] 2(4) by auto
  have "\<exists>c1. lc_conversation s1 = Some c1 \<and> lf_epoch c1 = e \<and> lf_deleted_at c1 = None"
    using 2(1-4) by auto
  then have "lc_inv s2" using inv_upsert[OF inv1 2(5)] by blast
  then show ?thesis unfolding 2(6) by (rule inv_take_episode)
qed

lemma inv_begin:
  assumes inv: "lc_inv s" and step: "begin_compaction_with_lock chk req now e w i pc name s = (b, s')"
  shows "lc_inv s'"
proof (cases b)
  case False
  with assms show ?thesis
    by (auto simp: begin_compaction_with_lock_def split: option.splits if_splits)
next
  case True
  then obtain c where c: "lc_conversation s = Some c" "lf_deleted_at c = None" "lf_epoch c = e"
    and ins: "insert_op (new_op i e w pc name Running now) (s\<lparr>lc_conversation := Some (c\<lparr>lf_phase := Compacting\<rparr>)\<rparr>) = Some s'"
    using step by (auto simp: begin_compaction_with_lock_def split: option.splits if_splits)
  have "lc_inv (s\<lparr>lc_conversation := Some (c\<lparr>lf_phase := Compacting\<rparr>)\<rparr>)"
    using inv c by (auto simp: lc_inv_def quiet_def)
  then show ?thesis
    by (rule inv_insert_op[OF _ ins, where c = "c\<lparr>lf_phase := Compacting\<rparr>"]) (use c in \<open>simp_all add: new_op_def\<close>)
qed

lemma stamps_unmark: "stamps (map (unmark_compacted dead) turns) = stamps turns - {dead}"
  by (auto simp: stamps_def unmark_compacted_def split: if_splits)

lemma inv_takeover:
  assumes inv: "lc_inv s" and step: "cleanup_abandoned_compaction mode now dead i e w pc s = Inr (b, s')"
  shows "lc_inv s'"
proof -
  define P where "P = (\<lambda>p::operation. op_id p = dead \<and> op_epoch p = e \<and> op_state p = Running)"
  let ?f = "\<lambda>p::operation. p\<lparr>op_state := Abandoned, op_completed := Some now\<rparr>"
  define s2 where "s2 = s\<lparr>lc_ops := map (\<lambda>p. if P p then ?f p else p) (lc_ops s),
      lc_derived := derived_cleanup mode dead (lc_derived s), lc_turns := map (unmark_compacted dead) (lc_turns s)\<rparr>"
  have tame: "tame P ?f" by (simp add: tame_def P_def)
  have ids: "map op_id (map (\<lambda>p. if P p then ?f p else p) (lc_ops s)) = map op_id (lc_ops s)"
    by (intro map_id_update) simp
  have st: "stamps_ok (map (\<lambda>p. if P p then ?f p else p) (lc_ops s)) (map (unmark_compacted dead) (lc_turns s))"
    using inv by (intro stamps_ok_update[of _ "lc_turns s"]) (auto simp: lc_inv_def stamps_unmark P_def)
  have quiet: "quiet s \<Longrightarrow> quiet s2"
    by (auto simp: quiet_def s2_def P_def)
  have inv2: "lc_inv s2"
    using inv quiet ops_ok_update[OF tame] st
    unfolding lc_inv_def s2_def by (auto simp add: ids simp del: map_map split: option.splits)
  show ?thesis
  proof (cases b)
    case False
    then have "s' = s \<or> s' = s2"
      using step by (auto simp: cleanup_abandoned_compaction_def update_ops_def s2_def P_def Let_def
          split: if_splits option.splits)
    then show ?thesis using inv inv2 by auto
  next
    case True
    then have ins: "insert_op (new_op i e w pc ''starting'' Running now) s2 = Some s'"
      and ne: "filter P (lc_ops s) \<noteq> []"
      using step by (auto simp: cleanup_abandoned_compaction_def update_ops_def s2_def P_def Let_def
          split: if_splits option.splits)
    then obtain p where p: "p \<in> set (lc_ops s)" "P p" by (auto simp: filter_empty_conv)
    then obtain c where c: "lc_conversation s = Some c"
      using inv by (cases "lc_conversation s") (auto simp: lc_inv_def)
    have "lf_epoch c = e" "lf_deleted_at c = None"
      using p inv c by (auto simp: lc_inv_def ops_ok_def P_def quiet_def)
    then show ?thesis
      by (intro inv_insert_op[OF inv2 ins]) (simp_all add: s2_def c new_op_def)
  qed
qed

lemma inv_drain:
  assumes inv: "lc_inv s" and step: "drain_compaction_exit now i e w (Some own) s = Inr (res, s')"
  shows "lc_inv s'"
proof (cases res)
  case None
  with assms show ?thesis by (auto simp: drain_compaction_exit_def split: option.splits if_splits)
next
  case (Some ph)
  then obtain c where c: "lc_conversation s = Some c" "lf_epoch c = e" "lf_phase c = Compacting"
    using step by (auto simp: drain_compaction_exit_def split: option.splits if_splits)
  then have live: "lf_deleted_at c = None" using inv by (auto simp: lc_inv_def)
  define t where "t = (\<lambda>ph. s\<lparr>lc_conversation := Some (c\<lparr>lf_phase := ph, lf_pending := 0\<rparr>)\<rparr>)"
  have t: "ph \<in> {Active, Ingesting} \<Longrightarrow> lc_inv (t ph)" for ph
    using inv c live by (auto simp: lc_inv_def quiet_def t_def)
  consider "insert_episode (new_episode i e w (lf_pending c) now) (t Ingesting) = Some s'" | "s' = t Active"
    using step Some c by (auto simp: drain_compaction_exit_def t_def split: option.splits if_splits)
  then show ?thesis
  proof cases
    case 1
    then show ?thesis
      using c live by (intro inv_insert_episode[OF t 1, where c = "c\<lparr>lf_phase := Ingesting, lf_pending := 0\<rparr>"])
        (simp_all add: t_def new_episode_def)
  qed (simp add: t)
qed

text \<open>The turns after marking, stamped with the operation or not.\<close>

definition compacted_turns :: "int \<Rightarrow> string list \<Rightarrow> string option \<Rightarrow> turn list \<Rightarrow> turn list" where
  "compacted_turns stamp ids i turns =
     map (\<lambda>t. if compaction_target ids turns t
              then (case i of None \<Rightarrow> t\<lparr>ct_compacted_at := Some stamp\<rparr>
                    | Some j \<Rightarrow> t\<lparr>ct_compacted_at := Some stamp, ct_operation := Some j\<rparr>) else t) turns"

lemma compacted_cases:
  assumes "mark_canonical_turns_compacted mode stamp ids guard s = Inr (n, s')"
  shows "s' = s \<or> guard = None \<and> s' = s\<lparr>lc_turns := compacted_turns stamp ids None (lc_turns s)\<rparr>
     \<or> (\<exists>i w e. guard = Some (i, w, e) \<and> holds_lease i w e s
          \<and> s' = s\<lparr>lc_turns := compacted_turns stamp ids (Some i) (lc_turns s)\<rparr>)"
proof (cases guard)
  case None
  then show ?thesis
    using assms by (simp add: mark_canonical_turns_compacted_def compacted_turns_def Let_def cong: if_cong split: if_splits)
next
  case (Some g)
  obtain i w e where g: "g = (i, w, e)" by (metis prod_cases3)
  show ?thesis
  proof (cases "holds_lease i w e s")
    case True
    then show ?thesis
      using assms Some g
      by (simp add: mark_canonical_turns_compacted_def compacted_turns_def Let_def cong: if_cong split: if_splits)
  next
    case False
    then show ?thesis
      using assms Some g by (simp add: mark_canonical_turns_compacted_def split: if_splits)
  qed
qed

lemma stamps_compacted: "stamps (compacted_turns stamp ids i turns) \<subseteq> stamps turns \<union> {j. i = Some j}"
  by (auto simp: stamps_def compacted_turns_def split: if_splits option.splits)

lemma inv_compacted:
  assumes inv: "lc_inv s" and step: "mark_canonical_turns_compacted mode stamp ids guard s = Inr (n, s')"
  shows "lc_inv s'"
proof -
  have leased: "\<exists>p\<in>set (lc_ops s). op_id p = i \<and> op_state p \<noteq> Abandoned" if "holds_lease i w e s" for i w e
    using that by (fastforce simp: holds_lease_def list_ex_iff)
  have turns: "lc_inv (s\<lparr>lc_turns := compacted_turns stamp ids i (lc_turns s)\<rparr>)"
    if "\<And>j. i = Some j \<Longrightarrow> \<exists>p\<in>set (lc_ops s). op_id p = j \<and> op_state p \<noteq> Abandoned" for i
  proof -
    have "stamps_ok (lc_ops s) (compacted_turns stamp ids i (lc_turns s))"
      using inv stamps_compacted[of stamp ids i "lc_turns s"] that by (auto simp: lc_inv_def stamps_ok_def)
    from inv_turns[OF inv this, of "lc_derived s"] show ?thesis by simp
  qed
  from compacted_cases[OF step] show ?thesis
  proof (elim disjE exE conjE)
    assume "s' = s" with inv show ?thesis by simp
  next
    assume "s' = s\<lparr>lc_turns := compacted_turns stamp ids None (lc_turns s)\<rparr>"
    with turns[of None] show ?thesis by simp
  next
    fix i w e
    assume "holds_lease i w e s" "s' = s\<lparr>lc_turns := compacted_turns stamp ids (Some i) (lc_turns s)\<rparr>"
    with turns[of "Some i"] leased show ?thesis by simp
  qed
qed

lemma inv_outside: "lc_inv s \<Longrightarrow> stamps turns \<subseteq> stamps (lc_turns s) \<Longrightarrow> lc_inv (s\<lparr>lc_turns := turns, lc_derived := drv\<rparr>)"
  by (rule inv_turns) (auto simp: lc_inv_def stamps_ok_def)

lemma owned_op_active: "owned_op e w s p \<Longrightarrow> op_active p"
  by (simp add: owned_op_def)

text \<open>The operations that are one UPDATE of an active operation, by the state they return.\<close>

definition op_update_step :: "lifecycle \<Rightarrow> lifecycle \<Rightarrow> bool" where
  "op_update_step s s' \<longleftrightarrow>
     (\<exists>P f. tame P f \<and> (\<forall>p. P p \<longrightarrow> op_state (f p) \<noteq> Abandoned) \<and> s' = snd (update_ops P f s))"

lemma op_update_stepI:
  "s' = snd (update_ops P f s) \<Longrightarrow> tame P f \<Longrightarrow> (\<And>p. P p \<Longrightarrow> op_state (f p) \<noteq> Abandoned) \<Longrightarrow> op_update_step s s'"
  unfolding op_update_step_def by blast

lemma active_not_abandoned: "op_active p \<Longrightarrow> op_state p \<noteq> Abandoned"
  by (auto simp: op_active_def)

lemma op_update_steps:
  "claim_compaction_lease now e w ttl s = (res, s') \<Longrightarrow> op_update_step s s'"
  "refresh_compaction_heartbeat now e w i s = (b, s') \<Longrightarrow> op_update_step s s'"
  "advance_compaction_phase now e w ix name s = (b, s') \<Longrightarrow> op_update_step s s'"
  "complete_compaction_operation now e w s = (b, s') \<Longrightarrow> op_update_step s s'"
  "fail_compaction_operation now e w msg s = (b, s') \<Longrightarrow> op_update_step s s'"
  "fail_orphaned_compaction_operation now i e stale msg s = (b, s') \<Longrightarrow> op_update_step s s'"
proof -
  note defs = claim_compaction_lease_def refresh_compaction_heartbeat_def advance_compaction_phase_def
    complete_compaction_operation_def fail_compaction_operation_def fail_orphaned_compaction_operation_def
  show "claim_compaction_lease now e w ttl s = (res, s') \<Longrightarrow> op_update_step s s'"
    by (rule op_update_stepI[where P = "\<lambda>p. op_active p \<and> op_epoch p = e \<and> (op_owner p = w \<or> op_heartbeat p < now - ttl)"
          and f = "\<lambda>p. p\<lparr>op_owner := w, op_heartbeat := now\<rparr>"])
      (auto simp: defs tame_def active_not_abandoned split: prod.splits)
  show "refresh_compaction_heartbeat now e w i s = (b, s') \<Longrightarrow> op_update_step s s'"
    by (rule op_update_stepI[where P = "\<lambda>p. op_id p = i \<and> op_epoch p = e \<and> op_owner p = w \<and> op_state p = Running"
          and f = "\<lambda>p. p\<lparr>op_heartbeat := now\<rparr>"])
      (auto simp: defs tame_def split: prod.splits)
  show "advance_compaction_phase now e w ix name s = (b, s') \<Longrightarrow> op_update_step s s'"
    by (rule op_update_stepI[where P = "owned_op e w s"
          and f = "\<lambda>p. p\<lparr>op_phase_index := ix, op_phase_name := name, op_heartbeat := now, op_state := Running\<rparr>"])
      (auto simp: defs tame_def owned_op_active split: prod.splits)
  show "complete_compaction_operation now e w s = (b, s') \<Longrightarrow> op_update_step s s'"
    by (rule op_update_stepI[where P = "owned_op e w s" and f = "\<lambda>p. p\<lparr>op_state := Completed, op_completed := Some now\<rparr>"])
      (auto simp: defs tame_def owned_op_active split: prod.splits)
  show "fail_compaction_operation now e w msg s = (b, s') \<Longrightarrow> op_update_step s s'"
    by (rule op_update_stepI[where P = "owned_op e w s"
          and f = "\<lambda>p. p\<lparr>op_state := Failed, op_completed := Some now, op_error := msg\<rparr>"])
      (auto simp: defs tame_def owned_op_active split: prod.splits)
  show "fail_orphaned_compaction_operation now i e stale msg s = (b, s') \<Longrightarrow> op_update_step s s'"
    by (rule op_update_stepI[where P = "\<lambda>p. op_id p = i \<and> op_state p = Running \<and> op_heartbeat p < now - stale \<and> op_epoch p = e
            \<and> (case lc_conversation s of None \<Rightarrow> False | Some c \<Rightarrow> lf_epoch c = e \<and> lf_phase c \<noteq> Compacting)"
          and f = "\<lambda>p. p\<lparr>op_state := Failed, op_completed := Some now, op_error := msg\<rparr>"])
      (auto simp: defs tame_def Let_def split: prod.splits)
qed

lemma inv_op_update: "lc_inv s \<Longrightarrow> op_update_step s s' \<Longrightarrow> lc_inv s'"
  by (auto simp: op_update_step_def lc_simps intro: inv_update_ops)

lemma inv_step: "lc_step s s' \<Longrightarrow> lc_inv s \<Longrightarrow> lc_inv s'"
proof (induction rule: lc_step.induct)
  case (activate r s g s')
  then show ?case
    by (auto simp: activate_conversation_def Let_def intro: inv_generation split: option.splits prod.splits if_splits)
next
  case (begin_deletion s g s')
  then show ?case by (auto simp: begin_conversation_deletion_def Let_def intro: inv_generation)
next
  case (metadata e raw ingestible s b s')
  then show ?case unfolding update_request_metadata_def by - (rule inv_update_conversation, assumption+, simp)
next
  case (widen e v s b s')
  then show ?case unfolding widen_pending_raw_payload_entries_def by - (rule inv_update_conversation, assumption+, simp)
next
  case (activate_phase e s b s')
  then show ?case unfolding set_phase_def by - (rule inv_update_conversation, assumption+, simp)
next
  case (take_ingestion now e w ttl s b s')
  then show ?case using inv_take_episode[of s now "now - ttl" e w]
    by (auto simp: claim_ingestion_lease_def split: prod.splits)
next
  case (refresh_ingestion now e w s b s')
  then have "s' = snd (update_episodes (owned_episode e w s) (\<lambda>x. x\<lparr>ep_heartbeat := now\<rparr>) s)"
    by (auto simp: refresh_ingestion_heartbeat_def split: prod.splits)
  then show ?case using refresh_ingestion(2)
    by (simp add: lc_simps) (rule inv_update_episodes, auto simp: tame_episode_def owned_episode_def)
next
  case (complete_ingestion now e w s b s')
  then have "s' = snd (update_episodes (\<lambda>x. owned_episode e w s x \<and> \<not> has_taggable_group (lc_turns s))
                      (\<lambda>x. x\<lparr>ep_state := EpisodeCompleted, ep_completed := Some now\<rparr>) s)"
    by (auto simp: complete_ingestion_episode_def split: prod.splits)
  then show ?case using complete_ingestion(2)
    by (simp add: lc_simps) (rule inv_update_episodes, auto simp: tame_episode_def owned_episode_def)
next
  case (resurrect now s e s')
  then show ?case by (blast intro: resurrect_state(2))
qed (blast intro: inv_claim_conversation inv_delete inv_claim_ingestion inv_begin inv_takeover inv_drain
    inv_compacted inv_outside inv_op_update op_update_steps)+

lemma inv_run: "lc_run s s' \<Longrightarrow> lc_inv s \<Longrightarrow> lc_inv s'"
  by (induction rule: rtranclp_induct) (auto intro: inv_step)

lemma inv_initial: "no_conversation s \<Longrightarrow> lc_inv s"
  by (simp add: no_conversation_def lc_inv_def stamps_ok_def)

text \<open>C7: In every state the operations can reach, whatever the interleaving of workers,
  deletions, resurrections and takeovers, at most one compaction operation is queued or running
  and at most one ingestion episode is running, both of the conversation's current epoch; no
  identifier is used twice; a deleted conversation has neither, and is not in the compacting
  phase; and no turn carries the mark of an operation that was taken over.\<close>

theorem lifecycle_invariant:
  assumes "no_conversation s" "lc_run s s'" "lc_conversation s' = Some c"
  shows "length (filter op_active (lc_ops s')) \<le> 1
     \<and> length (filter (\<lambda>x. ep_state x = EpisodeRunning) (lc_episodes s')) \<le> 1
     \<and> (\<forall>p\<in>set (lc_ops s'). op_epoch p \<le> lf_epoch c \<and> (op_active p \<longrightarrow> op_epoch p = lf_epoch c))
     \<and> (\<forall>x\<in>set (lc_episodes s'). ep_epoch x \<le> lf_epoch c
            \<and> (ep_state x = EpisodeRunning \<longrightarrow> ep_epoch x = lf_epoch c))
     \<and> distinct (map op_id (lc_ops s')) \<and> distinct (map ep_id (lc_episodes s'))
     \<and> (lf_deleted_at c \<noteq> None \<longrightarrow> lf_phase c \<noteq> Compacting \<and> quiet s')
     \<and> (\<forall>i\<in>stamps (lc_turns s'). \<exists>p\<in>set (lc_ops s'). op_id p = i \<and> op_state p \<noteq> Abandoned)"
  using inv_run[OF assms(2) inv_initial[OF assms(1)]] assms(3)
  by (simp add: lc_inv_def ops_ok_def episodes_ok_def stamps_ok_def)

section \<open>Finished operations stay finished\<close>

definition ops_grow :: "operation list \<Rightarrow> operation list \<Rightarrow> bool" where
  "ops_grow ops ops' \<longleftrightarrow>
     (\<forall>p\<in>set ops. \<exists>p'\<in>set ops'. op_id p' = op_id p \<and> op_epoch p' = op_epoch p \<and> (op_terminal p \<longrightarrow> p' = p))"

lemma terminal_iff: "op_terminal p \<longleftrightarrow> \<not> op_active p"
  by (cases "op_state p") (auto simp: op_terminal_def op_active_def)

lemma ops_grow_refl [simp]: "ops_grow ops ops"
  by (auto simp: ops_grow_def)

lemma ops_grow_append [simp]: "ops_grow ops (ops @ new)"
  by (auto simp: ops_grow_def)

lemma ops_grow_trans: "ops_grow a b \<Longrightarrow> ops_grow b c \<Longrightarrow> ops_grow a c"
  unfolding ops_grow_def by metis

lemma ops_grow_update:
  assumes "tame P f" shows "ops_grow ops (map (\<lambda>p. if P p then f p else p) ops)"
  unfolding ops_grow_def
proof
  fix p assume "p \<in> set ops"
  then show "\<exists>p'\<in>set (map (\<lambda>p. if P p then f p else p) ops).
      op_id p' = op_id p \<and> op_epoch p' = op_epoch p \<and> (op_terminal p \<longrightarrow> p' = p)"
    using assms by (intro bexI[of _ "if P p then f p else p"]) (auto simp: tame_def terminal_iff)
qed

lemma ops_grow_cancel:
  "ops_grow ops (map (\<lambda>p. if op_active p then cancel_op now p else p) ops)"
  "ops_grow ops (map (\<lambda>p. if Q p \<and> op_active p then cancel_op now p else p) ops)"
  by (rule ops_grow_update, simp add: tame_def cancel_op_def)+

lemma grow_op_update: "op_update_step s s' \<Longrightarrow> ops_grow (lc_ops s) (lc_ops s')"
  by (auto simp: op_update_step_def lc_simps intro: ops_grow_update)

lemma insert_op_ops: "insert_op p s = Some s' \<Longrightarrow> lc_ops s' = lc_ops s @ [p]"
  by (auto simp: insert_op_def split: if_splits)

lemma update_conversation_ops: "update_conversation P f s = (b, s') \<Longrightarrow> lc_ops s' = lc_ops s"
  by (auto simp: update_conversation_def split: option.splits if_splits)

lemma grow_claim_ingestion:
  assumes "claim_ingestion_for_complete_group now i e w raw ttl s = Inr (res, s')"
  shows "lc_ops s' = lc_ops s"
  using assms
proof (cases rule: claim_ingestion_state)
  case (2 c s1 s2)
  have "lc_ops s2 = lc_ops s1"
    using 2(5) by (auto simp: upsert_ingestion_episode_def widen_episode_def lc_simps insert_episode_def
        split: if_splits option.splits)
  moreover have "lc_ops s1 = lc_ops s" using 2(4) by auto
  ultimately show ?thesis by (simp add: 2(6) take_episode_def lc_simps)
qed simp

lemma begin_state:
  assumes "begin_compaction_with_lock chk req now e w i pc name s = (b, s')"
  shows "s' = s \<or> (\<exists>c. insert_op (new_op i e w pc name Running now) (s\<lparr>lc_conversation := Some c\<rparr>) = Some s')"
  using assms unfolding begin_compaction_with_lock_def by (auto split: option.splits if_splits)

lemma grow_begin:
  assumes "begin_compaction_with_lock chk req now e w i pc name s = (b, s')"
  shows "ops_grow (lc_ops s) (lc_ops s')"
  using begin_state[OF assms] by (auto dest: insert_op_ops)

lemma takeover_ops:
  assumes "cleanup_abandoned_compaction mode now dead i e w pc s = Inr (b, s')"
  shows "lc_ops s' = lc_ops s
     \<or> (\<exists>new. lc_ops s' = map (\<lambda>p. if op_id p = dead \<and> op_epoch p = e \<and> op_state p = Running
                        then p\<lparr>op_state := Abandoned, op_completed := Some now\<rparr> else p) (lc_ops s) @ new)"
proof (cases "lc_generation s")
  case None
  then show ?thesis using assms by (simp add: cleanup_abandoned_compaction_def)
next
  case (Some g)
  then show ?thesis
    using assms unfolding cleanup_abandoned_compaction_def update_ops_def Let_def
    by (simp split: if_splits option.splits) (auto dest: insert_op_ops)
qed

lemma grow_takeover:
  assumes "cleanup_abandoned_compaction mode now dead i e w pc s = Inr (b, s')"
  shows "ops_grow (lc_ops s) (lc_ops s')"
proof -
  have "ops_grow (lc_ops s) (map (\<lambda>p. if op_id p = dead \<and> op_epoch p = e \<and> op_state p = Running
                        then p\<lparr>op_state := Abandoned, op_completed := Some now\<rparr> else p) (lc_ops s))"
    by (rule ops_grow_update) (simp add: tame_def)
  then show ?thesis
    using takeover_ops[OF assms] by (auto intro: ops_grow_trans[OF _ ops_grow_append])
qed

lemma grow_drain:
  "drain_compaction_exit now i e w own s = Inr (res, s') \<Longrightarrow> lc_ops s' = lc_ops s"
  by (auto simp: drain_compaction_exit_def insert_episode_def split: option.splits if_splits)

lemma grow_compacted:
  assumes "mark_canonical_turns_compacted mode stamp ids guard s = Inr (n, s')"
  shows "lc_ops s' = lc_ops s"
  using compacted_cases[OF assms] by auto

lemma grow_delete: "mark_conversation_deleted now s = Inr s' \<Longrightarrow> ops_grow (lc_ops s) (lc_ops s')"
  by (auto simp: mark_conversation_deleted_def lc_simps update_conversation_def
      intro: ops_grow_cancel split: option.splits)

lemma grow_resurrect:
  "increment_lifecycle_epoch_on_resurrect now s = Inr (e, s') \<Longrightarrow> ops_grow (lc_ops s) (lc_ops s')"
  by (auto simp: increment_lifecycle_epoch_on_resurrect_def Let_def lc_simps update_conversation_def
      intro: ops_grow_cancel split: option.splits if_splits)

lemma grow_step: "lc_step s s' \<Longrightarrow> ops_grow (lc_ops s) (lc_ops s')"
proof (induction rule: lc_step.induct)
  case (activate r s g s')
  then show ?case by (auto simp: activate_conversation_def Let_def split: option.splits prod.splits if_splits)
next
  case (begin_deletion s g s')
  then show ?case by (auto simp: begin_conversation_deletion_def Let_def)
next
  case (claim_conversation tenant s s')
  then show ?case by (auto simp: claim_or_verify_conversation_def Let_def split: option.splits if_splits)
next
  case (take_ingestion now e w ttl s b s')
  then show ?case by (auto simp: claim_ingestion_lease_def take_episode_def update_episodes_def)
next
  case (refresh_ingestion now e w s b s')
  then show ?case by (auto simp: refresh_ingestion_heartbeat_def update_episodes_def)
next
  case (complete_ingestion now e w s b s')
  then show ?case by (auto simp: complete_ingestion_episode_def update_episodes_def)
qed (auto simp: update_request_metadata_def widen_pending_raw_payload_entries_def set_phase_def
    dest!: update_conversation_ops grow_claim_ingestion grow_drain grow_compacted
    intro: grow_delete grow_resurrect grow_begin grow_takeover grow_op_update op_update_steps)

lemma grow_run: "lc_run s s' \<Longrightarrow> ops_grow (lc_ops s) (lc_ops s')"
  by (induction rule: rtranclp_induct) (auto intro: grow_step ops_grow_trans)


section \<open>The fence\<close>

lemma update_ops_none: "(\<And>p. p \<in> set (lc_ops s) \<Longrightarrow> \<not> P p) \<Longrightarrow> update_ops P f s = (0, s)"
  by (simp add: update_ops_def filter_empty_conv map_idI)

lemma takeover_abandons:
  assumes "cleanup_abandoned_compaction mode now dead i e w pc s = Inr (True, s')"
  shows "\<exists>p\<in>set (lc_ops s'). op_id p = dead \<and> op_state p = Abandoned"
proof -
  define f where "f = (\<lambda>p::operation. if op_id p = dead \<and> op_epoch p = e \<and> op_state p = Running
                        then p\<lparr>op_state := Abandoned, op_completed := Some now\<rparr> else p)"
  obtain p where p: "p \<in> set (lc_ops s)" "op_id p = dead" "op_epoch p = e" "op_state p = Running"
    and ops: "\<exists>new. lc_ops s' = map f (lc_ops s) @ new"
    using assms unfolding cleanup_abandoned_compaction_def update_ops_def Let_def f_def
    by (auto simp: filter_empty_conv dest!: insert_op_ops split: if_splits option.splits)
  then obtain new where "lc_ops s' = map f (lc_ops s) @ new" by blast
  with p show ?thesis by (intro bexI[of _ "f p"]) (auto simp: f_def)
qed

lemma abandoned_stays:
  assumes "lc_inv s" "lc_run s s'" "p \<in> set (lc_ops s)" "op_id p = dead" "op_state p = Abandoned"
  shows "dead \<notin> stamps (lc_turns s')" and "\<And>q. q \<in> set (lc_ops s') \<Longrightarrow> op_id q = dead \<Longrightarrow> op_state q = Abandoned"
proof -
  have inv: "lc_inv s'" using inv_run[OF assms(2,1)] .
  have "op_terminal p" using assms(5) by (simp add: op_terminal_def)
  then have p: "p \<in> set (lc_ops s')"
    using grow_run[OF assms(2)] assms(3) by (auto simp: ops_grow_def)
  show q: "op_state q = Abandoned" if "q \<in> set (lc_ops s')" "op_id q = dead" for q
  proof -
    have "inj_on op_id (set (lc_ops s'))" using inv by (simp add: lc_inv_def distinct_map)
    then have "q = p" using p that assms(4) by (auto dest: inj_onD)
    then show ?thesis using assms(5) by simp
  qed
  show "dead \<notin> stamps (lc_turns s')"
    using inv q by (auto simp: lc_inv_def stamps_ok_def)
qed

text \<open>C8: A worker whose compaction was taken over is fenced out for good: in every state reached
  afterwards, by any interleaving, no turn carries its mark, its heartbeat is refused, and its
  guarded marking of turns changes nothing: it raises when the fence enforces and reports zero
  rows otherwise.\<close>

theorem taken_over_worker_is_fenced:
  assumes "lc_inv s" "cleanup_abandoned_compaction mode now dead i e w pc s = Inr (True, s1)" "lc_run s1 s2"
  shows "dead \<notin> stamps (lc_turns s2)
     \<and> refresh_compaction_heartbeat now' e' w' dead s2 = (False, s2)
     \<and> mark_canonical_turns_compacted mode' stamp ids (Some (dead, w', e')) s2
         = (if ids \<noteq> [] \<and> enforces mode' then Inl LeaseLost else Inr (0, s2))"
proof -
  obtain p where p: "p \<in> set (lc_ops s1)" "op_id p = dead" "op_state p = Abandoned"
    using takeover_abandons[OF assms(2)] by blast
  note after = abandoned_stays[OF inv_takeover[OF assms(1,2)] assms(3) p]
  have lease: "\<not> holds_lease dead w' e' s2"
    using after(2) by (fastforce simp: holds_lease_def list_ex_iff)
  have none: "\<not> (op_id q = dead \<and> op_epoch q = e' \<and> op_owner q = w' \<and> op_state q = Running)"
    if "q \<in> set (lc_ops s2)" for q
    using after(2)[OF that] by auto
  have "update_ops (\<lambda>q. op_id q = dead \<and> op_epoch q = e' \<and> op_owner q = w' \<and> op_state q = Running)
          (\<lambda>q. q\<lparr>op_heartbeat := now'\<rparr>) s2 = (0, s2)"
    by (rule update_ops_none) (use none in blast)
  then show ?thesis
    using after(1) lease by (simp add: refresh_compaction_heartbeat_def mark_canonical_turns_compacted_def Let_def)
qed

section \<open>A compaction and its takeover\<close>

definition demo_start :: "turn list \<Rightarrow> lifecycle" where
  "demo_start turns =
     \<lparr>lc_generation = Some (0, False), lc_conversation = None, lc_ops = [], lc_episodes = [], lc_turns = turns,
      lc_derived = [], lc_handles = [], lc_foreign_ops = [], lc_foreign_episodes = []\<rparr>"

definition demo_active :: "turn list \<Rightarrow> lifecycle" where
  "demo_active turns =
     snd (set_phase 1 Active (projr (claim_or_verify_conversation ''t'' (demo_start turns))))"

definition demo_compacting :: "turn list \<Rightarrow> lifecycle" where
  "demo_compacting turns =
     snd (begin_compaction_with_lock (\<lambda>_. True) None 10 1 ''w'' ''op'' 3 ''starting'' (demo_active turns))"

definition demo_taken :: "turn list \<Rightarrow> lifecycle" where
  "demo_taken turns =
     snd (projr (cleanup_abandoned_compaction FenceObserve 90 ''op'' ''op2'' 1 ''v'' 3 (demo_compacting turns)))"

lemma demo_lifecycle_run: "lc_run (demo_start []) (demo_compacting [])"
proof -
  have "claim_or_verify_conversation ''t'' (demo_start [])
      = Inr (projr (claim_or_verify_conversation ''t'' (demo_start [])))"
    by (simp add: claim_or_verify_conversation_def demo_start_def fresh_conversation_def)
  then have 1: "lc_step (demo_start []) (projr (claim_or_verify_conversation ''t'' (demo_start [])))"
    by (rule claim_conversation)
  have 2: "lc_step (projr (claim_or_verify_conversation ''t'' (demo_start []))) (demo_active [])"
    unfolding demo_active_def by (rule activate_phase) (rule surjective_pairing)
  have 3: "lc_step (demo_active []) (demo_compacting [])"
    unfolding demo_compacting_def by (rule begin_compaction) (rule surjective_pairing)
  have "lc_run (demo_start []) (demo_active [])"
    by (rule converse_rtranclp_into_rtranclp, rule 1, rule r_into_rtranclp, rule 2)
  then show ?thesis by (rule rtranclp.rtrancl_into_rtrancl) (rule 3)
qed

lemma demo_takeover:
  "cleanup_abandoned_compaction FenceObserve 90 ''op'' ''op2'' 1 ''v'' 3 (demo_compacting []) = Inr (True, demo_taken [])"
  unfolding demo_taken_def demo_compacting_def demo_active_def demo_start_def by code_simp

theorem lifecycle_invariant_witness:
  "\<exists>c. lc_conversation (demo_compacting []) = Some c \<and> lf_phase c = Compacting
     \<and> length (filter op_active (lc_ops (demo_compacting []))) \<le> 1
     \<and> (\<forall>p\<in>set (lc_ops (demo_compacting [])). op_epoch p \<le> lf_epoch c)"
proof -
  have empty: "no_conversation (demo_start [])" by (simp add: no_conversation_def demo_start_def stamps_def)
  have "map_option lf_phase (lc_conversation (demo_compacting [])) = Some Compacting"
    unfolding demo_compacting_def demo_active_def demo_start_def by code_simp
  then obtain c where "lc_conversation (demo_compacting []) = Some c" "lf_phase c = Compacting" by auto
  then show ?thesis using lifecycle_invariant[OF empty demo_lifecycle_run] by blast
qed


theorem taken_over_worker_is_fenced_witness:
  "refresh_compaction_heartbeat 95 1 ''w'' ''op'' (demo_taken []) = (False, demo_taken [])
     \<and> mark_canonical_turns_compacted FenceActive 95 [''1''] (Some (''op'', ''w'', 1)) (demo_taken []) = Inl LeaseLost"
proof -
  have "lc_inv (demo_compacting [])"
    using inv_run[OF demo_lifecycle_run inv_initial] by (simp add: no_conversation_def demo_start_def stamps_def)
  then show ?thesis
    using taken_over_worker_is_fenced[OF _ demo_takeover rtranclp.rtrancl_refl, of 95 1 "''w''" _ 95 "[''1'']"]
    by (simp add: enforces_def)
qed

end
