(* ===== verification/PhaseDriver.thy ===== *)
theory PhaseDriver
  imports LifecycleProps
begin

text \<open>
  The worker that drives the lifecycle (proxy/state.py): the phase gate of
  \<open>handle_prepare_payload\<close> from the metadata write on, the self-healing of stuck phases, the
  compaction entry and exit, and the tagger loop with the tagging compare-and-set of
  storage/sqlite.py.

  A worker keeps its id, the epoch it believes in and the compaction it runs.  A driver function
  is executed without interference here; interference is the business of \<open>lc_step\<close>.  Published
  events, logging and the thread a takeover submits are left out; the generator of tags and the
  embedding call are parameters.
\<close>

section \<open>Worker and snapshot\<close>

record worker =
  wk_id :: string
  wk_epoch :: int
  wk_op :: "string option"        \<comment> \<open>\<open>_active_compaction_op\<close>\<close>

text \<open>\<open>engine.verify_epoch()\<close>; a purged conversation is a mismatch.\<close>

definition verify_epoch :: "worker \<Rightarrow> lifecycle \<Rightarrow> bool" where
  "verify_epoch w s \<longleftrightarrow> get_lifecycle_epoch s = Inr (wk_epoch w)"

record progress =
  pg_phase :: phase
  pg_total :: int
  pg_done :: int
  pg_episode :: "episode option"
  pg_compaction :: "operation option"

definition last_of :: "'a list \<Rightarrow> 'a option" where
  "last_of xs = (case rev xs of [] \<Rightarrow> None | x # _ \<Rightarrow> Some x)"

definition read_progress_snapshot :: "lifecycle \<Rightarrow> lc_error + progress" where
  "read_progress_snapshot s =
     (case lc_conversation s of
        None \<Rightarrow> Inl KeyError
      | Some c \<Rightarrow> Inr
          \<lparr>pg_phase = lf_phase c,
           pg_total = sum_list (map ct_covered (lc_turns s)),
           pg_done = sum_list (map (\<lambda>t. if ct_tagged_at t \<noteq> None then ct_covered t else 0) (lc_turns s)),
           pg_episode = last_of (sort_key (\<lambda>x. (ep_started x, ep_id x))
              (filter (\<lambda>x. ep_epoch x = lf_epoch c \<and> ep_state x = EpisodeRunning) (lc_episodes s))),
           pg_compaction = last_of (sort_key (\<lambda>p. (op_state p = Running, op_started p, op_id p))
              (filter (\<lambda>p. op_epoch p = lf_epoch c \<and> op_active p) (lc_ops s)))\<rparr>)"

definition another_worker_owns_lease :: "worker \<Rightarrow> lifecycle \<Rightarrow> bool" where
  "another_worker_owns_lease w s \<longleftrightarrow>
     (case read_progress_snapshot s of
        Inl _ \<Rightarrow> False
      | Inr snap \<Rightarrow> (case pg_episode snap of None \<Rightarrow> False | Some x \<Rightarrow> ep_owner x \<noteq> wk_id w))"

section \<open>Self-healing\<close>

text \<open>\<open>_finalize_legacy_ingestion\<close>: complete the episode, then flip the phase.\<close>

definition finalize_legacy_ingestion :: "int \<Rightarrow> worker \<Rightarrow> lifecycle \<Rightarrow> bool \<times> lifecycle" where
  "finalize_legacy_ingestion now w s =
     (case complete_ingestion_episode now (wk_epoch w) (wk_id w) s of
        (False, s1) \<Rightarrow> (False, s1)
      | (True, s1) \<Rightarrow> set_phase (wk_epoch w) Active s1)"

text \<open>\<open>lease_ttl\<close> stands for \<open>INGESTION_LEASE_TTL_S\<close>.\<close>

definition finalize_ingestion_if_complete :: "int \<Rightarrow> int \<Rightarrow> worker \<Rightarrow> lifecycle \<Rightarrow> bool \<times> lifecycle" where
  "finalize_ingestion_if_complete now lease_ttl w s =
     (case read_progress_snapshot s of
        Inl _ \<Rightarrow> (False, s)
      | Inr snap \<Rightarrow>
          if pg_phase snap \<noteq> Ingesting \<or> pg_total snap \<noteq> pg_done snap then (False, s)
          else (case claim_ingestion_lease now (wk_epoch w) (wk_id w) lease_ttl s of
                  (False, s1) \<Rightarrow> (False, s1)
                | (True, s1) \<Rightarrow> finalize_legacy_ingestion now w s1))"

definition activate_init_phase_if_tagged :: "worker \<Rightarrow> lifecycle \<Rightarrow> bool \<times> lifecycle" where
  "activate_init_phase_if_tagged w s =
     (case read_progress_snapshot s of
        Inl _ \<Rightarrow> (False, s)
      | Inr snap \<Rightarrow>
          if pg_phase snap \<noteq> Init \<or> pg_done snap \<le> 0 then (False, s) else set_phase (wk_epoch w) Active s)"

section \<open>Entering and leaving a compaction\<close>

definition enter_compaction :: "int \<Rightarrow> string \<Rightarrow> int \<Rightarrow> string \<Rightarrow> worker \<Rightarrow> lifecycle \<Rightarrow> lc_error + (bool \<times> lifecycle)" where
  "enter_compaction now new_id pc name w s =
     (if \<not> verify_epoch w s then Inl EpochMismatch
      else Inr (begin_compaction_with_lock (\<lambda>_. True) None now (wk_epoch w) (wk_id w) new_id pc name s))"

definition advance_compaction :: "int \<Rightarrow> int \<Rightarrow> string \<Rightarrow> worker \<Rightarrow> lifecycle \<Rightarrow> lifecycle" where
  "advance_compaction now ix name w s =
     (if verify_epoch w s then snd (advance_compaction_phase now (wk_epoch w) (wk_id w) ix name s) else s)"

definition finish_operation :: "bool \<Rightarrow> int \<Rightarrow> string \<Rightarrow> worker \<Rightarrow> lifecycle \<Rightarrow> lifecycle" where
  "finish_operation success now msg w s =
     (if success then snd (complete_compaction_operation now (wk_epoch w) (wk_id w) s)
      else snd (fail_compaction_operation now (wk_epoch w) (wk_id w) (str_or msg ''unknown'') s))"

definition exit_compaction ::
  "bool \<Rightarrow> string \<Rightarrow> int \<Rightarrow> string \<Rightarrow> worker \<Rightarrow> lifecycle \<Rightarrow> (lc_error + phase option) \<times> lifecycle" where
  "exit_compaction success msg now episode_id w s =
     (case read_progress_snapshot s of
        Inl err \<Rightarrow> (Inl err, s)
      | Inr snap \<Rightarrow>
          (let s1 = finish_operation success now msg w s
           in case pg_compaction snap of
                None \<Rightarrow> (Inr None, s1)
              | Some p \<Rightarrow>
                  (case drain_compaction_exit now episode_id (wk_epoch w) (wk_id w) (Some (op_id p)) s1 of
                     Inl err \<Rightarrow> (Inl err, s1)
                   | Inr (ph, s2) \<Rightarrow> (Inr ph, s2))))"

section \<open>The phase gate\<close>

text \<open>
  A decision is the phase reported to the caller and whether a tagger was started; an error is
  raised to the caller, who rehydrates.  Widening the pending count ends every compacting branch;
  its own result only changes the wording of the decision.
\<close>

type_synonym decision = "(lc_error + (phase \<times> bool)) \<times> worker \<times> lifecycle"

definition widen_and_return :: "int \<Rightarrow> worker \<Rightarrow> lifecycle \<Rightarrow> decision" where
  "widen_and_return new_raw w s =
     (Inr (Compacting, False), w, snd (widen_pending_raw_payload_entries (wk_epoch w) new_raw s))"

text \<open>\<open>phase == "compacting"\<close>: someone's lease, our own operation, or a takeover.\<close>

definition compacting_gate ::
  "fence_mode \<Rightarrow> int \<Rightarrow> string \<Rightarrow> int \<Rightarrow> int \<Rightarrow> int \<Rightarrow> worker \<Rightarrow> lifecycle \<Rightarrow> decision" where
  "compacting_gate mode now new_id pc lease_ttl new_raw w s =
     (if \<not> verify_epoch w s then (Inl EpochMismatch, w, s)
      else case claim_compaction_lease now (wk_epoch w) (wk_id w) lease_ttl s of
        ((claimed, prev, _), s1) \<Rightarrow>
          if \<not> claimed \<or> wk_op w = prev then widen_and_return new_raw w s1
          else (case cleanup_abandoned_compaction mode now (the prev) new_id (wk_epoch w) (wk_id w) pc s1 of
                  Inl err \<Rightarrow> (Inl err, w, s1)
                | Inr (False, s2) \<Rightarrow> widen_and_return new_raw w s2
                | Inr (True, s2) \<Rightarrow> widen_and_return new_raw (w\<lparr>wk_op := Some new_id\<rparr>) s2))"

text \<open>\<open>ORPHAN_COMPACTING_REPAIR\<close>.\<close>

definition repair_orphan_compacting :: "worker \<Rightarrow> lifecycle \<Rightarrow> lifecycle" where
  "repair_orphan_compacting w s =
     (case read_progress_snapshot s of
        Inl _ \<Rightarrow> s
      | Inr snap \<Rightarrow>
          if pg_phase snap = Compacting \<and> pg_compaction snap = None
          then snd (set_phase (wk_epoch w) Active s) else s)"

text \<open>Steps 5.5 to 8, for a conversation that is neither deleted nor compacting.\<close>

definition ingestion_gate :: "int \<Rightarrow> string \<Rightarrow> int \<Rightarrow> int \<Rightarrow> worker \<Rightarrow> lifecycle \<Rightarrow> decision" where
  "ingestion_gate now episode_id lease_ttl new_raw w s =
     (case read_progress_snapshot s of
        Inl err \<Rightarrow> (Inl err, w, s)
      | Inr snap \<Rightarrow>
          if pg_total snap = pg_done snap then
            (if pg_phase snap = Init then
               (if \<not> verify_epoch w s then (Inl EpochMismatch, w, s)
                else case set_phase (wk_epoch w) Active s of
                       (False, s1) \<Rightarrow> (Inl EpochMismatch, w, s1)
                     | (True, s1) \<Rightarrow> (Inr (Active, False), w, s1))
             else if pg_phase snap = Ingesting then
               (case finalize_ingestion_if_complete now lease_ttl w s of
                  (healed, s1) \<Rightarrow> (Inr (if healed then Active else Ingesting, False), w, s1))
             else (Inr (pg_phase snap, False), w, s))
          else
            (case (if pg_phase snap = Init \<and> pg_done snap > 0 then activate_init_phase_if_tagged w s else (False, s)) of
               (activated, s1) \<Rightarrow>
                 (let ph = (if activated then Active else pg_phase snap)
                  in case claim_ingestion_for_complete_group now episode_id (wk_epoch w) (wk_id w) new_raw lease_ttl s1 of
                       Inl err \<Rightarrow> (Inl err, w, s1)
                     | Inr (Stale, s2) \<Rightarrow> (Inl EpochMismatch, w, s2)
                     | Inr (NoWork, s2) \<Rightarrow> (Inr (ph, False), w, s2)
                     | Inr (res, s2) \<Rightarrow> (Inr (Ingesting, res \<in> {Claimed, ClaimedTransitioned}), w, s2))))"

definition phase_gate ::
  "fence_mode \<Rightarrow> int \<Rightarrow> string \<Rightarrow> string \<Rightarrow> int \<Rightarrow> int \<Rightarrow> int \<Rightarrow> int \<Rightarrow> worker \<Rightarrow> lifecycle \<Rightarrow> decision" where
  "phase_gate mode now new_id episode_id pc lease_ttl new_raw new_ingestible w s =
     (if \<not> verify_epoch w s then (Inl EpochMismatch, w, s)
      else
        case update_request_metadata (wk_epoch w) new_raw new_ingestible s of
          (False, s1) \<Rightarrow> (Inl EpochMismatch, w, s1)
        | (True, s1) \<Rightarrow>
            (let s2 = repair_orphan_compacting w s1
             in case get_conversation_phase s2 of
                  Inl err \<Rightarrow> (Inl err, w, s2)
                | Inr Deleted \<Rightarrow>
                    (case increment_lifecycle_epoch_on_resurrect now s2 of
                       Inl err \<Rightarrow> (Inl err, w, s2)
                     | Inr (e, s3) \<Rightarrow> ingestion_gate now episode_id lease_ttl new_raw (w\<lparr>wk_epoch := e\<rparr>) s3)
                | Inr Compacting \<Rightarrow> compacting_gate mode now new_id pc lease_ttl new_raw w s2
                | Inr _ \<Rightarrow> ingestion_gate now episode_id lease_ttl new_raw w s2))"

end
