(* ===== verification/Tagger.thy ===== *)
theory Tagger
  imports PhaseDriver
begin

text \<open>
  The background tagger: \<open>_tagger_run\<close> and \<open>_run_tagging_pipeline\<close> of proxy/state.py,
  \<open>tag_canonical_row\<close> and \<open>tag_canonical_group\<close> of core/tagging\_pipeline.py, and the
  compare-and-set writes of storage/sqlite.py they end in.

  The embedding call, the hash of a body, the tag generator, the stub test and the date extractor
  are the fields of \<open>tagger_env\<close>; a generator that raises is \<open>None\<close>.  The fact signals and code
  references a tag result also carries are written to columns of their own and left out.
\<close>

section \<open>What the tagger reads\<close>

record tag_result =
  tr_primary :: string
  tr_tags :: "string list"

record tagger_env =
  te_embed :: "turn \<Rightarrow> bool"
  te_hash :: "string \<Rightarrow> string \<Rightarrow> string"
  te_stub :: "string \<Rightarrow> bool"
  te_generate :: "string \<Rightarrow> tag_result option"
  te_date :: "string \<Rightarrow> string"

definition live_at :: "int \<Rightarrow> lifecycle \<Rightarrow> bool" where
  "live_at e s \<longleftrightarrow> (case lc_conversation s of None \<Rightarrow> False | Some c \<Rightarrow> lf_epoch c = e \<and> live c)"

definition first_key :: "turn list \<Rightarrow> rat" where
  "first_key ts = fold min (map ct_key ts) (ct_key (hd ts))"

definition ordered_group :: "turn list \<Rightarrow> int \<Rightarrow> turn list" where
  "ordered_group turns g = sort_key (\<lambda>t. (ct_key t, ct_id t)) (group_of turns g)"

definition eligible_groups :: "turn list \<Rightarrow> int list" where
  "eligible_groups turns =
     sort_key (\<lambda>g. first_key (group_of turns g)) (filter (taggable turns) (remdups (map ct_group turns)))"

definition iter_complete_untagged_canonical_groups :: "int \<Rightarrow> nat \<Rightarrow> lifecycle \<Rightarrow> turn list list" where
  "iter_complete_untagged_canonical_groups e batch_size s =
     (if live_at e s
      then map (ordered_group (lc_turns s)) (take (max 1 batch_size) (eligible_groups (lc_turns s)))
      else [])"

section \<open>Compare-and-set writes\<close>

definition update_turns :: "(turn \<Rightarrow> bool) \<Rightarrow> (turn \<Rightarrow> turn) \<Rightarrow> lifecycle \<Rightarrow> nat \<times> lifecycle" where
  "update_turns P f s =
     (length (filter P (lc_turns s)), s\<lparr>lc_turns := map (\<lambda>t. if P t then f t else t) (lc_turns s)\<rparr>)"

definition backfill_canonical_row_hash_if_empty ::
  "int \<Rightarrow> turn \<Rightarrow> string \<Rightarrow> lifecycle \<Rightarrow> bool \<times> lifecycle" where
  "backfill_canonical_row_hash_if_empty e row h s =
     (if ct_id row = [] \<or> h = [] then (False, s)
      else let (n, s') = update_turns
                 (\<lambda>t. ct_id t = ct_id row \<and> sql_blank (ct_hash t) \<and> ct_user t = ct_user row
                      \<and> ct_assistant t = ct_assistant row \<and> live_at e s)
                 (\<lambda>t. t\<lparr>ct_hash := h\<rparr>) s
           in (n = 1, s'))"

definition update_canonical_row_tagging_if_unchanged ::
  "int \<Rightarrow> int \<Rightarrow> string \<Rightarrow> string \<Rightarrow> tag_result \<Rightarrow> string \<Rightarrow> lifecycle \<Rightarrow> bool \<times> lifecycle" where
  "update_canonical_row_tagging_if_unchanged now e i h res date s =
     (if i = [] \<or> h = [] then (False, s)
      else let (n, s') = update_turns
                 (\<lambda>t. ct_id t = i \<and> ct_hash t = h \<and> ct_tagged_at t = None \<and> live_at e s)
                 (\<lambda>t. t\<lparr>ct_primary_tag := str_or (tr_primary res) ''_general'', ct_tags := tr_tags res,
                        ct_session_date := (if sql_blank (ct_session_date t) \<and> \<not> sql_blank date then date
                                            else ct_session_date t),
                        ct_tagged_at := Some now\<rparr>) s
           in (n = 1, s'))"

definition has_user :: "turn \<Rightarrow> bool" where
  "has_user t \<longleftrightarrow> strip (ct_user t) \<noteq> []"

definition has_assistant :: "turn \<Rightarrow> bool" where
  "has_assistant t \<longleftrightarrow> strip (ct_assistant t) \<noteq> []"

text \<open>The shape of a group in Python: one combined row, or one row of each half.\<close>

definition pair_shape :: "turn list \<Rightarrow> bool" where
  "pair_shape g \<longleftrightarrow>
     (let u = length (filter has_user g); a = length (filter has_assistant g);
          b = length (filter (\<lambda>t. has_user t \<and> has_assistant t) g)
      in length g = 1 \<and> u = 1 \<and> a = 1 \<or> length g = 2 \<and> u = 1 \<and> a = 1 \<and> b = 0)"

definition single_half_shape :: "turn list \<Rightarrow> bool" where
  "single_half_shape g \<longleftrightarrow>
     length g = 1 \<and> filter (\<lambda>t. has_user t \<and> has_assistant t) g = []
     \<and> length (filter has_user g) + length (filter has_assistant g) = 1"

definition update_canonical_group_tagging_if_unchanged ::
  "int \<Rightarrow> int \<Rightarrow> int \<Rightarrow> (string \<times> string) list \<Rightarrow> tag_result \<Rightarrow> string \<Rightarrow> lifecycle \<Rightarrow> bool \<times> lifecycle" where
  "update_canonical_group_tagging_if_unchanged now e g expected res date s =
     (let ids = map fst expected;
          rows = (if live_at e s then ordered_group (lc_turns s) g else [])
      in if g < 0 \<or> length expected \<notin> {1, 2} \<or> \<not> distinct ids \<or> [] \<in> set ids \<or> [] \<in> set (map snd expected)
         then (False, s)
         else if \<not> (pair_shape rows \<or> single_half_shape rows)
                 \<or> set (map (\<lambda>t. (ct_id t, ct_hash t)) rows) \<noteq> set expected
                 \<or> \<not> list_ex (\<lambda>t. ct_tagged_at t = None) rows
         then (False, s)
         else let (n, s') = update_turns (\<lambda>t. ct_group t = g \<and> ct_id t \<in> set ids)
                    (\<lambda>t. t\<lparr>ct_primary_tag := str_or (tr_primary res) ''_general'', ct_tags := tr_tags res,
                           ct_session_date := date, ct_tagged_at := Some now\<rparr>) s
              in if n \<noteq> length rows then (False, s) else (True, s'))"

section \<open>Tagging one group\<close>

definition join_halves :: "string \<Rightarrow> string \<Rightarrow> string" where
  "join_halves u a = strip (u @ '' '' @ a)"

definition generate :: "tagger_env \<Rightarrow> string \<Rightarrow> tag_result option" where
  "generate env txt =
     (if txt = [] \<or> te_stub env txt then Some \<lparr>tr_primary = ''_stub'', tr_tags = [''_stub'']\<rparr>
      else te_generate env txt)"

definition tag_canonical_row :: "tagger_env \<Rightarrow> int \<Rightarrow> int \<Rightarrow> turn \<Rightarrow> lifecycle \<Rightarrow> bool \<times> lifecycle" where
  "tag_canonical_row env now e row s =
     (let h0 = strip (ct_hash row);
          h = (if h0 = [] then te_hash env (ct_user row) (ct_assistant row) else h0);
          (ok, s1) = (if h0 = [] then backfill_canonical_row_hash_if_empty e row h s else (True, s))
      in if \<not> ok then (False, s1)
         else case generate env (join_halves (strip (ct_user row)) (strip (ct_assistant row))) of
                None \<Rightarrow> (False, s1)
              | Some res \<Rightarrow>
                  (let date = str_or (strip (ct_session_date row)) (te_date env (ct_user row))
                   in update_canonical_row_tagging_if_unchanged now e (ct_id row) h res date s1))"

text \<open>The hashes the group's compare-and-set will expect; a refused repair ends the attempt.\<close>

fun backfill_group ::
  "tagger_env \<Rightarrow> int \<Rightarrow> turn list \<Rightarrow> lifecycle \<Rightarrow> (string \<times> string) list option \<times> lifecycle" where
  "backfill_group env e [] s = (Some [], s)"
| "backfill_group env e (r # rs) s =
     (let h = (if strip (ct_hash r) = [] then te_hash env (ct_user r) (ct_assistant r) else ct_hash r);
          (ok, s1) = (if strip (ct_hash r) = [] then backfill_canonical_row_hash_if_empty e r h s else (True, s))
      in if \<not> ok then (None, s1)
         else case backfill_group env e rs s1 of
                (None, s2) \<Rightarrow> (None, s2)
              | (Some hs, s2) \<Rightarrow> (Some ((ct_id r, h) # hs), s2))"

definition tag_canonical_group :: "tagger_env \<Rightarrow> int \<Rightarrow> int \<Rightarrow> turn list \<Rightarrow> lifecycle \<Rightarrow> bool \<times> lifecycle" where
  "tag_canonical_group env now e g s =
     (if g = [] \<or> ct_group (hd g) < 0 \<or> \<not> list_all (\<lambda>t. ct_group t = ct_group (hd g)) g \<or> \<not> pair_shape g
      then (False, s)
      else case backfill_group env e g s of
             (None, s1) \<Rightarrow> (False, s1)
           | (Some expected, s1) \<Rightarrow>
               (let user_text = strip (ct_user (hd (filter has_user g)));
                    assistant_text = strip (ct_assistant (hd (filter has_assistant g)))
                in case generate env (join_halves user_text assistant_text) of
                     None \<Rightarrow> (False, s1)
                   | Some res \<Rightarrow>
                       (let stored = filter (\<lambda>d. d \<noteq> []) (map (\<lambda>t. strip (ct_session_date t)) g);
                            date = (case stored of [] \<Rightarrow> te_date env user_text | d # _ \<Rightarrow> d)
                        in update_canonical_group_tagging_if_unchanged now e (ct_group (hd g)) expected res date s1)))"

definition run_tagging_pipeline :: "tagger_env \<Rightarrow> int \<Rightarrow> int \<Rightarrow> turn list \<Rightarrow> lifecycle \<Rightarrow> bool \<times> lifecycle" where
  "run_tagging_pipeline env now e rows s =
     (if \<not> list_all (te_embed env) rows then (False, s)
      else if length rows = 1 \<and> has_user (hd rows) \<noteq> has_assistant (hd rows)
      then tag_canonical_row env now e (hd rows) s
      else tag_canonical_group env now e rows s)"

section \<open>The loop\<close>

fun tag_batch :: "tagger_env \<Rightarrow> int \<Rightarrow> worker \<Rightarrow> turn list list \<Rightarrow> lifecycle \<Rightarrow> bool \<times> lifecycle" where
  "tag_batch env now w [] s = (True, s)"
| "tag_batch env now w (g # gs) s =
     (case run_tagging_pipeline env now (wk_epoch w) g s of
        (False, s1) \<Rightarrow> (False, s1)
      | (True, s1) \<Rightarrow>
          if \<not> verify_epoch w s1 then (False, s1)
          else tag_batch env now w gs (snd (refresh_ingestion_heartbeat now (wk_epoch w) (wk_id w) s1)))"

text \<open>Untagged rows are the measure of the loop: a group that is tagged takes at least one away.\<close>

definition untagged :: "lifecycle \<Rightarrow> nat" where
  "untagged s = length (filter (\<lambda>t. ct_tagged_at t = None) (lc_turns s))"

lemma update_turns_keep:
  assumes "\<And>t. ct_tagged_at (f t) = ct_tagged_at t"
  shows "untagged (snd (update_turns P f s)) = untagged s"
proof -
  have "length (filter (\<lambda>t. ct_tagged_at t = None) (map (\<lambda>t. if P t then f t else t) xs))
      = length (filter (\<lambda>t. ct_tagged_at t = None) xs)" for xs
    using assms by (induction xs) auto
  then show ?thesis by (simp add: untagged_def update_turns_def)
qed

lemma update_turns_tagging:
  assumes "\<And>t. ct_tagged_at (f t) \<noteq> None" "t \<in> set (lc_turns s)" "P t" "ct_tagged_at t = None"
  shows "untagged (snd (update_turns P f s)) < untagged s"
proof -
  let ?g = "\<lambda>t. if P t then f t else t"
  have le: "length (filter (\<lambda>t. ct_tagged_at t = None) (map ?g xs)) \<le> length (filter (\<lambda>t. ct_tagged_at t = None) xs)" for xs
    by (rule length_filter_map_le) (use assms(1) in \<open>metis\<close>)
  obtain as bs where "lc_turns s = as @ t # bs" using assms(2) by (meson split_list)
  moreover have "ct_tagged_at (f t) \<noteq> None" by (rule assms(1))
  ultimately show ?thesis using le[of as] le[of bs] assms(3,4)
    by (simp add: untagged_def update_turns_def del: not_None_eq)
qed

lemma backfill_untagged:
  "untagged (snd (backfill_canonical_row_hash_if_empty e row h s)) = untagged s"
  by (simp add: backfill_canonical_row_hash_if_empty_def update_turns_def[symmetric] Let_def split: prod.splits)
    (metis (no_types, lifting) snd_conv turn.ext_inject turn.surjective turn.update_convs(4) update_turns_keep)

lemma backfill_group_untagged: "untagged (snd (backfill_group env e rs s)) = untagged s"
proof (induction env e rs s rule: backfill_group.induct)
  case (2 env e r rs s)
  then show ?case
    using backfill_untagged[of e r "te_hash env (ct_user r) (ct_assistant r)" s]
    by (auto simp: Let_def split: prod.splits option.splits if_splits)
qed simp

lemma row_tagging_decreases:
  assumes "update_canonical_row_tagging_if_unchanged now e i h res date s = (True, s')"
  shows "untagged s' < untagged s"
proof -
  define P where "P = (\<lambda>t::turn. ct_id t = i \<and> ct_hash t = h \<and> ct_tagged_at t = None \<and> live_at e s)"
  define f where "f = (\<lambda>t::turn. t\<lparr>ct_primary_tag := str_or (tr_primary res) ''_general'', ct_tags := tr_tags res,
                        ct_session_date := (if sql_blank (ct_session_date t) \<and> \<not> sql_blank date then date
                                            else ct_session_date t),
                        ct_tagged_at := Some now\<rparr>)"
  have up: "update_turns P f s = (1, s')"
    using assms unfolding update_canonical_row_tagging_if_unchanged_def Let_def P_def f_def
    by (auto split: prod.splits if_splits)
  then have "filter P (lc_turns s) \<noteq> []" by (auto simp: update_turns_def)
  then obtain t where "t \<in> set (lc_turns s)" "P t" by (auto simp: filter_empty_conv)
  then have "untagged (snd (update_turns P f s)) < untagged s"
    by (intro update_turns_tagging) (auto simp: P_def f_def)
  with up show ?thesis by simp
qed

lemma set_ordered_group [simp]: "set (ordered_group turns g) = {t \<in> set turns. ct_group t = g}"
  by (simp add: ordered_group_def group_of_def)

lemma group_tagging_decreases:
  assumes "update_canonical_group_tagging_if_unchanged now e g expected res date s = (True, s')"
  shows "untagged s' < untagged s"
proof -
  define P where "P = (\<lambda>t::turn. ct_group t = g \<and> ct_id t \<in> set (map fst expected))"
  define f where "f = (\<lambda>t::turn. t\<lparr>ct_primary_tag := str_or (tr_primary res) ''_general'', ct_tags := tr_tags res,
                           ct_session_date := date, ct_tagged_at := Some now\<rparr>)"
  define rows where "rows = (if live_at e s then ordered_group (lc_turns s) g else [])"
  have up: "s' = snd (update_turns P f s)"
    and ids: "set (map (\<lambda>t. (ct_id t, ct_hash t)) rows) = set expected"
    and some: "list_ex (\<lambda>t. ct_tagged_at t = None) rows"
    using assms unfolding update_canonical_group_tagging_if_unchanged_def Let_def P_def f_def rows_def[symmetric]
    by (auto split: prod.splits if_splits simp del: set_map)
  from some obtain t where t: "t \<in> set rows" "ct_tagged_at t = None" by (auto simp: list_ex_iff)
  then have "t \<in> set (lc_turns s)" "ct_group t = g" by (auto simp: rows_def split: if_splits)
  moreover have "ct_id t \<in> set (map fst expected)"
  proof -
    have "(ct_id t, ct_hash t) \<in> set expected" using t(1) ids by auto
    then show ?thesis by force
  qed
  ultimately have "untagged (snd (update_turns P f s)) < untagged s"
    using t(2) by (intro update_turns_tagging[of f t]) (auto simp: P_def f_def)
  then show ?thesis by (simp add: up)
qed

lemma pipeline_decreases:
  assumes "run_tagging_pipeline env now e rows s = (True, s')"
  shows "untagged s' < untagged s"
proof (cases "length rows = 1 \<and> has_user (hd rows) \<noteq> has_assistant (hd rows)")
  case True
  then have *: "tag_canonical_row env now e (hd rows) s = (True, s')"
    using assms by (auto simp: run_tagging_pipeline_def split: if_splits)
  obtain s1 h res date where "update_canonical_row_tagging_if_unchanged now e (ct_id (hd rows)) h res date s1 = (True, s')"
      and s1: "s1 = s \<or> s1 = snd (backfill_canonical_row_hash_if_empty e (hd rows) h s)"
    using * unfolding tag_canonical_row_def Let_def
    by (auto split: prod.splits if_splits option.splits)
  then show ?thesis using row_tagging_decreases backfill_untagged by metis
next
  case False
  then have *: "tag_canonical_group env now e rows s = (True, s')"
    using assms by (auto simp: run_tagging_pipeline_def split: if_splits)
  then obtain expected res date g where
    "update_canonical_group_tagging_if_unchanged now e g expected res date (snd (backfill_group env e rows s)) = (True, s')"
    unfolding tag_canonical_group_def Let_def
    by (auto split: prod.splits if_splits option.splits)
  then show ?thesis using group_tagging_decreases backfill_group_untagged by metis
qed

lemma heartbeat_turns [simp]:
  "lc_turns (snd (refresh_ingestion_heartbeat now e w s)) = lc_turns s"
  "lc_conversation (snd (refresh_ingestion_heartbeat now e w s)) = lc_conversation s"
  by (auto simp: refresh_ingestion_heartbeat_def update_episodes_def)

lemma complete_turns [simp]:
  "lc_turns (snd (complete_ingestion_episode now e w s)) = lc_turns s"
  "lc_conversation (snd (complete_ingestion_episode now e w s)) = lc_conversation s"
  by (auto simp: complete_ingestion_episode_def update_episodes_def)

lemma untagged_cong: "lc_turns s = lc_turns s' \<Longrightarrow> untagged s = untagged s'"
  by (simp add: untagged_def)

lemma batch_decreases: "tag_batch env now w gs s = (True, s') \<Longrightarrow> gs \<noteq> [] \<Longrightarrow> untagged s' < untagged s"
proof (induction env now w gs s rule: tag_batch.induct)
  case (2 env now w g gs s)
  obtain s1 where s1: "run_tagging_pipeline env now (wk_epoch w) g s = (True, s1)"
      "tag_batch env now w gs (snd (refresh_ingestion_heartbeat now (wk_epoch w) (wk_id w) s1)) = (True, s')"
    using 2(2) by (auto split: prod.splits bool.splits if_splits)
  have "verify_epoch w s1" using 2(2) s1(1) by (auto split: if_splits)
  have "untagged s1 < untagged s" by (rule pipeline_decreases[OF s1(1)])
  moreover have "untagged (snd (refresh_ingestion_heartbeat now (wk_epoch w) (wk_id w) s1)) = untagged s1"
    by (rule untagged_cong) simp
  ultimately show ?case
    using 2(1)[OF s1(1)[symmetric] refl] \<open>verify_epoch w s1\<close> s1(2) by (cases "gs = []") auto
qed simp

lemma iter_empty_iff:
  "iter_complete_untagged_canonical_groups e n s = [] \<longleftrightarrow> \<not> live_at e s \<or> eligible_groups (lc_turns s) = []"
  by (simp add: iter_complete_untagged_canonical_groups_def)

text \<open>
  \<open>_tagger_run\<close>.  The second fetch decides between a late row (go round again) and an episode that
  is not ours to finish.
\<close>

function tagger_run :: "tagger_env \<Rightarrow> int \<Rightarrow> worker \<Rightarrow> lifecycle \<Rightarrow> bool \<times> lifecycle" where
  "tagger_run env now w s =
     (if \<not> verify_epoch w s then (False, s)
      else let batch = iter_complete_untagged_canonical_groups (wk_epoch w) 32 s
           in if batch = [] then
                (case complete_ingestion_episode now (wk_epoch w) (wk_id w) s of
                   (True, s1) \<Rightarrow> set_phase (wk_epoch w) Active s1
                 | (False, s1) \<Rightarrow>
                     if \<not> verify_epoch w s1 then (False, s1)
                     else if iter_complete_untagged_canonical_groups (wk_epoch w) 1 s1 = [] then (False, s1)
                     else tagger_run env now w s1)
              else (case tag_batch env now w batch s of
                      (False, s1) \<Rightarrow> (False, s1)
                    | (True, s1) \<Rightarrow> tagger_run env now w s1))"
  by pat_completeness auto

termination tagger_run
proof (relation "measure (\<lambda>(env, now, w, s). untagged s)", goal_cases)
  case (2 env now w s batch ok s1)
  have "lc_turns s1 = lc_turns s" "lc_conversation s1 = lc_conversation s"
    using 2(4) complete_turns[of now "wk_epoch w" "wk_id w" s] by (metis snd_conv)+
  moreover have "iter_complete_untagged_canonical_groups (wk_epoch w) 32 s = []"
    using 2(2,3) by metis
  ultimately have "iter_complete_untagged_canonical_groups (wk_epoch w) 1 s1 = []"
    unfolding iter_empty_iff live_at_def by simp
  with 2(7) show ?case by simp
next
  case (3 env now w s batch ok s1)
  then show ?case using batch_decreases[of env now w batch s s1] by simp
qed simp

declare tagger_run.simps [simp del]

end
