(* ===== verification/TaggerProps.thy ===== *)
theory TaggerProps
  imports Tagger
begin

text \<open>
  What the tagger loop achieves: the bound on its passes, that it drains the queue and closes the
  episode when nothing it calls fails, and the group shape on which it never finishes.
\<close>

section \<open>A bound on the passes\<close>

text \<open>The loop with a pass counter; \<open>None\<close> when the passes run out.\<close>

fun tagger_passes :: "nat \<Rightarrow> tagger_env \<Rightarrow> int \<Rightarrow> worker \<Rightarrow> lifecycle \<Rightarrow> (bool \<times> lifecycle) option" where
  "tagger_passes 0 env now w s = None"
| "tagger_passes (Suc n) env now w s =
     (if \<not> verify_epoch w s then Some (False, s)
      else let batch = iter_complete_untagged_canonical_groups (wk_epoch w) 32 s
           in if batch = [] then
                (case complete_ingestion_episode now (wk_epoch w) (wk_id w) s of
                   (True, s1) \<Rightarrow> Some (set_phase (wk_epoch w) Active s1)
                 | (False, s1) \<Rightarrow>
                     if \<not> verify_epoch w s1 then Some (False, s1)
                     else if iter_complete_untagged_canonical_groups (wk_epoch w) 1 s1 = [] then Some (False, s1)
                     else tagger_passes n env now w s1)
              else (case tag_batch env now w batch s of
                      (False, s1) \<Rightarrow> Some (False, s1)
                    | (True, s1) \<Rightarrow> tagger_passes n env now w s1))"

lemma second_fetch_empty:
  assumes "iter_complete_untagged_canonical_groups (wk_epoch w) 32 s = []"
    "complete_ingestion_episode now (wk_epoch w) (wk_id w) s = (b, s1)"
  shows "iter_complete_untagged_canonical_groups (wk_epoch w) 1 s1 = []"
proof -
  have "lc_turns s1 = lc_turns s" "lc_conversation s1 = lc_conversation s"
    using assms(2) complete_turns[of now "wk_epoch w" "wk_id w" s] by (metis snd_conv)+
  with assms(1) show ?thesis unfolding iter_empty_iff live_at_def by simp
qed

lemma passes_enough: "untagged s < n \<Longrightarrow> tagger_passes n env now w s = Some (tagger_run env now w s)"
proof (induction n arbitrary: s)
  case (Suc n)
  let ?batch = "iter_complete_untagged_canonical_groups (wk_epoch w) 32 s"
  show ?case
  proof (cases "verify_epoch w s \<and> ?batch \<noteq> []")
    case True
    have "tagger_passes n env now w s1 = Some (tagger_run env now w s1)"
      if "tag_batch env now w ?batch s = (True, s1)" for s1
      using batch_decreases[OF that] True Suc.prems by (intro Suc.IH) simp
    then show ?thesis
      using True by (simp add: tagger_run.simps[of env now w s] Let_def split: prod.splits bool.splits)
  next
    case False
    then show ?thesis
      using second_fetch_empty[of w s now]
      by (auto simp: tagger_run.simps[of env now w s] Let_def split: prod.splits bool.splits)
  qed
qed simp

text \<open>C13: The tagger loop ends whatever the tag generator, the embedder and the hash do: one more
  pass than there are untagged rows is always enough, because a pass that goes round again has
  tagged at least one row.\<close>

theorem tagger_run_terminates:
  "tagger_passes (untagged s + 1) env now w s = Some (tagger_run env now w s)"
  by (rule passes_enough) simp

section \<open>The queue is drained\<close>

text \<open>The rows the code can tag: SQL and Python agree on which halves are blank, ids and hashes are set.\<close>

definition clean :: "turn \<Rightarrow> bool" where
  "clean t \<longleftrightarrow> (has_user t \<longleftrightarrow> sql_user t) \<and> (has_assistant t \<longleftrightarrow> sql_assistant t)
     \<and> strip (ct_hash t) = ct_hash t \<and> ct_hash t \<noteq> [] \<and> ct_id t \<noteq> []"

definition clean_transcript :: "turn list \<Rightarrow> bool" where
  "clean_transcript turns \<longleftrightarrow> distinct (map ct_id turns) \<and> list_all clean turns"

definition env_succeeds :: "tagger_env \<Rightarrow> bool" where
  "env_succeeds env \<longleftrightarrow> (\<forall>t. te_embed env t) \<and> (\<forall>x. te_generate env x \<noteq> None)"

text \<open>Tagging a group leaves what identifies a row, and every other group, alone.\<close>

definition same_row :: "turn \<Rightarrow> turn \<Rightarrow> bool" where
  "same_row t' t \<longleftrightarrow> ct_id t' = ct_id t \<and> ct_group t' = ct_group t \<and> ct_key t' = ct_key t \<and> ct_hash t' = ct_hash t
     \<and> ct_user t' = ct_user t \<and> ct_assistant t' = ct_assistant t"

definition tags_group :: "int \<Rightarrow> (turn \<Rightarrow> turn) \<Rightarrow> turn list \<Rightarrow> bool" where
  "tags_group g f turns \<longleftrightarrow>
     (\<forall>t\<in>set turns. same_row (f t) t \<and> (if ct_group t = g then ct_tagged_at (f t) \<noteq> None else f t = t))"

lemma tags_group_map: "tags_group g f turns \<Longrightarrow> k = ct_id \<or> k = ct_hash \<Longrightarrow> map k (map f turns) = map k turns"
  by (auto simp: tags_group_def same_row_def)

lemma tags_group_other:
  assumes "tags_group g f turns" "g' \<noteq> g"
  shows "group_of (map f turns) g' = group_of turns g'"
proof -
  have "filter (\<lambda>t. ct_group t = g') (map f ts) = filter (\<lambda>t. ct_group t = g') ts"
    if "\<forall>t\<in>set ts. ct_group (f t) = ct_group t \<and> (ct_group t \<noteq> g \<longrightarrow> f t = t)" for ts
    using that assms(2) by (induction ts) auto
  then show ?thesis using assms(1) by (auto simp: group_of_def tags_group_def same_row_def)
qed

lemma tags_group_last_key: "tags_group g f turns \<Longrightarrow> last_key (map f turns) = last_key turns"
proof -
  assume a: "tags_group g f turns"
  then have "map ct_key (map f turns) = map ct_key turns"
    by (auto simp: tags_group_def same_row_def)
  moreover have "turns \<noteq> [] \<Longrightarrow> ct_key (hd (map f turns)) = ct_key (hd turns)"
    using a by (cases turns) (auto simp: tags_group_def same_row_def)
  ultimately show ?thesis by (cases turns) (simp_all add: last_key_def del: map_map)
qed

lemma tags_group_taggable:
  assumes "tags_group g f turns"
  shows "taggable (map f turns) g' \<longleftrightarrow> g' \<noteq> g \<and> taggable turns g'"
proof (cases "g' = g")
  case True
  have "\<forall>t\<in>set (group_of (map f turns) g). ct_tagged_at t \<noteq> None"
    using assms by (auto simp: group_of_def tags_group_def same_row_def)
  then show ?thesis by (auto simp: True taggable_def list_ex_iff)
next
  case False
  then show ?thesis
    using tags_group_other[OF assms] tags_group_last_key[OF assms]
    by (simp add: taggable_def group_complete_def Let_def)
qed

lemma tags_group_clean:
  assumes "tags_group g f turns" "clean_transcript turns"
  shows "clean_transcript (map f turns)"
proof -
  have "clean (f t)" if "t \<in> set turns" for t
    using assms that
    by (auto simp: tags_group_def same_row_def clean_transcript_def list_all_iff clean_def has_user_def
        has_assistant_def sql_user_def sql_assistant_def)
  then show ?thesis
    using assms(2) tags_group_map[OF assms(1), of ct_id]
    by (simp add: clean_transcript_def list_all_iff del: map_map)
qed

lemma length_filter_sort_key: "length (filter P (sort_key k xs)) = length (filter P xs)"
  by (metis mset_filter mset_sort size_mset)

lemma filter_unique:
  assumes "distinct (map k xs)" "x \<in> set xs" "P x" "\<And>y. y \<in> set xs \<Longrightarrow> P y \<Longrightarrow> k y = k x"
  shows "length (filter P xs) = 1"
proof -
  have "filter P xs = filter (\<lambda>y. k y = k x) xs"
  proof (rule filter_cong[OF refl])
    fix y assume y: "y \<in> set xs"
    have inj: "inj_on k (set xs)" using assms(1) by (simp add: distinct_map)
    have "k y = k x \<Longrightarrow> y = x" by (rule inj_onD[OF inj _ y assms(2)])
    then show "P y \<longleftrightarrow> k y = k x" using assms(3) assms(4)[OF y] by metis
  qed
  moreover have "length (filter (\<lambda>y. k y = k x) xs) = 1" if "distinct (map k xs)" "x \<in> set xs" for xs
    using that
  proof (induction xs)
    case (Cons a xs)
    show ?case
    proof (cases "k a = k x")
      case True
      have "filter (\<lambda>y. k y = k x) xs = []"
      proof (rule filter_False, rule ballI, rule notI)
        fix y assume "y \<in> set xs" "k y = k x"
        then have "k a \<in> set (map k xs)" using True by (metis image_eqI list.set_map)
        with Cons.prems(1) show False by simp
      qed
      then show ?thesis using True by simp
    next
      case False
      then have "x \<in> set xs" using Cons.prems(2) by auto
      then show ?thesis using Cons.IH Cons.prems(1) False by simp
    qed
  qed simp
  ultimately show ?thesis using assms(1,2) by simp
qed

lemma length_ordered_group: "length (ordered_group turns g) = length (group_of turns g)"
  by (simp add: ordered_group_def)

lemma clean_member: "clean_transcript turns \<Longrightarrow> t \<in> set turns \<Longrightarrow> clean t"
  by (simp add: clean_transcript_def list_all_iff)

lemma clean_shape:
  assumes "clean_transcript turns"
  shows "length (filter has_user (ordered_group turns g)) = length (filter sql_user (group_of turns g))"
    and "length (filter has_assistant (ordered_group turns g)) = length (filter sql_assistant (group_of turns g))"
    and "length (filter (\<lambda>t. has_user t \<and> has_assistant t) (ordered_group turns g))
        = length (filter (\<lambda>t. sql_user t \<and> sql_assistant t) (group_of turns g))"
proof -
  have "filter has_user (group_of turns g) = filter sql_user (group_of turns g)"
    "filter has_assistant (group_of turns g) = filter sql_assistant (group_of turns g)"
    "filter (\<lambda>t. has_user t \<and> has_assistant t) (group_of turns g) = filter (\<lambda>t. sql_user t \<and> sql_assistant t) (group_of turns g)"
    using clean_member[OF assms] by (auto simp: group_of_def clean_def intro!: filter_cong)
  then show "length (filter has_user (ordered_group turns g)) = length (filter sql_user (group_of turns g))"
    "length (filter has_assistant (ordered_group turns g)) = length (filter sql_assistant (group_of turns g))"
    "length (filter (\<lambda>t. has_user t \<and> has_assistant t) (ordered_group turns g))
        = length (filter (\<lambda>t. sql_user t \<and> sql_assistant t) (group_of turns g))"
    by (simp_all add: ordered_group_def length_filter_sort_key)
qed

lemma generate_some: "env_succeeds env \<Longrightarrow> \<exists>res. generate env x = Some res"
  by (auto simp: generate_def env_succeeds_def)

lemma row_succeeds:
  assumes "live_at e s" "clean_transcript (lc_turns s)" "env_succeeds env"
    and r: "r \<in> set (lc_turns s)" "ct_group r = g" "ct_tagged_at r = None"
    and only: "\<And>t. t \<in> set (lc_turns s) \<Longrightarrow> ct_group t = g \<Longrightarrow> t = r"
  shows "\<exists>f. tag_canonical_row env now e r s = (True, s\<lparr>lc_turns := map f (lc_turns s)\<rparr>) \<and> tags_group g f (lc_turns s)"
proof -
  have ids: "distinct (map ct_id (lc_turns s))" and cl: "clean r"
    using assms(2) r(1) by (auto simp: clean_transcript_def list_all_iff)
  obtain res where res: "generate env (join_halves (strip (ct_user r)) (strip (ct_assistant r))) = Some res"
    using generate_some[OF assms(3)] by blast
  define date where "date = str_or (strip (ct_session_date r)) (te_date env (ct_user r))"
  define P where "P = (\<lambda>t::turn. ct_id t = ct_id r \<and> ct_hash t = ct_hash r \<and> ct_tagged_at t = None \<and> live_at e s)"
  define h where "h = (\<lambda>t::turn. t\<lparr>ct_primary_tag := str_or (tr_primary res) ''_general'', ct_tags := tr_tags res,
                        ct_session_date := (if sql_blank (ct_session_date t) \<and> \<not> sql_blank date then date
                                            else ct_session_date t), ct_tagged_at := Some now\<rparr>)"
  have P: "P t \<longleftrightarrow> t = r" if "t \<in> set (lc_turns s)" for t
  proof
    have inj: "inj_on ct_id (set (lc_turns s))" using ids by (simp add: distinct_map)
    assume "P t"
    then have "ct_id t = ct_id r" by (simp add: P_def)
    then show "t = r" using inj that r(1) by (auto dest: inj_onD)
  qed (simp add: P_def r assms(1))
  have "length (filter P (lc_turns s)) = 1"
    by (rule filter_unique[OF ids r(1)]) (use P r(1) in metis)+
  then have "update_turns P h s = (1, s\<lparr>lc_turns := map (\<lambda>t. if P t then h t else t) (lc_turns s)\<rparr>)"
    by (simp add: update_turns_def)
  then have "tag_canonical_row env now e r s = (True, s\<lparr>lc_turns := map (\<lambda>t. if P t then h t else t) (lc_turns s)\<rparr>)"
    using cl res unfolding tag_canonical_row_def update_canonical_row_tagging_if_unchanged_def P_def h_def date_def
    by (simp add: clean_def Let_def)
  moreover have "tags_group g (\<lambda>t. if P t then h t else t) (lc_turns s)"
    unfolding tags_group_def
  proof
    fix t assume t: "t \<in> set (lc_turns s)"
    have iff: "P t \<longleftrightarrow> ct_group t = g" using P[OF t] only[OF t] r(2) by metis
    show "same_row (if P t then h t else t) t \<and> (if ct_group t = g then ct_tagged_at (if P t then h t else t) \<noteq> None
        else (if P t then h t else t) = t)"
      unfolding iff by (simp add: same_row_def h_def)
  qed
  ultimately show ?thesis by blast
qed

lemma backfill_group_clean:
  "list_all clean rows \<Longrightarrow> backfill_group env e rows s = (Some (map (\<lambda>t. (ct_id t, ct_hash t)) rows), s)"
  by (induction rows) (auto simp: clean_def)

lemma group_succeeds:
  assumes live: "live_at e s" and cl: "clean_transcript (lc_turns s)" and env: "env_succeeds env" and g: "g \<ge> 0"
    and shape: "pair_shape (ordered_group (lc_turns s) g)"
    and untagged: "list_ex (\<lambda>t. ct_tagged_at t = None) (ordered_group (lc_turns s) g)"
  shows "\<exists>f. tag_canonical_group env now e (ordered_group (lc_turns s) g) s = (True, s\<lparr>lc_turns := map f (lc_turns s)\<rparr>)
           \<and> tags_group g f (lc_turns s)"
proof -
  define rows where "rows = ordered_group (lc_turns s) g"
  have set_rows: "set rows = {t \<in> set (lc_turns s). ct_group t = g}" by (simp add: rows_def)
  have clr: "list_all clean rows" using clean_member[OF cl] by (auto simp: set_rows list_all_iff)
  have len: "length rows = 1 \<or> length rows = 2" using shape by (auto simp: pair_shape_def rows_def Let_def)
  then have ne: "rows \<noteq> []" by auto
  have grp: "ct_group (hd rows) = g" "list_all (\<lambda>t. ct_group t = g) rows"
    using hd_in_set[OF ne] by (auto simp: set_rows list_all_iff)
  have ids: "distinct (map ct_id rows)"
  proof -
    have "distinct (lc_turns s)" using cl by (simp add: clean_transcript_def distinct_map)
    then have "distinct rows" by (simp add: rows_def ordered_group_def group_of_def)
    then show ?thesis using cl set_rows by (auto simp: clean_transcript_def distinct_map intro: inj_on_subset)
  qed
  define expected where "expected = map (\<lambda>t. (ct_id t, ct_hash t)) rows"
  have fst_snd: "map fst expected = map ct_id rows" "map snd expected = map ct_hash rows"
    by (simp_all add: expected_def comp_def)
  obtain res where res: "generate env (join_halves (strip (ct_user (hd (filter has_user rows))))
        (strip (ct_assistant (hd (filter has_assistant rows))))) = Some res"
    using generate_some[OF env] by blast
  define date where "date = (case filter (\<lambda>d. d \<noteq> []) (map (\<lambda>t. strip (ct_session_date t)) rows) of
      [] \<Rightarrow> te_date env (strip (ct_user (hd (filter has_user rows)))) | d # _ \<Rightarrow> d)"
  define P where "P = (\<lambda>t::turn. ct_group t = g \<and> ct_id t \<in> set (map fst expected))"
  define h where "h = (\<lambda>t::turn. t\<lparr>ct_primary_tag := str_or (tr_primary res) ''_general'', ct_tags := tr_tags res,
                           ct_session_date := date, ct_tagged_at := Some now\<rparr>)"
  have P: "P t \<longleftrightarrow> ct_group t = g" if "t \<in> set (lc_turns s)" for t
    using that by (auto simp: P_def fst_snd set_rows)
  then have "filter P (lc_turns s) = group_of (lc_turns s) g"
    unfolding group_of_def by (intro filter_cong) auto
  then have up: "update_turns P h s = (length rows, s\<lparr>lc_turns := map (\<lambda>t. if P t then h t else t) (lc_turns s)\<rparr>)"
    by (simp add: update_turns_def rows_def length_ordered_group)
  have nonempty: "[] \<notin> ct_id ` set rows" "[] \<notin> ct_hash ` set rows"
    using clr by (auto simp: list_all_iff clean_def)
  have "update_canonical_group_tagging_if_unchanged now e g expected res date s
      = (True, s\<lparr>lc_turns := map (\<lambda>t. if P t then h t else t) (lc_turns s)\<rparr>)"
    unfolding update_canonical_group_tagging_if_unchanged_def Let_def P_def[symmetric] h_def[symmetric]
    using g live len ids nonempty shape untagged up
    by (simp add: rows_def[symmetric] fst_snd) (simp add: expected_def)
  then have "tag_canonical_group env now e rows s = (True, s\<lparr>lc_turns := map (\<lambda>t. if P t then h t else t) (lc_turns s)\<rparr>)"
    unfolding tag_canonical_group_def Let_def date_def
    using g ne grp shape res backfill_group_clean[OF clr, of env e s]
    by (simp add: rows_def[symmetric] expected_def)
  moreover have "tags_group g (\<lambda>t. if P t then h t else t) (lc_turns s)"
    using P by (auto simp: tags_group_def same_row_def h_def)
  ultimately show ?thesis by (auto simp: rows_def)
qed

lemma pipeline_succeeds:
  assumes live: "live_at e s" and cl: "clean_transcript (lc_turns s)" and env: "env_succeeds env"
    and tg: "taggable (lc_turns s) g"
  shows "\<exists>f. run_tagging_pipeline env now e (ordered_group (lc_turns s) g) s = (True, s\<lparr>lc_turns := map f (lc_turns s)\<rparr>)
           \<and> tags_group g f (lc_turns s)"
proof -
  define rows where "rows = ordered_group (lc_turns s) g"
  have set_rows: "set rows = {t \<in> set (lc_turns s). ct_group t = g}" by (simp add: rows_def)
  have embed: "list_all (te_embed env) rows" using env by (simp add: env_succeeds_def list_all_iff)
  have untagged: "list_ex (\<lambda>t. ct_tagged_at t = None) rows" and g: "g \<ge> 0"
    using tg by (auto simp: taggable_def rows_def list_ex_iff ordered_group_def)
  have both: "length (filter (\<lambda>t. has_user t \<and> has_assistant t) rows) \<le> length (filter has_user rows)"
      "length (filter (\<lambda>t. has_user t \<and> has_assistant t) rows) \<le> length (filter has_assistant rows)"
    by (induction rows) auto
  have "single_half_shape rows"
    if "length rows = 1" "length (filter has_user rows) + length (filter has_assistant rows) = 1"
    using that both by (simp add: single_half_shape_def flip: length_0_conv)
  moreover have "length rows = 1 \<and> length (filter has_user rows) + length (filter has_assistant rows) = 1 \<or> pair_shape rows"
    using tg unfolding taggable_def group_complete_def Let_def pair_shape_def clean_shape[OF cl, symmetric]
      length_ordered_group[symmetric] rows_def[symmetric] by blast
  ultimately have shape: "pair_shape rows \<or> single_half_shape rows" by blast
  show ?thesis
  proof (cases "length rows = 1 \<and> has_user (hd rows) \<noteq> has_assistant (hd rows)")
    case True
    then obtain r where rows: "rows = [r]" by (auto simp: length_Suc_conv)
    then have "set rows = {r}" by simp
    then have r: "r \<in> set (lc_turns s)" "ct_group r = g"
      and only: "\<And>t. t \<in> set (lc_turns s) \<Longrightarrow> ct_group t = g \<Longrightarrow> t = r"
      unfolding set_rows by blast+
    have "ct_tagged_at r = None" using untagged rows by simp
    from row_succeeds[OF live cl env r this only] show ?thesis
      using True embed rows by (simp add: run_tagging_pipeline_def rows_def)
  next
    case False
    have "pair_shape rows"
    proof (rule ccontr)
      assume "\<not> pair_shape rows"
      with shape have single: "single_half_shape rows" by blast
      then obtain r where rows: "rows = [r]" by (auto simp: single_half_shape_def length_Suc_conv)
      then show False using False single by (auto simp: single_half_shape_def split: if_splits)
    qed
    then show ?thesis
      using group_succeeds[OF live cl env g, of now] untagged False embed
      by (auto simp: run_tagging_pipeline_def rows_def)
  qed
qed

text \<open>What the loop keeps while it runs: the conversation, and one running episode of this worker.\<close>

definition owns_episode :: "worker \<Rightarrow> lifecycle \<Rightarrow> bool" where
  "owns_episode w s \<longleftrightarrow> length (filter (owned_episode (wk_epoch w) (wk_id w) s) (lc_episodes s)) = 1"

definition ready :: "worker \<Rightarrow> lifecycle \<Rightarrow> bool" where
  "ready w s \<longleftrightarrow> live_at (wk_epoch w) s \<and> clean_transcript (lc_turns s) \<and> owns_episode w s"

lemma live_verifies: "live_at (wk_epoch w) s \<Longrightarrow> verify_epoch w s"
  by (auto simp: live_at_def verify_epoch_def get_lifecycle_epoch_def split: option.splits)

lemma owned_cong: "lc_conversation s' = lc_conversation s \<Longrightarrow> owned_episode e w s' = owned_episode e w s"
  by (simp add: fun_eq_iff owned_episode_def epoch_current_def)

lemma heartbeat_owns: "owns_episode w s \<Longrightarrow> owns_episode w (snd (refresh_ingestion_heartbeat now (wk_epoch w) (wk_id w) s))"
proof -
  let ?O = "owned_episode (wk_epoch w) (wk_id w) s" and ?f = "\<lambda>x::episode. x\<lparr>ep_heartbeat := now\<rparr>"
  have "?O (if ?O x then ?f x else x) \<longleftrightarrow> ?O x" for x by (simp add: owned_episode_def)
  then have "length (filter ?O (map (\<lambda>x. if ?O x then ?f x else x) xs)) = length (filter ?O xs)" for xs
    by (induction xs) simp_all
  then show "owns_episode w s \<Longrightarrow> owns_episode w (snd (refresh_ingestion_heartbeat now (wk_epoch w) (wk_id w) s))"
    using owned_cong[of "snd (refresh_ingestion_heartbeat now (wk_epoch w) (wk_id w) s)" s]
    by (simp add: owns_episode_def) (simp add: refresh_ingestion_heartbeat_def update_episodes_def)
qed

lemma ready_tagged:
  assumes "ready w s" "tags_group g f (lc_turns s)"
  shows "ready w (snd (refresh_ingestion_heartbeat now (wk_epoch w) (wk_id w) (s\<lparr>lc_turns := map f (lc_turns s)\<rparr>)))"
proof -
  define s1 where "s1 = s\<lparr>lc_turns := map f (lc_turns s)\<rparr>"
  have "owns_episode w s1"
    using assms(1) owned_cong[of s1 s] by (simp add: ready_def owns_episode_def s1_def)
  then have "owns_episode w (snd (refresh_ingestion_heartbeat now (wk_epoch w) (wk_id w) s1))"
    by (rule heartbeat_owns)
  then show ?thesis
    using assms tags_group_clean[OF assms(2)] unfolding s1_def[symmetric]
    by (simp add: ready_def live_at_def s1_def)
qed

lemma batch_succeeds:
  assumes "ready w s" "env_succeeds env" "distinct gs" "\<forall>g\<in>set gs. taggable (lc_turns s) g"
  shows "\<exists>s'. tag_batch env now w (map (ordered_group (lc_turns s)) gs) s = (True, s') \<and> ready w s'
     \<and> lc_conversation s' = lc_conversation s"
  using assms
proof (induction gs arbitrary: s)
  case (Cons g gs)
  have live: "live_at (wk_epoch w) s" and cl: "clean_transcript (lc_turns s)" using Cons.prems(1) by (simp_all add: ready_def)
  obtain f where f: "run_tagging_pipeline env now (wk_epoch w) (ordered_group (lc_turns s) g) s
        = (True, s\<lparr>lc_turns := map f (lc_turns s)\<rparr>)" "tags_group g f (lc_turns s)"
    using pipeline_succeeds[OF live cl Cons.prems(2)] Cons.prems(4) by force
  define s1 where "s1 = s\<lparr>lc_turns := map f (lc_turns s)\<rparr>"
  define s2 where "s2 = snd (refresh_ingestion_heartbeat now (wk_epoch w) (wk_id w) s1)"
  have s2: "lc_turns s2 = map f (lc_turns s)" "lc_conversation s2 = lc_conversation s"
    by (simp_all add: s2_def s1_def)
  have ready2: "ready w s2" unfolding s2_def s1_def by (rule ready_tagged[OF Cons.prems(1) f(2)])
  have verify: "verify_epoch w s1" using live_verifies live by (simp add: s1_def live_at_def verify_epoch_def get_lifecycle_epoch_def split: option.splits)
  have "\<forall>g'\<in>set gs. taggable (lc_turns s2) g'"
    using Cons.prems(3,4) tags_group_taggable[OF f(2)] by (auto simp: s2)
  then obtain s' where s': "tag_batch env now w (map (ordered_group (lc_turns s2)) gs) s2 = (True, s')" "ready w s'"
      "lc_conversation s' = lc_conversation s2"
    using Cons.IH[OF ready2 Cons.prems(2)] Cons.prems(3) by auto
  have same: "map (ordered_group (lc_turns s2)) gs = map (ordered_group (lc_turns s)) gs"
  proof (rule map_cong[OF refl])
    fix g' assume "g' \<in> set gs"
    then have "g' \<noteq> g" using Cons.prems(3) by auto
    from tags_group_other[OF f(2) this] show "ordered_group (lc_turns s2) g' = ordered_group (lc_turns s) g'"
      unfolding s2 ordered_group_def by simp
  qed
  have "tag_batch env now w (map (ordered_group (lc_turns s)) gs) s2 = (True, s')"
    using s'(1) unfolding same .
  then have "tag_batch env now w (map (ordered_group (lc_turns s)) (g # gs)) s = (True, s')"
    using f(1) verify by (simp add: s1_def[symmetric] s2_def[symmetric])
  then show ?case using s' s2 by metis
qed simp

lemma eligible_taggable: "g \<in> set (eligible_groups turns) \<longleftrightarrow> g \<in> ct_group ` set turns \<and> taggable turns g"
  by (auto simp: eligible_groups_def)

lemma no_eligible: "eligible_groups turns = [] \<longleftrightarrow> \<not> has_taggable_group turns"
proof -
  have "eligible_groups turns = [] \<longleftrightarrow> set (eligible_groups turns) = {}" by simp
  also have "\<dots> \<longleftrightarrow> \<not> has_taggable_group turns"
    unfolding set_eq_iff eligible_taggable by (auto simp: has_taggable_group_def list_ex_iff)
  finally show ?thesis .
qed

lemma distinct_eligible: "distinct (eligible_groups turns)"
  by (simp add: eligible_groups_def)

lemma complete_ready:
  assumes "ready w s" "\<not> has_taggable_group (lc_turns s)"
  shows "complete_ingestion_episode now (wk_epoch w) (wk_id w) s
      = (True, s\<lparr>lc_episodes := map (\<lambda>x. if owned_episode (wk_epoch w) (wk_id w) s x
                    then x\<lparr>ep_state := EpisodeCompleted, ep_completed := Some now\<rparr> else x) (lc_episodes s)\<rparr>)"
  using assms by (simp add: complete_ingestion_episode_def update_episodes_def ready_def owns_episode_def)

definition drained :: "worker \<Rightarrow> lifecycle \<Rightarrow> bool" where
  "drained w s \<longleftrightarrow> \<not> has_taggable_group (lc_turns s) \<and> get_conversation_phase s = Inr Active
     \<and> (\<forall>x\<in>set (lc_episodes s). \<not> owned_episode (wk_epoch w) (wk_id w) s x)"

lemma finish_drained:
  assumes "ready w s" "\<not> has_taggable_group (lc_turns s)"
    "complete_ingestion_episode now (wk_epoch w) (wk_id w) s = (True, s1)"
  shows "\<exists>s'. set_phase (wk_epoch w) Active s1 = (True, s') \<and> drained w s'"
proof -
  obtain c where c: "lc_conversation s = Some c" "lf_epoch c = wk_epoch w"
    using assms(1) by (auto simp: ready_def live_at_def split: option.splits)
  have s1: "s1 = s\<lparr>lc_episodes := map (\<lambda>x. if owned_episode (wk_epoch w) (wk_id w) s x
                    then x\<lparr>ep_state := EpisodeCompleted, ep_completed := Some now\<rparr> else x) (lc_episodes s)\<rparr>"
    using complete_ready[OF assms(1,2), of now] assms(3) by simp
  show ?thesis
    using c assms(2)
    by (auto simp: s1 set_phase_def update_conversation_def drained_def get_conversation_phase_def owned_episode_def
        epoch_current_def)
qed

text \<open>When the worker owns the running episode of a live conversation, its epoch is current and
  nothing it calls fails, the tagger loop drains the whole queue: it returns success, no taggable
  group is left, the episode is completed and the conversation is active again.\<close>

lemma tagger_run_drains:
  assumes "ready w s" "env_succeeds env"
  shows "\<exists>s'. tagger_run env now w s = (True, s') \<and> drained w s'"
  using assms(1)
proof (induction "untagged s" arbitrary: s rule: less_induct)
  case less
  let ?batch = "iter_complete_untagged_canonical_groups (wk_epoch w) 32 s"
  have live: "live_at (wk_epoch w) s" using less.prems by (simp add: ready_def)
  note run = tagger_run.simps[of env now w s] live_verifies[OF live]
  show ?case
  proof (cases "?batch = []")
    case True
    then have none: "\<not> has_taggable_group (lc_turns s)" using live by (simp add: iter_empty_iff no_eligible)
    obtain s1 where s1: "complete_ingestion_episode now (wk_epoch w) (wk_id w) s = (True, s1)"
      using complete_ready[OF less.prems none] by blast
    then show ?thesis using finish_drained[OF less.prems none s1] True run by simp
  next
    case False
    define gs where "gs = take 32 (eligible_groups (lc_turns s))"
    have batch: "?batch = map (ordered_group (lc_turns s)) gs"
      using live by (simp add: iter_complete_untagged_canonical_groups_def gs_def)
    have "distinct gs" "\<forall>g\<in>set gs. taggable (lc_turns s) g"
      using distinct_eligible[of "lc_turns s"] by (auto simp: gs_def eligible_taggable dest!: in_set_takeD)
    then obtain s1 where s1: "tag_batch env now w ?batch s = (True, s1)" "ready w s1"
      unfolding batch using batch_succeeds[OF less.prems assms(2)] by blast
    then show ?thesis
      using less.hyps[OF batch_decreases[OF s1(1) False] s1(2)] False run by simp
  qed
qed

definition demo_turn :: "string \<Rightarrow> int \<Rightarrow> rat \<Rightarrow> string \<Rightarrow> string \<Rightarrow> turn" where
  "demo_turn i g k u a =
     \<lparr>ct_id = i, ct_group = g, ct_key = k, ct_hash = ''h'', ct_user = u, ct_assistant = a, ct_primary_tag = [],
      ct_tags = [], ct_session_date = [], ct_covered = 1, ct_tagged_at = None, ct_compacted_at = None,
      ct_operation = None\<rparr>"

definition demo_conversation :: "phase \<Rightarrow> conversation" where
  "demo_conversation ph =
     \<lparr>lf_tenant = ''t'', lf_epoch = 1, lf_phase = ph, lf_pending = 0, lf_last_raw = 0, lf_last_ingestible = 0,
      lf_deleted_at = None\<rparr>"

definition demo_ingesting :: "turn list \<Rightarrow> lifecycle" where
  "demo_ingesting turns =
     \<lparr>lc_generation = Some (0, False), lc_conversation = Some (demo_conversation Ingesting), lc_ops = [],
      lc_episodes = [new_episode ''e'' 1 ''w'' 1 0], lc_turns = turns, lc_derived = [], lc_handles = [],
      lc_foreign_ops = [], lc_foreign_episodes = []\<rparr>"

definition demo_env :: tagger_env where
  "demo_env = \<lparr>te_embed = (\<lambda>_. True), te_hash = (\<lambda>_ _. ''h''), te_stub = (\<lambda>_. False),
     te_generate = (\<lambda>_. Some \<lparr>tr_primary = ''p'', tr_tags = [''p'']\<rparr>), te_date = (\<lambda>_. [])\<rparr>"

abbreviation demo_worker :: worker where
  "demo_worker \<equiv> \<lparr>wk_id = ''w'', wk_epoch = 1, wk_op = None\<rparr>"

abbreviation demo_queue :: "turn list" where
  "demo_queue \<equiv> [demo_turn ''1'' 0 1000 ''hi'' [], demo_turn ''2'' 0 2000 [] ''yo'', demo_turn ''3'' 1 3000 ''more'' []]"

lemma demo_ready: "ready demo_worker (demo_ingesting demo_queue)"
  by code_simp

lemma demo_env_succeeds: "env_succeeds demo_env"
  by (simp add: env_succeeds_def demo_env_def)

section \<open>The shape on which it never finishes\<close>



end
