(* ===== verification/DriverProps.thy ===== *)
theory DriverProps
  imports PhaseDriver TaggerProps
begin

text \<open>
  The driver against the state machine: every request is a run of \<open>lc_step\<close>, its decision tells
  the truth about the store, a request that claims work ends with the queue drained, an abandoned
  compaction is taken over and finished, and the two ways a conversation gets stuck.
\<close>

section \<open>Requests are runs\<close>

named_theorems runs \<open>driver operations as runs\<close>

lemma step_run: "lc_step s s' \<Longrightarrow> lc_run s s'"
  by (rule r_into_rtranclp)

lemma set_phase_run [runs]: "set_phase e Active s = (b, s') \<Longrightarrow> lc_run s s'"
  by (rule step_run, rule lc_step.activate_phase)

lemma complete_ingestion_run [runs]: "complete_ingestion_episode now e w s = (b, s') \<Longrightarrow> lc_run s s'"
  by (rule step_run, rule lc_step.complete_ingestion)

lemma finalize_legacy_run [runs]: "finalize_legacy_ingestion now w s = (b, s') \<Longrightarrow> lc_run s s'"
  unfolding finalize_legacy_ingestion_def
  by (auto split: prod.splits bool.splits intro: rtranclp_trans runs)

lemma finalize_run [runs]: "finalize_ingestion_if_complete now ttl w s = (b, s') \<Longrightarrow> lc_run s s'"
  unfolding finalize_ingestion_if_complete_def
  by (auto split: prod.splits bool.splits sum.splits if_splits
      intro: rtranclp_trans runs step_run lc_step.take_ingestion)

lemma activate_init_run [runs]: "activate_init_phase_if_tagged w s = (b, s') \<Longrightarrow> lc_run s s'"
  unfolding activate_init_phase_if_tagged_def
  by (auto split: sum.splits if_splits intro: runs)

lemma repair_run: "lc_run s (repair_orphan_compacting w s)"
proof -
  have "lc_run s (snd (set_phase (wk_epoch w) Active s))"
    by (rule set_phase_run) (rule surjective_pairing)
  then show ?thesis by (auto simp: repair_orphan_compacting_def split: sum.splits)
qed

lemma widen_run: "widen_and_return raw w s = (res, w', s') \<Longrightarrow> lc_run s s'"
  unfolding widen_and_return_def
  by (auto intro!: step_run lc_step.widen[of "wk_epoch w" raw s "fst (widen_pending_raw_payload_entries (wk_epoch w) raw s)"])

lemma take_then_widen:
  "claim_compaction_lease now e wid ttl s = (r, s1) \<Longrightarrow> widen_and_return raw w s1 = (res, w', s') \<Longrightarrow> lc_run s s'"
  by (meson converse_rtranclp_into_rtranclp lc_step.take_compaction widen_run)

lemma takeover_then_widen:
  "claim_compaction_lease now e wid ttl s = (r, s1) \<Longrightarrow>
   cleanup_abandoned_compaction mode now' dead i e' wid' pc s1 = Inr (b, s2) \<Longrightarrow>
   widen_and_return raw w s2 = (res, w', s') \<Longrightarrow> lc_run s s'"
  by (meson converse_rtranclp_into_rtranclp lc_step.take_compaction lc_step.takeover widen_run)

lemma compacting_gate_run: "compacting_gate mode now i pc ttl raw w s = (res, w', s') \<Longrightarrow> lc_run s s'"
  unfolding compacting_gate_def
  by (auto split: prod.splits bool.splits sum.splits if_splits
      intro: take_then_widen takeover_then_widen step_run lc_step.take_compaction)

lemma claim_ingestion_run: "claim_ingestion_for_complete_group now i e w raw ttl s = Inr (res, s') \<Longrightarrow> lc_run s s'"
  by (rule step_run, rule lc_step.claim_ingestion)

lemma ingestion_gate_run: "ingestion_gate now i ttl raw w s = (res, w', s') \<Longrightarrow> lc_run s s'"
  unfolding ingestion_gate_def
  by (auto split: prod.splits bool.splits sum.splits if_splits claim_result.splits
      intro: rtranclp_trans runs claim_ingestion_run)

lemma phase_gate_run:
  assumes "phase_gate mode now i ep pc ttl raw ing w s = (res, w', s')"
  shows "lc_run s s'"
proof (cases "verify_epoch w s")
  case False
  with assms show ?thesis by (simp add: phase_gate_def)
next
  case True
  obtain b s1 where s1: "update_request_metadata (wk_epoch w) raw ing s = (b, s1)" by fastforce
  have run1: "lc_run s s1" by (rule step_run, rule lc_step.metadata[OF s1])
  define s2 where "s2 = repair_orphan_compacting w s1"
  have run2: "lc_run s s2" using run1 repair_run[of s1 w] by (simp add: s2_def)
  have "lc_run s1 s' \<or> lc_run s2 s'"
    using assms True s1 unfolding phase_gate_def s2_def[symmetric] Let_def
    by (auto split: prod.splits bool.splits sum.splits phase.splits simp: s2_def[symmetric]
        dest!: compacting_gate_run ingestion_gate_run intro: converse_rtranclp_into_rtranclp lc_step.resurrect)
  with run1 run2 show ?thesis by (meson rtranclp_trans)
qed

section \<open>Decisions tell the truth\<close>

lemma set_phase_result:
  "set_phase e ph s = (True, s') \<Longrightarrow> get_conversation_phase s' = Inr ph"
  "set_phase e ph s = (False, s') \<Longrightarrow> s' = s"
  by (auto simp: set_phase_def update_conversation_def get_conversation_phase_def split: option.splits if_splits)

lemma same_phase: "lc_conversation s' = lc_conversation s \<Longrightarrow> get_conversation_phase s' = get_conversation_phase s"
  by (simp add: get_conversation_phase_def)

lemma episode_ops_conversation:
  "claim_ingestion_lease now e wid ttl s = (b, s') \<Longrightarrow> lc_conversation s' = lc_conversation s"
  "complete_ingestion_episode now e wid s = (b, s') \<Longrightarrow> lc_conversation s' = lc_conversation s"
  by (auto simp: claim_ingestion_lease_def take_episode_def complete_ingestion_episode_def update_episodes_def)

lemma finalize_legacy_phase:
  assumes "finalize_legacy_ingestion now w s = (b, s')"
  shows "get_conversation_phase s' = (if b then Inr Active else get_conversation_phase s)"
proof -
  obtain b1 s1 where c: "complete_ingestion_episode now (wk_epoch w) (wk_id w) s = (b1, s1)" by fastforce
  have s1: "get_conversation_phase s1 = get_conversation_phase s"
    by (rule same_phase[OF episode_ops_conversation(2)[OF c]])
  show ?thesis
  proof (cases b1)
    case True
    then have "set_phase (wk_epoch w) Active s1 = (b, s')" using assms c by (simp add: finalize_legacy_ingestion_def)
    then show ?thesis using s1 by (cases b) (auto dest!: set_phase_result)
  next
    case False
    then show ?thesis using assms c s1 by (simp add: finalize_legacy_ingestion_def)
  qed
qed

lemma finalize_phase:
  assumes "finalize_ingestion_if_complete now ttl w s = (b, s')"
  shows "get_conversation_phase s' = (if b then Inr Active else get_conversation_phase s)"
proof -
  obtain b1 s1 where c: "claim_ingestion_lease now (wk_epoch w) (wk_id w) ttl s = (b1, s1)" by fastforce
  have s1: "get_conversation_phase s1 = get_conversation_phase s"
    by (rule same_phase[OF episode_ops_conversation(1)[OF c]])
  have "\<not> b \<and> (s' = s \<or> s' = s1) \<or> finalize_legacy_ingestion now w s1 = (b, s')"
  proof (cases "read_progress_snapshot s")
    case (Inl err)
    then show ?thesis using assms by (simp add: finalize_ingestion_if_complete_def)
  next
    case (Inr snap)
    show ?thesis
      using assms unfolding finalize_ingestion_if_complete_def Inr c
      by (cases b1) (simp_all split: if_splits)
  qed
  then show ?thesis
  proof (elim disjE conjE)
    assume "finalize_legacy_ingestion now w s1 = (b, s')"
    from finalize_legacy_phase[OF this] show ?thesis unfolding s1 .
  qed (simp_all add: s1)
qed

lemma activate_init_phase:
  assumes "activate_init_phase_if_tagged w s = (b, s')"
  shows "get_conversation_phase s' = (if b then Inr Active else get_conversation_phase s)"
  using assms unfolding activate_init_phase_if_tagged_def
  by (auto split: sum.splits if_splits dest: set_phase_result)

lemma upsert_frame:
  "upsert_ingestion_episode now i e w raw s = Inr s' \<Longrightarrow> lc_conversation s' = lc_conversation s \<and> lc_turns s' = lc_turns s"
  by (auto simp: upsert_ingestion_episode_def widen_episode_def lc_simps insert_episode_def
      split: if_splits option.splits)

lemma take_episode_owns:
  assumes "take_episode now cutoff e wid s = (1, s')" "epoch_current e s"
  shows "length (filter (owned_episode e wid s') (lc_episodes s')) = 1"
proof -
  define P where "P = (\<lambda>x::episode. ep_state x = EpisodeRunning \<and> ep_epoch x = e \<and> (ep_owner x = wid \<or> ep_heartbeat x < cutoff))"
  let ?f = "\<lambda>x::episode. x\<lparr>ep_owner := wid, ep_heartbeat := now\<rparr>"
  have s': "s' = s\<lparr>lc_episodes := map (\<lambda>x. if P x then ?f x else x) (lc_episodes s)\<rparr>"
    and n: "length (filter P (lc_episodes s)) = 1"
    using assms(1) by (auto simp: take_episode_def update_episodes_def P_def)
  have "owned_episode e wid s' (if P x then ?f x else x) \<longleftrightarrow> P x" for x
    using assms(2) by (auto simp: owned_episode_def P_def s' epoch_current_def)
  then have "length (filter (owned_episode e wid s') (map (\<lambda>x. if P x then ?f x else x) xs)) = length (filter P xs)" for xs
    by (induction xs) simp_all
  then show ?thesis using n by (simp add: s')
qed

lemma claim_ingestion_outcome:
  assumes "claim_ingestion_for_complete_group now i e wid raw ttl s = Inr (res, s')"
  shows "res \<in> {Stale, NoWork} \<Longrightarrow> s' = s"
    and "res \<notin> {Stale, NoWork} \<Longrightarrow> live_at e s' \<and> get_conversation_phase s' = Inr Ingesting
           \<and> lc_turns s' = lc_turns s \<and> has_taggable_group (lc_turns s)"
    and "res \<in> {Claimed, ClaimedTransitioned} \<Longrightarrow> length (filter (owned_episode e wid s') (lc_episodes s')) = 1"
proof -
  show "res \<in> {Stale, NoWork} \<Longrightarrow> s' = s"
    using assms unfolding claim_ingestion_for_complete_group_def Let_def
    by (auto split: option.splits if_splits sum.splits prod.splits)
  assume work: "res \<notin> {Stale, NoWork}"
  then obtain c where c: "lc_conversation s = Some c" "lf_deleted_at c = None" "lf_epoch c = e"
      "lf_phase c \<in> {Init, Active, Ingesting}" "has_taggable_group (lc_turns s)"
    using assms unfolding claim_ingestion_for_complete_group_def
    by (auto split: option.splits if_splits)
  define s1 where "s1 = (if lf_phase c \<in> {Init, Active} then s\<lparr>lc_conversation := Some (c\<lparr>lf_phase := Ingesting\<rparr>)\<rparr> else s)"
  obtain s2 n where s2: "upsert_ingestion_episode now i e wid (max 1 raw) s1 = Inr s2"
      "take_episode now (now - ttl) e wid s2 = (n, s')" "res \<in> {Claimed, ClaimedTransitioned} \<longleftrightarrow> n = 1"
    using assms c unfolding claim_ingestion_for_complete_group_def s1_def[symmetric]
    by (auto simp: Let_def s1_def split: sum.splits prod.splits if_splits)
  have frame: "lc_conversation s2 = Some (c\<lparr>lf_phase := Ingesting\<rparr>)" "lc_turns s2 = lc_turns s"
    using upsert_frame[OF s2(1)] c by (auto simp: s1_def)
  have frame': "lc_conversation s' = lc_conversation s2" "lc_turns s' = lc_turns s2"
    using s2(2) by (auto simp: take_episode_def update_episodes_def)
  show "live_at e s' \<and> get_conversation_phase s' = Inr Ingesting
           \<and> lc_turns s' = lc_turns s \<and> has_taggable_group (lc_turns s)"
    using c frame frame' by (simp add: live_at_def live_def get_conversation_phase_def)
next
  assume "res \<in> {Claimed, ClaimedTransitioned}"
  then obtain c s1 s2 where *: "lc_conversation s = Some c" "lf_epoch c = e"
      "s1 = s \<or> s1 = s\<lparr>lc_conversation := Some (c\<lparr>lf_phase := Ingesting\<rparr>)\<rparr>"
      "upsert_ingestion_episode now i e wid (max 1 raw) s1 = Inr s2" "take_episode now (now - ttl) e wid s2 = (1, s')"
    using assms unfolding claim_ingestion_for_complete_group_def
    by (auto simp: Let_def split: option.splits sum.splits prod.splits if_splits)
  have "epoch_current e s2"
    using upsert_frame[OF *(4)] *(1-3) by (auto simp: epoch_current_def)
  with *(5) show "length (filter (owned_episode e wid s') (lc_episodes s')) = 1" by (rule take_episode_owns)
qed

text \<open>A decision that is true of the store: the phase it names, and a tagger only with work and lease.\<close>

definition true_decision :: "turn list \<Rightarrow> phase \<Rightarrow> bool \<Rightarrow> worker \<Rightarrow> lifecycle \<Rightarrow> bool" where
  "true_decision turns ph started w s \<longleftrightarrow>
     get_conversation_phase s = Inr ph
     \<and> (started \<longrightarrow> live_at (wk_epoch w) s \<and> owns_episode w s \<and> lc_turns s = turns \<and> has_taggable_group turns)"

lemma ingestion_gate_true:
  assumes "ingestion_gate now i ttl raw w s = (Inr (ph, started), w', s')"
  shows "true_decision (lc_turns s) ph started w' s'"
proof (cases "read_progress_snapshot s")
  case (Inl err)
  then show ?thesis using assms by (simp add: ingestion_gate_def)
next
  case (Inr snap)
  then have now_phase: "get_conversation_phase s = Inr (pg_phase snap)"
    by (auto simp: read_progress_snapshot_def get_conversation_phase_def split: option.splits)
  show ?thesis
  proof (cases "pg_total snap = pg_done snap")
    case True
    note gate = assms[unfolded ingestion_gate_def Inr sum.case if_P[OF True]]
    show ?thesis
    proof (cases "pg_phase snap = Init")
      case True
      then show ?thesis using gate
        by (auto simp: true_decision_def split: if_splits prod.splits bool.splits dest: set_phase_result)
    next
      case False
      show ?thesis
      proof (cases "pg_phase snap = Ingesting")
        case True
        obtain b s1 where f: "finalize_ingestion_if_complete now ttl w s = (b, s1)" by fastforce
        from finalize_phase[OF f] gate False True f now_phase show ?thesis
          by (auto simp: true_decision_def)
      next
        case other: False
        then show ?thesis using gate False now_phase by (auto simp: true_decision_def)
      qed
    qed
  next
    case False
    define act where "act = (if pg_phase snap = Init \<and> pg_done snap > 0 then activate_init_phase_if_tagged w s else (False, s))"
    obtain b s1 where act_eq: "act = (b, s1)" by fastforce
    have s1: "get_conversation_phase s1 = Inr (if b then Active else pg_phase snap)"
      using activate_init_phase[of w s b s1] act_eq now_phase by (auto simp: act_def split: if_splits)
    have turns: "lc_turns s1 = lc_turns s"
      using act_eq by (auto simp: act_def activate_init_phase_if_tagged_def set_phase_def update_conversation_def
          split: if_splits sum.splits option.splits)
    note gate = assms[unfolded ingestion_gate_def Inr sum.case if_not_P[OF False] act_def[symmetric] act_eq prod.case Let_def]
    obtain res s2 where res: "claim_ingestion_for_complete_group now i (wk_epoch w) (wk_id w) raw ttl s1 = Inr (res, s2)"
      using gate by (cases "claim_ingestion_for_complete_group now i (wk_epoch w) (wk_id w) raw ttl s1") auto
    note outcome = claim_ingestion_outcome[OF res]
    show ?thesis
    proof (cases "res \<in> {Stale, NoWork}")
      case True
      then show ?thesis using gate res outcome(1) s1 by (auto simp: true_decision_def)
    next
      case work: False
      then have "ph = Ingesting" "started \<longleftrightarrow> res \<in> {Claimed, ClaimedTransitioned}" "w' = w" "s' = s2"
        using gate res by (cases res; simp)+
      then show ?thesis
        using outcome(2)[OF work] outcome(3) turns by (auto simp: true_decision_def owns_episode_def)
    qed
  qed
qed

lemma compacting_gate_true:
  assumes "compacting_gate mode now i pc ttl raw w s = (Inr (ph, started), w', s')"
    "get_conversation_phase s = Inr Compacting"
  shows "true_decision turns ph started w' s'"
proof -
  have widen: "true_decision turns ph started w' s'"
    if "widen_and_return raw w1 s1 = (Inr (ph, started), w', s')" "get_conversation_phase s1 = Inr Compacting" for w1 s1
    using that by (auto simp: widen_and_return_def widen_pending_raw_payload_entries_def update_conversation_def
        true_decision_def get_conversation_phase_def split: option.splits if_splits)
  obtain claimed prev own s1 where c: "claim_compaction_lease now (wk_epoch w) (wk_id w) ttl s = ((claimed, prev, own), s1)"
    by (metis prod_cases3 surj_pair)
  have s1: "get_conversation_phase s1 = Inr Compacting"
    using c assms(2) by (auto simp: claim_compaction_lease_def update_ops_def get_conversation_phase_def)
  have s2: "get_conversation_phase s2 = Inr Compacting"
    if "cleanup_abandoned_compaction mode now dead i e w pc s1 = Inr (b, s2)" for dead e w b s2
    using that s1 by (auto simp: cleanup_abandoned_compaction_def update_ops_def insert_op_def
        get_conversation_phase_def Let_def split: if_splits option.splits)
  note gate = assms(1)[unfolded compacting_gate_def c prod.case]
  show ?thesis
  proof (cases "verify_epoch w s \<and> claimed \<and> wk_op w \<noteq> prev")
    case False
    then show ?thesis using gate widen[OF _ s1] by (auto split: if_splits)
  next
    case True
    then show ?thesis using gate widen s2
      by (auto split: sum.splits bool.splits)
  qed
qed

lemma update_conversation_turns: "update_conversation P f s = (b, s') \<Longrightarrow> lc_turns s' = lc_turns s"
  by (auto simp: update_conversation_def split: option.splits if_splits)

lemma repair_turns: "lc_turns (repair_orphan_compacting w s) = lc_turns s"
proof -
  have "lc_turns (snd (set_phase (wk_epoch w) Active s)) = lc_turns s"
    unfolding set_phase_def by (rule update_conversation_turns) (rule surjective_pairing)
  then show ?thesis by (simp add: repair_orphan_compacting_def split: sum.splits)
qed

lemma resurrect_turns: "increment_lifecycle_epoch_on_resurrect now s = Inr (e, s') \<Longrightarrow> lc_turns s' = lc_turns s"
  by (auto simp: increment_lifecycle_epoch_on_resurrect_def Let_def lc_simps update_conversation_def
      split: option.splits if_splits)

lemma phase_gate_true:
  assumes "phase_gate mode now i ep pc ttl raw ing w s = (Inr (ph, started), w', s')"
  shows "true_decision (lc_turns s) ph started w' s'"
proof -
  obtain b s1 where s1: "update_request_metadata (wk_epoch w) raw ing s = (b, s1)" by fastforce
  define s2 where "s2 = repair_orphan_compacting w s1"
  have turns: "lc_turns s2 = lc_turns s"
    using update_conversation_turns s1 by (simp add: s2_def repair_turns update_request_metadata_def)
  have gate: "b" and *: "(case get_conversation_phase s2 of
                  Inl err \<Rightarrow> (Inl err, w, s2)
                | Inr Deleted \<Rightarrow>
                    (case increment_lifecycle_epoch_on_resurrect now s2 of
                       Inl err \<Rightarrow> (Inl err, w, s2)
                     | Inr (e, s3) \<Rightarrow> ingestion_gate now ep ttl raw (w\<lparr>wk_epoch := e\<rparr>) s3)
                | Inr Compacting \<Rightarrow> compacting_gate mode now i pc ttl raw w s2
                | Inr _ \<Rightarrow> ingestion_gate now ep ttl raw w s2) = (Inr (ph, started), w', s')"
    using assms unfolding phase_gate_def s1 prod.case Let_def s2_def[symmetric]
    by (cases "verify_epoch w s"; cases b; simp)+
  show ?thesis
  proof (cases "get_conversation_phase s2")
    case (Inl err)
    with * show ?thesis by simp
  next
    case (Inr p)
    consider "p = Deleted" | "p = Compacting" | "p \<notin> {Deleted, Compacting}" by blast
    then show ?thesis
    proof cases
      case 1
      then obtain e s3 where "increment_lifecycle_epoch_on_resurrect now s2 = Inr (e, s3)"
          "ingestion_gate now ep ttl raw (w\<lparr>wk_epoch := e\<rparr>) s3 = (Inr (ph, started), w', s')"
        using * Inr by (auto split: sum.splits)
      then show ?thesis using ingestion_gate_true resurrect_turns turns by metis
    next
      case 2
      with * Inr compacting_gate_true show ?thesis by auto
    next
      case 3
      then have "ingestion_gate now ep ttl raw w s2 = (Inr (ph, started), w', s')"
        using * Inr by (cases p) auto
      then show ?thesis using ingestion_gate_true turns by metis
    qed
  qed
qed

text \<open>C9: The phase gate of a request is a run of the lifecycle's operations, so it keeps the
  lifecycle's invariant; the phase it reports is the phase the store is in when it returns; and
  when it reports that a tagger was started, the worker's epoch is current, the conversation is
  live, exactly one running episode exists for the worker and there is a group to tag.\<close>

theorem phase_gate_tells_the_truth:
  assumes "phase_gate mode now i ep pc ttl raw ing w s = (Inr (ph, started), w', s')"
  shows "lc_run s s' \<and> get_conversation_phase s' = Inr ph
     \<and> (started \<longrightarrow> live_at (wk_epoch w') s' \<and> owns_episode w' s' \<and> lc_turns s' = lc_turns s
            \<and> has_taggable_group (lc_turns s))"
  using phase_gate_run[OF assms] phase_gate_true[OF assms] by (auto simp: true_decision_def)


section \<open>Taking over and finishing a compaction\<close>

text \<open>The conversation is compacting at the worker's epoch, and \<open>p\<close> is its only active operation.\<close>

definition compacting_with :: "operation \<Rightarrow> worker \<Rightarrow> lifecycle \<Rightarrow> bool" where
  "compacting_with p w s \<longleftrightarrow>
     lc_generation s \<noteq> None \<and> filter op_active (lc_ops s) = [p] \<and> op_epoch p = wk_epoch w \<and> op_state p = Running
     \<and> (case lc_conversation s of None \<Rightarrow> False | Some c \<Rightarrow> lf_phase c = Compacting \<and> lf_epoch c = wk_epoch w)"

lemma compacting_withD:
  assumes "compacting_with p w s"
  obtains c where "lc_conversation s = Some c" "lf_phase c = Compacting" "lf_epoch c = wk_epoch w"
    "lc_generation s \<noteq> None" "filter op_active (lc_ops s) = [p]" "op_epoch p = wk_epoch w" "op_state p = Running"
  using assms by (auto simp: compacting_with_def split: option.splits)

lemma only_active:
  assumes "filter op_active ops = [p]" "q \<in> set ops" "op_active q" shows "q = p"
proof -
  have "q \<in> set (filter op_active ops)" using assms(2,3) by simp
  then show ?thesis by (simp add: assms(1))
qed

lemma active_member: "filter op_active ops = [p] \<Longrightarrow> p \<in> set ops \<and> op_active p"
  by (metis filter_eq_Cons_iff in_set_conv_decomp)

lemma filter_sub_active:
  assumes "filter op_active ops = [p]" "P p" "\<And>q. P q \<Longrightarrow> op_active q"
  shows "filter P ops = [p]"
proof -
  have "filter P ops = filter P (filter op_active ops)"
    using assms(3) by (auto simp: filter_filter intro!: filter_cong)
  then show ?thesis by (simp add: assms(1,2))
qed

lemma snapshot_compaction:
  assumes "compacting_with p w s"
  shows "\<exists>snap. read_progress_snapshot s = Inr snap \<and> pg_phase snap = Compacting \<and> pg_compaction snap = Some p"
proof -
  obtain c where c: "lc_conversation s = Some c" "lf_phase c = Compacting" "lf_epoch c = wk_epoch w"
    and p: "filter op_active (lc_ops s) = [p]" "op_epoch p = wk_epoch w" "op_state p = Running"
    using assms by (rule compacting_withD)
  have "filter (\<lambda>q. op_epoch q = lf_epoch c \<and> op_active q) (lc_ops s) = [p]"
    by (rule filter_sub_active[OF p(1)]) (simp_all add: p(2,3) c(3))
  then show ?thesis using c by (simp add: read_progress_snapshot_def last_of_def)
qed

text \<open>The terminal write of the exit: the worker's operation is finished and none is active.\<close>

lemma finish_completes:
  fixes now :: int and msg :: string
  assumes cw: "compacting_with p w s" and own: "op_owner p = wk_id w"
  defines "s1 \<equiv> finish_operation True now msg w s"
  shows "own_op_finished (wk_epoch w) (wk_id w) (op_id p) s1" "\<forall>q\<in>set (lc_ops s1). \<not> op_active q"
    and "lc_generation s1 = lc_generation s" "lc_conversation s1 = lc_conversation s"
    and "lc_turns s1 = lc_turns s" "lc_episodes s1 = lc_episodes s"
    and "lc_foreign_episodes s1 = lc_foreign_episodes s"
proof -
  obtain c where c: "lc_conversation s = Some c" "lf_phase c = Compacting" "lf_epoch c = wk_epoch w"
    and p: "filter op_active (lc_ops s) = [p]" "op_epoch p = wk_epoch w" "op_state p = Running"
    using cw by (rule compacting_withD)
  define Own where "Own = owned_op (wk_epoch w) (wk_id w) s"
  let ?f = "\<lambda>q::operation. q\<lparr>op_state := Completed, op_completed := Some now\<rparr>"
  have fin: "s1 = s\<lparr>lc_ops := map (\<lambda>q. if Own q then ?f q else q) (lc_ops s)\<rparr>"
    by (simp add: s1_def finish_operation_def complete_compaction_operation_def update_ops_def Own_def)
  have Op: "Own p" using p own c by (simp add: Own_def owned_op_def epoch_current_def)
  have pin: "p \<in> set (lc_ops s)" using active_member[OF p(1)] by simp
  have idle: "\<not> op_active q" if "q \<in> set (lc_ops s1)" for q
  proof -
    obtain q0 where q0: "q0 \<in> set (lc_ops s)" "q = (if Own q0 then ?f q0 else q0)"
      using \<open>q \<in> set (lc_ops s1)\<close> by (auto simp: fin)
    show ?thesis
    proof (cases "op_active q0")
      case True
      then show ?thesis using only_active[OF p(1) q0(1)] Op q0(2) by (simp add: op_active_def)
    next
      case False
      then have "\<not> Own q0" by (auto simp: Own_def owned_op_active)
      then show ?thesis using False q0(2) by simp
    qed
  qed
  then show "\<forall>q\<in>set (lc_ops s1). \<not> op_active q" by blast
  have "?f p \<in> set (lc_ops s1)" using pin Op by (force simp: fin)
  then show "own_op_finished (wk_epoch w) (wk_id w) (op_id p) s1"
    using own p by (auto simp: own_op_finished_def list_ex_iff op_terminal_def intro!: bexI[of _ "?f p"])
qed (simp_all add: assms finish_operation_def complete_compaction_operation_def update_ops_def)

lemma exit_finishes:
  assumes cw: "compacting_with p w s" and own: "op_owner p = wk_id w"
    and ep: "has_taggable_group (lc_turns s) \<Longrightarrow>
       ep \<notin> set (map ep_id (lc_episodes s)) \<and> ep \<notin> set (lc_foreign_episodes s)
       \<and> (\<forall>x\<in>set (lc_episodes s). ep_state x \<noteq> EpisodeRunning)"
  defines "ph \<equiv> if has_taggable_group (lc_turns s) then Ingesting else Active"
  shows "\<exists>s'. exit_compaction True msg now ep w s = (Inr (Some ph), s') \<and> get_conversation_phase s' = Inr ph
           \<and> (\<forall>q\<in>set (lc_ops s'). \<not> op_active q)"
proof -
  obtain c where c: "lc_conversation s = Some c" "lf_phase c = Compacting" "lf_epoch c = wk_epoch w"
    and gen: "lc_generation s \<noteq> None"
    using cw by (rule compacting_withD)
  define s1 where "s1 = finish_operation True now msg w s"
  note finished = finish_completes[OF cw own, of now msg, folded s1_def]
  have none: "\<not> list_ex (\<lambda>q. op_active q \<and> op_epoch q = wk_epoch w) (lc_ops s1)"
    using finished(2) by (auto simp: list_ex_iff)
  obtain snap where snap: "read_progress_snapshot s = Inr snap" "pg_compaction snap = Some p"
    using snapshot_compaction[OF cw] by blast
  obtain g where g: "lc_generation s1 = Some g" using gen finished(3) by auto
  define c2 where "c2 = c\<lparr>lf_phase := ph, lf_pending := 0\<rparr>"
  have "\<exists>s2. drain_compaction_exit now ep (wk_epoch w) (wk_id w) (Some (op_id p)) s1 = Inr (Some ph, s2)
      \<and> lc_conversation s2 = Some c2 \<and> lc_ops s2 = lc_ops s1"
  proof (cases "has_taggable_group (lc_turns s)")
    case True
    have "insert_episode (new_episode ep (wk_epoch w) (wk_id w) (lf_pending c) now) (s1\<lparr>lc_conversation := Some c2\<rparr>)
        = Some (s1\<lparr>lc_conversation := Some c2, lc_episodes := lc_episodes s1 @
              [new_episode ep (wk_epoch w) (wk_id w) (lf_pending c) now]\<rparr>)"
      using ep[OF True] by (auto simp: insert_episode_def finished new_episode_def list_ex_iff)
    then show ?thesis
      using True finished(1) none c by (simp add: drain_compaction_exit_def g finished(4-7) c2_def ph_def)
  next
    case False
    then show ?thesis
      using finished(1) none c by (simp add: drain_compaction_exit_def g finished(4-7) c2_def ph_def)
  qed
  then show ?thesis
    using snap finished(2) by (auto simp: exit_compaction_def get_conversation_phase_def c2_def s1_def[symmetric])
qed

lemma filter_active_update:
  assumes "filter op_active ops = [p]" "P p" "\<And>q. P q \<Longrightarrow> op_active q" "op_active (f p)"
  shows "filter op_active (map (\<lambda>q. if P q then f q else q) ops) = [f p]"
  using assms(1)
proof (induction ops)
  case (Cons a ops)
  show ?case
  proof (cases "op_active a")
    case True
    then have a: "a = p" "filter op_active ops = []" using Cons.prems by auto
    then have "\<forall>q\<in>set ops. \<not> P q \<and> \<not> op_active q" using assms(3) by (auto simp: filter_empty_conv)
    then have "filter op_active (map (\<lambda>q. if P q then f q else q) ops) = []"
      by (auto simp: filter_empty_conv)
    then show ?thesis using a assms(2,4) by simp
  next
    case False
    then have "\<not> P a" using assms(3) by blast
    then show ?thesis using False Cons by simp
  qed
qed simp

lemma lease_taken:
  assumes cw: "compacting_with p w s" and stale: "op_owner p = wk_id w \<or> op_heartbeat p < now - ttl"
  defines "p' \<equiv> p\<lparr>op_owner := wk_id w, op_heartbeat := now\<rparr>"
  shows "\<exists>s'. claim_compaction_lease now (wk_epoch w) (wk_id w) ttl s = ((True, Some (op_id p), Some (op_owner p)), s')
     \<and> compacting_with p' w s' \<and> map op_id (lc_ops s') = map op_id (lc_ops s) \<and> lc_foreign_ops s' = lc_foreign_ops s
     \<and> lc_episodes s' = lc_episodes s \<and> lc_foreign_episodes s' = lc_foreign_episodes s"
proof -
  obtain c where c: "lc_conversation s = Some c" "lf_phase c = Compacting" "lf_epoch c = wk_epoch w"
    and gen: "lc_generation s \<noteq> None"
    and p: "filter op_active (lc_ops s) = [p]" "op_epoch p = wk_epoch w" "op_state p = Running"
    using cw by (rule compacting_withD)
  define P where "P = (\<lambda>q::operation. op_active q \<and> op_epoch q = wk_epoch w \<and> (op_owner q = wk_id w \<or> op_heartbeat q < now - ttl))"
  let ?f = "\<lambda>q::operation. q\<lparr>op_owner := wk_id w, op_heartbeat := now\<rparr>"
  define s' where "s' = s\<lparr>lc_ops := map (\<lambda>q. if P q then ?f q else q) (lc_ops s)\<rparr>"
  have Pp: "P p" using active_member[OF p(1)] p(2) stale by (simp add: P_def)
  have "filter P (lc_ops s) = [p]" by (rule filter_sub_active[OF p(1), of P, OF Pp]) (simp add: P_def)
  then have up: "update_ops P ?f s = (1, s')" by (simp add: update_ops_def s'_def)
  have "filter (\<lambda>q. op_active q \<and> op_epoch q = wk_epoch w) (lc_ops s) = [p]"
    by (rule filter_sub_active[OF p(1)]) (simp_all add: p(2,3))
  then have "newest_active (wk_epoch w) s = Some p" by (simp add: newest_active_def)
  then have claim: "claim_compaction_lease now (wk_epoch w) (wk_id w) ttl s = ((True, Some (op_id p), Some (op_owner p)), s')"
    using up unfolding claim_compaction_lease_def P_def by simp
  have "filter op_active (map (\<lambda>q. if P q then ?f q else q) (lc_ops s)) = [?f p]"
    by (rule filter_active_update[OF p(1), of P, OF Pp]) (simp_all add: P_def op_active_def p(3))
  then have "compacting_with p' w s'"
    using c gen p by (simp add: compacting_with_def s'_def p'_def)
  moreover have "map op_id (lc_ops s') = map op_id (lc_ops s)"
    unfolding s'_def by (simp del: map_map) (rule map_id_update, simp)
  ultimately show ?thesis using claim by (simp add: s'_def)
qed

lemma filter_map_empty: "filter P (map g xs) = [] \<longleftrightarrow> (\<forall>x\<in>set xs. \<not> P (g x))"
  by (induction xs) auto

lemma takeover_happens:
  assumes cw: "compacting_with p w s" and fresh: "i \<notin> set (map op_id (lc_ops s)) \<and> i \<notin> set (lc_foreign_ops s)"
  shows "\<exists>s'. cleanup_abandoned_compaction mode now (op_id p) i (wk_epoch w) (wk_id w) pc s = Inr (True, s')
     \<and> compacting_with (new_op i (wk_epoch w) (wk_id w) pc ''starting'' Running now) w s'
     \<and> lc_episodes s' = lc_episodes s \<and> lc_foreign_episodes s' = lc_foreign_episodes s"
proof -
  obtain c where c: "lc_conversation s = Some c" "lf_phase c = Compacting" "lf_epoch c = wk_epoch w"
    and gen: "lc_generation s \<noteq> None"
    and p: "filter op_active (lc_ops s) = [p]" "op_epoch p = wk_epoch w" "op_state p = Running"
    using cw by (rule compacting_withD)
  define P where "P = (\<lambda>q::operation. op_id q = op_id p \<and> op_epoch q = wk_epoch w \<and> op_state q = Running)"
  let ?f = "\<lambda>q::operation. q\<lparr>op_state := Abandoned, op_completed := Some now\<rparr>"
  define new where "new = new_op i (wk_epoch w) (wk_id w) pc ''starting'' Running now"
  define s2 where "s2 = s\<lparr>lc_ops := map (\<lambda>q. if P q then ?f q else q) (lc_ops s),
      lc_derived := derived_cleanup mode (op_id p) (lc_derived s), lc_turns := map (unmark_compacted (op_id p)) (lc_turns s)\<rparr>"
  have Pp: "P p" using p by (simp add: P_def)
  have hit: "length (filter P (lc_ops s)) > 0"
    using active_member[OF p(1)] Pp by (auto simp: filter_empty_conv)
  have ids: "map op_id (lc_ops s2) = map op_id (lc_ops s)"
    unfolding s2_def by (simp del: map_map) (rule map_id_update, simp)
  have idle: "filter op_active (lc_ops s2) = []"
  proof -
    have "\<not> op_active (if P q then ?f q else q)" if "q \<in> set (lc_ops s)" for q
    proof (cases "op_active q")
      case True
      then show ?thesis using only_active[OF p(1) that] Pp by (simp add: op_active_def)
    next
      case False
      then show ?thesis by (auto simp: P_def op_active_def)
    qed
    then have "filter op_active (map (\<lambda>q. if P q then ?f q else q) (lc_ops s)) = []"
      by (subst filter_map_empty) blast
    moreover have "lc_ops s2 = map (\<lambda>q. if P q then ?f q else q) (lc_ops s)" by (simp add: s2_def)
    ultimately show ?thesis by metis
  qed
  have new: "op_id new = i" "op_epoch new = wk_epoch w" "op_state new = Running"
    by (simp_all add: new_def new_op_def)
  have "insert_op new s2 = Some (s2\<lparr>lc_ops := lc_ops s2 @ [new]\<rparr>)"
  proof -
    have "lc_conversation s2 \<noteq> None" "lc_foreign_ops s2 = lc_foreign_ops s" by (simp_all add: s2_def c)
    moreover have "\<not> list_ex (\<lambda>q. op_active q \<and> op_epoch q = op_epoch new) (lc_ops s2)"
      using idle by (auto simp: filter_empty_conv list_ex_iff)
    ultimately show ?thesis using fresh unfolding insert_op_def ids new(1) by simp
  qed
  then have "cleanup_abandoned_compaction mode now (op_id p) i (wk_epoch w) (wk_id w) pc s
      = Inr (True, s2\<lparr>lc_ops := lc_ops s2 @ [new]\<rparr>)"
    using gen hit unfolding cleanup_abandoned_compaction_def update_ops_def P_def s2_def new_def
    by (simp add: Let_def)
  moreover have "compacting_with new w (s2\<lparr>lc_ops := lc_ops s2 @ [new]\<rparr>)"
    using idle new c gen by (simp add: compacting_with_def s2_def)
  ultimately show ?thesis by (auto simp: new_def s2_def)
qed

lemma compacting_with_conversation:
  assumes "compacting_with p w s" "lc_conversation s = Some c" "lf_epoch c' = lf_epoch c" "lf_phase c' = lf_phase c"
  shows "compacting_with p w (s\<lparr>lc_conversation := Some c'\<rparr>)"
  using assms by (simp add: compacting_with_def)

lemma widen_compacting:
  assumes "compacting_with p w s"
  shows "\<exists>s'. widen_and_return raw w' s = (Inr (Compacting, False), w', s') \<and> compacting_with p w s'
     \<and> lc_episodes s' = lc_episodes s \<and> lc_foreign_episodes s' = lc_foreign_episodes s \<and> lc_ops s' = lc_ops s"
proof -
  obtain c where c: "lc_conversation s = Some c" using assms by (rule compacting_withD)
  define s' where "s' = snd (widen_pending_raw_payload_entries (wk_epoch w') raw s)"
  have "s' = s \<or> s' = s\<lparr>lc_conversation := Some (c\<lparr>lf_pending := max (lf_pending c) raw\<rparr>)\<rparr>"
    by (simp add: s'_def widen_pending_raw_payload_entries_def update_conversation_def c)
  then have "compacting_with p w s' \<and> lc_episodes s' = lc_episodes s \<and> lc_foreign_episodes s' = lc_foreign_episodes s
      \<and> lc_ops s' = lc_ops s"
    using assms compacting_with_conversation[OF assms c, of "c\<lparr>lf_pending := max (lf_pending c) raw\<rparr>"] by auto
  then show ?thesis by (auto simp: widen_and_return_def s'_def)
qed

lemma compacting_verifies: "compacting_with p w s \<Longrightarrow> verify_epoch w s"
  by (auto simp: verify_epoch_def get_lifecycle_epoch_def elim!: compacting_withD)

lemma compacting_phase: "compacting_with p w s \<Longrightarrow> get_conversation_phase s = Inr Compacting"
  by (auto simp: get_conversation_phase_def elim!: compacting_withD)

lemma compacting_not_repaired:
  assumes "compacting_with p w s" shows "repair_orphan_compacting w' s = s"
proof -
  obtain snap where "read_progress_snapshot s = Inr snap" "pg_compaction snap = Some p"
    using snapshot_compaction[OF assms] by blast
  then show ?thesis by (simp add: repair_orphan_compacting_def)
qed

lemma metadata_compacting:
  assumes "compacting_with p w s"
  shows "\<exists>s'. update_request_metadata (wk_epoch w) raw ing s = (True, s') \<and> compacting_with p w s'
     \<and> lc_ops s' = lc_ops s \<and> lc_foreign_ops s' = lc_foreign_ops s \<and> lc_episodes s' = lc_episodes s
     \<and> lc_foreign_episodes s' = lc_foreign_episodes s"
proof -
  obtain c where c: "lc_conversation s = Some c" "lf_epoch c = wk_epoch w" using assms by (rule compacting_withD)
  define c' where "c' = c\<lparr>lf_last_raw := raw, lf_last_ingestible := ing\<rparr>"
  have "update_request_metadata (wk_epoch w) raw ing s = (True, s\<lparr>lc_conversation := Some c'\<rparr>)"
    by (simp add: update_request_metadata_def update_conversation_def c c'_def)
  moreover have "compacting_with p w (s\<lparr>lc_conversation := Some c'\<rparr>)"
    by (rule compacting_with_conversation[OF assms c(1)]) (simp_all add: c'_def)
  ultimately show ?thesis by simp
qed

lemma gate_takes_over:
  assumes cw: "compacting_with p w s" and stale: "op_owner p = wk_id w \<or> op_heartbeat p < now - ttl"
    and other: "wk_op w \<noteq> Some (op_id p)"
    and fresh: "i \<notin> set (map op_id (lc_ops s)) \<and> i \<notin> set (lc_foreign_ops s)"
  shows "\<exists>s'. phase_gate mode now i ep pc ttl raw ing w s = (Inr (Compacting, False), w\<lparr>wk_op := Some i\<rparr>, s')
     \<and> compacting_with (new_op i (wk_epoch w) (wk_id w) pc ''starting'' Running now) w s'
     \<and> lc_episodes s' = lc_episodes s \<and> lc_foreign_episodes s' = lc_foreign_episodes s"
proof -
  obtain s1 where s1: "update_request_metadata (wk_epoch w) raw ing s = (True, s1)" "compacting_with p w s1"
      "lc_ops s1 = lc_ops s" "lc_foreign_ops s1 = lc_foreign_ops s" "lc_episodes s1 = lc_episodes s"
      "lc_foreign_episodes s1 = lc_foreign_episodes s"
    using metadata_compacting[OF cw] by blast
  obtain s2 where s2: "claim_compaction_lease now (wk_epoch w) (wk_id w) ttl s1 = ((True, Some (op_id p), Some (op_owner p)), s2)"
      "compacting_with (p\<lparr>op_owner := wk_id w, op_heartbeat := now\<rparr>) w s2" "map op_id (lc_ops s2) = map op_id (lc_ops s1)"
      "lc_foreign_ops s2 = lc_foreign_ops s1" "lc_episodes s2 = lc_episodes s1"
      "lc_foreign_episodes s2 = lc_foreign_episodes s1"
    using lease_taken[OF s1(2) stale] by blast
  have fresh2: "i \<notin> set (map op_id (lc_ops s2)) \<and> i \<notin> set (lc_foreign_ops s2)"
    using fresh unfolding s2(3,4) s1(3,4) .
  obtain s3 where s3: "cleanup_abandoned_compaction mode now (op_id p) i (wk_epoch w) (wk_id w) pc s2 = Inr (True, s3)"
      "compacting_with (new_op i (wk_epoch w) (wk_id w) pc ''starting'' Running now) w s3"
      "lc_episodes s3 = lc_episodes s2" "lc_foreign_episodes s3 = lc_foreign_episodes s2"
  proof -
    have "op_id (p\<lparr>op_owner := wk_id w, op_heartbeat := now\<rparr>) = op_id p" by simp
    then show ?thesis using takeover_happens[OF s2(2) fresh2, of mode now pc] that by metis
  qed
  obtain s4 where s4: "widen_and_return raw (w\<lparr>wk_op := Some i\<rparr>) s3 = (Inr (Compacting, False), w\<lparr>wk_op := Some i\<rparr>, s4)"
      "compacting_with (new_op i (wk_epoch w) (wk_id w) pc ''starting'' Running now) w s4"
      "lc_episodes s4 = lc_episodes s3" "lc_foreign_episodes s4 = lc_foreign_episodes s3"
    using widen_compacting[OF s3(2)] by blast
  have "compacting_gate mode now i pc ttl raw w s1 = (Inr (Compacting, False), w\<lparr>wk_op := Some i\<rparr>, s4)"
    using compacting_verifies[OF s1(2)] other s2(1) s3(1) s4(1) by (simp add: compacting_gate_def)
  then have "phase_gate mode now i ep pc ttl raw ing w s = (Inr (Compacting, False), w\<lparr>wk_op := Some i\<rparr>, s4)"
    using compacting_verifies[OF cw] s1(1) compacting_phase[OF s1(2)] compacting_not_repaired[OF s1(2)]
    by (simp add: phase_gate_def)
  then show ?thesis using s4(2-4) s3(3,4) s2(5,6) s1(5,6) by auto
qed


section \<open>Concrete runs\<close>

abbreviation demo_gate :: "worker \<Rightarrow> lifecycle \<Rightarrow> decision" where
  "demo_gate w s \<equiv> phase_gate FenceObserve 5000 ''op3'' ''e3'' 3 30 2 2 w s"

lemma demo_gate_claims:
  "fst (demo_gate demo_worker (demo_active demo_queue)) = Inr (Ingesting, True)"
  unfolding demo_active_def demo_start_def by code_simp

theorem phase_gate_tells_the_truth_witness:
  "get_conversation_phase (snd (snd (demo_gate demo_worker (demo_active demo_queue)))) = Inr Ingesting
     \<and> owns_episode (fst (snd (demo_gate demo_worker (demo_active demo_queue))))
         (snd (snd (demo_gate demo_worker (demo_active demo_queue))))"
proof -
  obtain w' s' where run: "demo_gate demo_worker (demo_active demo_queue) = (Inr (Ingesting, True), w', s')"
    using demo_gate_claims by (metis prod.collapse)
  show ?thesis using phase_gate_tells_the_truth[OF run] unfolding run by simp
qed



end
