(* ===== verification/DriverFaults.thy ===== *)
theory DriverFaults
  imports DriverProps
begin

text \<open>
  States the driver does not recover from: a deletion that overlaps the end of an ingestion, a
  worker that dies between the two writes that end an ingestion, and a compaction that began
  while an ingestion episode was open.
\<close>

section \<open>Snapshots\<close>

lemma snapshot_cong:
  assumes "lc_conversation s = Some c"
  shows "\<exists>snap. read_progress_snapshot s = Inr snap \<and> pg_phase snap = lf_phase c
     \<and> pg_total snap = sum_list (map ct_covered (lc_turns s))
     \<and> pg_done snap = sum_list (map (\<lambda>t. if ct_tagged_at t \<noteq> None then ct_covered t else 0) (lc_turns s))"
  using assms by (simp add: read_progress_snapshot_def)

lemma all_tagged_sum:
  assumes "\<forall>t\<in>set ts. ct_tagged_at t \<noteq> None"
  shows "map (\<lambda>t. if ct_tagged_at t \<noteq> None then ct_covered t else 0) ts = map ct_covered ts"
  using assms by simp

lemma some_untagged_sum:
  assumes "\<forall>t\<in>set ts. ct_covered t > 0" "\<exists>t\<in>set ts. ct_tagged_at t = None"
  shows "sum_list (map (\<lambda>t. if ct_tagged_at t \<noteq> None then ct_covered t else 0) ts) < sum_list (map ct_covered ts)"
proof -
  let ?d = "\<lambda>t. if ct_tagged_at t \<noteq> None then ct_covered t else 0"
  have le: "sum_list (map ?d xs) \<le> sum_list (map ct_covered xs)" if "\<forall>t\<in>set xs. ct_covered t > 0" for xs
    using that by (intro sum_list_mono) auto
  obtain t where t: "t \<in> set ts" "ct_tagged_at t = None" using assms(2) by blast
  obtain as bs where ts: "ts = as @ t # bs" using t(1) by (meson split_list)
  have "ct_covered t > 0" using assms(1) t(1) by blast
  moreover have "sum_list (map ?d as) \<le> sum_list (map ct_covered as)"
    "sum_list (map ?d bs) \<le> sum_list (map ct_covered bs)"
    using assms(1) by (simp_all add: ts le del: not_None_eq)
  ultimately show ?thesis using t(2) by (simp add: ts)
qed

text \<open>The gate up to the phase read, when the conversation is not compacting.\<close>

lemma gate_reaches_ingestion:
  fixes raw ing :: int
  assumes c: "lc_conversation s = Some c" "lf_epoch c = wk_epoch w" and ph: "lf_phase c \<notin> {Compacting, Deleted}"
  defines "s1 \<equiv> s\<lparr>lc_conversation := Some (c\<lparr>lf_last_raw := raw, lf_last_ingestible := ing\<rparr>)\<rparr>"
  shows "phase_gate mode now i ep pc ttl raw ing w s = ingestion_gate now ep ttl raw w s1"
proof -
  have meta: "update_request_metadata (wk_epoch w) raw ing s = (True, s1)"
    using c by (simp add: update_request_metadata_def update_conversation_def s1_def)
  have ok: "verify_epoch w s" using c by (simp add: verify_epoch_def get_lifecycle_epoch_def)
  have rep: "repair_orphan_compacting w s1 = s1"
    using ph by (simp add: repair_orphan_compacting_def read_progress_snapshot_def s1_def)
  have "get_conversation_phase s1 = Inr (lf_phase c)" by (simp add: get_conversation_phase_def s1_def)
  then show ?thesis
    using ph ok meta rep by (cases "lf_phase c") (simp_all add: phase_gate_def)
qed

section \<open>A worker that dies between two writes\<close>

text \<open>The episode and the phase are written one after the other.  If the worker dies in between,
  everything is tagged, no episode runs, and the phase still says ingesting: from then on every
  request reports ingesting and starts no tagger, whatever its worker, because the self-healing
  step first asks for the lease of a running episode.  The state it leaves is stuck in the same way.\<close>

theorem closed_episode_pins_ingesting:
  assumes "lc_conversation s = Some c" "lf_epoch c = wk_epoch w" "lf_phase c = Ingesting"
    and "\<forall>t\<in>set (lc_turns s). ct_tagged_at t \<noteq> None"
    and "\<forall>x\<in>set (lc_episodes s). ep_state x \<noteq> EpisodeRunning"
  shows "\<exists>s'. phase_gate mode now i ep pc ttl raw ing w s = (Inr (Ingesting, False), w, s')
     \<and> get_conversation_phase s' = Inr Ingesting \<and> lc_turns s' = lc_turns s \<and> lc_episodes s' = lc_episodes s"
proof -
  define s1 where "s1 = s\<lparr>lc_conversation := Some (c\<lparr>lf_last_raw := raw, lf_last_ingestible := ing\<rparr>)\<rparr>"
  have gate: "phase_gate mode now i ep pc ttl raw ing w s = ingestion_gate now ep ttl raw w s1"
    unfolding s1_def by (rule gate_reaches_ingestion) (simp_all add: assms(1-3))
  have c1: "lc_conversation s1 = Some (c\<lparr>lf_last_raw := raw, lf_last_ingestible := ing\<rparr>)" by (simp add: s1_def)
  have same: "lc_turns s1 = lc_turns s" "lc_episodes s1 = lc_episodes s" by (simp_all add: s1_def)
  obtain snap where snap: "read_progress_snapshot s1 = Inr snap" "pg_phase snap = Ingesting"
      "pg_total snap = pg_done snap"
    using snapshot_cong[OF c1] assms(3) unfolding same all_tagged_sum[OF assms(4)] by auto
  have "update_episodes (\<lambda>x. ep_state x = EpisodeRunning \<and> ep_epoch x = wk_epoch w
            \<and> (ep_owner x = wk_id w \<or> ep_heartbeat x < now - ttl))
          (\<lambda>x. x\<lparr>ep_owner := wk_id w, ep_heartbeat := now\<rparr>) s1 = (0, s1)"
    using assms(5) by (simp add: update_episodes_def same filter_empty_conv map_idI)
  then have "claim_ingestion_lease now (wk_epoch w) (wk_id w) ttl s1 = (False, s1)"
    by (simp add: claim_ingestion_lease_def take_episode_def)
  then have "finalize_ingestion_if_complete now ttl w s1 = (False, s1)"
    using snap by (simp add: finalize_ingestion_if_complete_def)
  then have "ingestion_gate now ep ttl raw w s1 = (Inr (Ingesting, False), w, s1)"
    using snap by (simp add: ingestion_gate_def)
  moreover have "get_conversation_phase s1 = Inr Ingesting" using c1 assms(3) by (simp add: get_conversation_phase_def)
  ultimately show ?thesis using gate same by simp
qed

section \<open>A deletion that overlaps the end of an ingestion\<close>

text \<open>The write that ends an ingestion checks the epoch but not the deletion.  When a deletion
  falls between the two writes, the conversation is active again with its deletion stamp set:
  no resurrection clears it, nothing can attach to it, and every request with untagged entries
  is refused as if its epoch were stale, although the epoch check it is told to repeat succeeds.\<close>

theorem deleted_conversation_zombie:
  assumes "lc_conversation s = Some c" "lf_epoch c = wk_epoch w"
    and "\<forall>t\<in>set (lc_turns s). ct_covered t > 0" "\<exists>t\<in>set (lc_turns s). ct_tagged_at t = None"
    and "mark_conversation_deleted now s = Inr s1" "set_phase (wk_epoch w) Active s1 = (ok, s2)"
  shows "ok \<and> verify_epoch w s2 \<and> \<not> is_attachable_target None s2
     \<and> (\<exists>s3. increment_lifecycle_epoch_on_resurrect now' s2 = Inr (wk_epoch w, s3)
          \<and> lc_conversation s3 = lc_conversation s2)
     \<and> fst (phase_gate mode now' i ep pc ttl raw ing w s2) = Inl EpochMismatch"
proof -
  define c2 where "c2 = c\<lparr>lf_phase := Active, lf_deleted_at := Some now\<rparr>"
  have s1: "lc_conversation s1 = Some (c\<lparr>lf_phase := Deleted, lf_deleted_at := Some now\<rparr>)" "lc_turns s1 = lc_turns s"
    using assms(1,5) by (auto simp: mark_conversation_deleted_def update_conversation_def update_episodes_def
        update_ops_def Let_def)
  have s2: "ok" "lc_conversation s2 = Some c2" "lc_turns s2 = lc_turns s"
    using assms(2,6) s1 by (auto simp: set_phase_def update_conversation_def c2_def)
  have epoch: "lf_epoch c2 = wk_epoch w" by (simp add: c2_def assms(2))
  have ver: "verify_epoch w s2" by (simp add: verify_epoch_def get_lifecycle_epoch_def s2 epoch)
  have att: "\<not> is_attachable_target None s2" by (simp add: is_attachable_target_def s2 live_def c2_def)
  have res: "\<exists>s3. increment_lifecycle_epoch_on_resurrect now' s2 = Inr (wk_epoch w, s3)
          \<and> lc_conversation s3 = lc_conversation s2"
    by (simp add: increment_lifecycle_epoch_on_resurrect_def update_conversation_def update_episodes_def
        update_ops_def s2 epoch) (simp add: c2_def)
  define s4 where "s4 = s2\<lparr>lc_conversation := Some (c2\<lparr>lf_last_raw := raw, lf_last_ingestible := ing\<rparr>)\<rparr>"
  have gate: "phase_gate mode now' i ep pc ttl raw ing w s2 = ingestion_gate now' ep ttl raw w s4"
    unfolding s4_def by (rule gate_reaches_ingestion) (simp_all add: s2 epoch c2_def assms(2))
  have c4: "lc_conversation s4 = Some (c2\<lparr>lf_last_raw := raw, lf_last_ingestible := ing\<rparr>)"
    and t4: "lc_turns s4 = lc_turns s" by (simp_all add: s4_def s2)
  obtain snap where snap: "read_progress_snapshot s4 = Inr snap" "pg_phase snap = Active"
      "pg_total snap \<noteq> pg_done snap"
    using snapshot_cong[OF c4] some_untagged_sum[OF assms(3,4)] unfolding t4 by (auto simp: c2_def)
  have "claim_ingestion_for_complete_group now' ep (wk_epoch w) (wk_id w) raw ttl s4 = Inr (Stale, s4)"
    by (simp add: claim_ingestion_for_complete_group_def c4 c2_def)
  then have "fst (ingestion_gate now' ep ttl raw w s4) = Inl EpochMismatch"
    using snap by (simp add: ingestion_gate_def)
  then show ?thesis using s2(1) ver att res gate by simp
qed

section \<open>A compaction that began during an ingestion\<close>

text \<open>A compaction may begin while an ingestion episode is running, and leaves it running.  If
  its exit then finds work to tag, it opens a second episode, which the unique index refuses: the
  exit raises, although its contract says it does not, and the conversation is left compacting
  with no active operation.\<close>

theorem exit_conflicts_with_open_episode:
  assumes "compacting_with p w s" "op_owner p = wk_id w" "has_taggable_group (lc_turns s)"
    and "x \<in> set (lc_episodes s)" "ep_state x = EpisodeRunning"
    and "ep_epoch x = wk_epoch w"
  shows "\<exists>s'. exit_compaction True msg now ep w s = (Inl IntegrityError, s')
     \<and> get_conversation_phase s' = Inr Compacting \<and> (\<forall>q\<in>set (lc_ops s'). \<not> op_active q)"
proof -
  obtain c where c: "lc_conversation s = Some c" "lf_phase c = Compacting" "lf_epoch c = wk_epoch w"
    and gen: "lc_generation s \<noteq> None"
    and p: "filter op_active (lc_ops s) = [p]" "op_epoch p = wk_epoch w" "op_state p = Running"
    using assms(1) by (rule compacting_withD)
  define s1 where "s1 = finish_operation True now msg w s"
  note finished = finish_completes[OF assms(1,2), of now msg, folded s1_def]
  obtain snap where snap: "read_progress_snapshot s = Inr snap" "pg_compaction snap = Some p"
    using snapshot_compaction[OF assms(1)] by blast
  have open_one: "list_ex (\<lambda>y. ep_state y = EpisodeRunning \<and> ep_epoch y = wk_epoch w) (lc_episodes s)"
    using assms(4-6) by (auto simp: list_ex_iff)
  have "drain_compaction_exit now ep (wk_epoch w) (wk_id w) (Some (op_id p)) s1 = Inl IntegrityError"
  proof -
    have "insert_episode (new_episode ep (wk_epoch w) (wk_id w) (lf_pending c) now)
        (s1\<lparr>lc_conversation := Some (c\<lparr>lf_phase := Ingesting, lf_pending := 0\<rparr>)\<rparr>) = None"
      using open_one by (simp add: insert_episode_def new_episode_def finished(3-7))
    moreover have "\<not> list_ex (\<lambda>q. op_active q \<and> op_epoch q = wk_epoch w) (lc_ops s1)"
      using finished(2) by (auto simp: list_ex_iff)
    ultimately show ?thesis
      using gen c finished(1) assms(3) by (auto simp: drain_compaction_exit_def finished(3-7))
  qed
  then have "exit_compaction True msg now ep w s = (Inl IntegrityError, s1)"
    using snap by (simp add: exit_compaction_def s1_def[symmetric])
  moreover have "get_conversation_phase s1 = Inr Compacting" using c by (simp add: get_conversation_phase_def finished(4))
  ultimately show ?thesis using finished(2) by blast
qed

section \<open>Concrete runs\<close>

abbreviation tagged_turn :: turn where
  "tagged_turn \<equiv> demo_turn ''1'' 0 1000 ''hi'' ''yo''\<lparr>ct_tagged_at := Some 1\<rparr>"

definition demo_closed :: lifecycle where
  "demo_closed = snd (complete_ingestion_episode 5 1 ''w'' (demo_ingesting [tagged_turn]))"

theorem closed_episode_pins_ingesting_witness:
  "\<exists>s'. demo_gate demo_worker demo_closed = (Inr (Ingesting, False), demo_worker, s')
     \<and> get_conversation_phase s' = Inr Ingesting"
proof -
  have c: "lc_conversation demo_closed = Some (demo_conversation Ingesting)"
    unfolding demo_closed_def by (simp add: demo_ingesting_def)
  have "\<forall>t\<in>set (lc_turns demo_closed). ct_tagged_at t \<noteq> None"
    unfolding demo_closed_def by (simp add: demo_ingesting_def)
  moreover have "\<forall>x\<in>set (lc_episodes demo_closed). ep_state x \<noteq> EpisodeRunning"
    unfolding demo_closed_def by code_simp
  moreover have "lf_epoch (demo_conversation Ingesting) = wk_epoch demo_worker"
    "lf_phase (demo_conversation Ingesting) = Ingesting" by (simp_all add: demo_conversation_def)
  ultimately show ?thesis using closed_episode_pins_ingesting[OF c] by blast
qed

theorem deleted_conversation_zombie_witness:
  "\<exists>s1 s2. mark_conversation_deleted 4 (demo_ingesting demo_queue) = Inr s1 \<and> set_phase 1 Active s1 = (True, s2)
     \<and> \<not> is_attachable_target None s2 \<and> fst (demo_gate demo_worker s2) = Inl EpochMismatch"
proof -
  have c: "lc_conversation (demo_ingesting demo_queue) = Some (demo_conversation Ingesting)"
    by (simp add: demo_ingesting_def)
  obtain s1 where s1: "mark_conversation_deleted 4 (demo_ingesting demo_queue) = Inr s1"
    using c by (simp add: mark_conversation_deleted_def update_conversation_def)
  obtain ok s2 where s2: "set_phase (wk_epoch demo_worker) Active s1 = (ok, s2)" by fastforce
  have "\<forall>t\<in>set (lc_turns (demo_ingesting demo_queue)). ct_covered t > 0"
    "\<exists>t\<in>set (lc_turns (demo_ingesting demo_queue)). ct_tagged_at t = None"
    by (simp_all add: demo_ingesting_def demo_turn_def)
  note zombie = deleted_conversation_zombie[OF c _ this s1 s2]
  have "lf_epoch (demo_conversation Ingesting) = wk_epoch demo_worker" by (simp add: demo_conversation_def)
  from zombie[OF this] show ?thesis using s1 s2 by auto
qed

definition demo_overlap :: lifecycle where
  "demo_overlap =
     snd (begin_compaction_with_lock (\<lambda>_. True) None 10 1 ''w'' ''op'' 3 ''starting'' (demo_ingesting demo_queue))"

theorem exit_conflicts_with_open_episode_witness:
  "\<exists>s'. exit_compaction True ''done'' 20 ''e2'' demo_worker demo_overlap = (Inl IntegrityError, s')
     \<and> get_conversation_phase s' = Inr Compacting"
proof -
  define p where "p = new_op ''op'' 1 ''w'' 3 ''starting'' Running 10"
  have cw: "compacting_with p demo_worker demo_overlap"
    unfolding p_def demo_overlap_def by code_simp
  have tg: "has_taggable_group (lc_turns demo_overlap)" unfolding demo_overlap_def by code_simp
  have ep: "new_episode ''e'' 1 ''w'' 1 0 \<in> set (lc_episodes demo_overlap)"
    unfolding demo_overlap_def by code_simp
  have own: "op_owner p = wk_id demo_worker" by (simp add: p_def new_op_def)
  show ?thesis
    using exit_conflicts_with_open_episode[OF cw own tg ep] by (simp add: new_episode_def) blast
qed

end
