(* ===== verification/Consolidation.thy ===== *)
theory Consolidation
  imports Prelude "HOL-Library.AList"
begin

text \<open>
  Tag consolidation (core/tag\_consolidator.py): merging the groups proposed in several batches,
  writing a plan as tag aliases and segment tags, and reverting the writes of a run.

  The store is what storage/sqlite.py keeps of one conversation: the alias rows of the global
  scope and of the conversation, the refs of its segments and the rows of \<open>segment_tags\<close>.  Every
  call to the store first passes the environment \<open>env\<close>: at the \<open>n\<close>-th call it may raise
  (\<open>None\<close>) or let other writers change the store.  The answer of the judge, a Python dict, is an
  argument; a set is iterated in the order of an arbitrary hash \<open>h\<close>.
\<close>

section \<open>Store\<close>

type_synonym alias_rows = "(string \<times> string) list"

record alias_store =
  as_global :: alias_rows
  as_local :: alias_rows
  as_segments :: "string list"
  as_tags :: "(string \<times> string) list"       \<comment> \<open>\<open>segment_tags\<close>: ref and tag\<close>

definition get_tag_aliases :: "alias_store \<Rightarrow> alias_rows" where
  "get_tag_aliases s =
     fold (\<lambda>(a, c). AList.update a c) (sort_key fst (as_local s)) (sort_key fst (as_global s))"

definition create_tag_alias_if_absent :: "string \<Rightarrow> string \<Rightarrow> alias_store \<Rightarrow> bool \<times> alias_store" where
  "create_tag_alias_if_absent a c s =
     (if map_of (as_local s) a = None then (True, s\<lparr>as_local := as_local s @ [(a, c)]\<rparr>) else (False, s))"

definition rebind_tag_alias :: "string \<Rightarrow> string \<Rightarrow> string \<Rightarrow> alias_store \<Rightarrow> bool \<times> alias_store" where
  "rebind_tag_alias a expected new s =
     (if map_of (as_local s) a = Some expected then (True, s\<lparr>as_local := AList.update a new (as_local s)\<rparr>)
      else (False, s))"

definition delete_tag_alias :: "string \<Rightarrow> string \<Rightarrow> alias_store \<Rightarrow> nat \<times> alias_store" where
  "delete_tag_alias a expected s =
     (if map_of (as_local s) a = Some expected then (1, s\<lparr>as_local := AList.delete a (as_local s)\<rparr>) else (0, s))"

definition add_tag_to_segments_with_tags ::
  "string \<Rightarrow> string list \<Rightarrow> alias_store \<Rightarrow> string list \<times> alias_store" where
  "add_tag_to_segments_with_tags canonical tags s =
     (let refs = sort (remdups (map fst (filter
            (\<lambda>(r, t). t \<in> set tags \<and> r \<in> set (as_segments s) \<and> (r, canonical) \<notin> set (as_tags s)) (as_tags s))))
      in (refs, s\<lparr>as_tags := as_tags s @ map (\<lambda>r. (r, canonical)) refs\<rparr>))"

definition remove_tag_from_segments :: "string \<Rightarrow> string list \<Rightarrow> alias_store \<Rightarrow> nat \<times> alias_store" where
  "remove_tag_from_segments tag refs s =
     (let hit = (\<lambda>(r, t). t = tag \<and> r \<in> set refs \<and> r \<in> set (as_segments s))
      in (length (filter hit (as_tags s)), s\<lparr>as_tags := filter (\<lambda>x. \<not> hit x) (as_tags s)\<rparr>))"

section \<open>Merging proposed groups\<close>

record tag_group =
  tg_canonical :: string
  tg_aliases :: "string list"
  tg_reason :: string

text \<open>\<open>find\<close> with path halving; the fuel is the number of tags, more than any path has steps.\<close>

fun uf_find :: "nat \<Rightarrow> (string \<Rightarrow> string) \<Rightarrow> string \<Rightarrow> string \<times> (string \<Rightarrow> string)" where
  "uf_find 0 parent x = (x, parent)"
| "uf_find (Suc n) parent x =
     (if parent x = x then (x, parent)
      else let parent' = parent(x := parent (parent x)) in uf_find n parent' (parent' x))"

definition uf_union :: "nat \<Rightarrow> string \<Rightarrow> string \<Rightarrow> (string \<Rightarrow> string) \<Rightarrow> string \<Rightarrow> string" where
  "uf_union n a b parent =
     (let (ra, parent1) = uf_find n parent a; (rb, parent2) = uf_find n parent1 b
      in if ra \<noteq> rb then parent2(ra := rb) else parent2)"

definition group_tags :: "tag_group list \<Rightarrow> string list" where
  "group_tags groups = concat (map (\<lambda>g. tg_canonical g # tg_aliases g) groups)"

definition union_all :: "nat \<Rightarrow> tag_group list \<Rightarrow> string \<Rightarrow> string" where
  "union_all n groups =
     fold (\<lambda>g parent. fold (\<lambda>a. uf_union n a (tg_canonical g)) (tg_aliases g) parent) groups (\<lambda>x. x)"

fun collect_clusters ::
  "nat \<Rightarrow> string list \<Rightarrow> (string \<Rightarrow> string) \<Rightarrow> (string \<times> string list) list
     \<Rightarrow> (string \<times> string list) list \<times> (string \<Rightarrow> string)" where
  "collect_clusters n [] parent m = (m, parent)"
| "collect_clusters n (t # ts) parent m =
     (let (rep, parent') = uf_find n parent t in collect_clusters n ts parent' (setdefault_append m rep t))"

definition canonical_count :: "tag_group list \<Rightarrow> string \<Rightarrow> nat" where
  "canonical_count groups t = length (filter (\<lambda>g. tg_canonical g = t) groups)"

text \<open>\<open>max(members, key=...)\<close>: the first maximum in iteration order.\<close>

definition better_canonical :: "tag_group list \<Rightarrow> string \<Rightarrow> string \<Rightarrow> bool" where
  "better_canonical groups t u \<longleftrightarrow>
     canonical_count groups t > canonical_count groups u
     \<or> canonical_count groups t = canonical_count groups u \<and> length t < length u"

definition pick_canonical :: "tag_group list \<Rightarrow> string list \<Rightarrow> string" where
  "pick_canonical groups members =
     fold (\<lambda>t best. if better_canonical groups t best then t else best) (tl members) (hd members)"

definition first_reason :: "nat \<Rightarrow> (string \<Rightarrow> string) \<Rightarrow> tag_group list \<Rightarrow> string \<Rightarrow> string" where
  "first_reason n parent groups rep =
     (case filter (\<lambda>g. tg_reason g \<noteq> [] \<and> fst (uf_find n parent (tg_canonical g)) = rep) groups of
        [] \<Rightarrow> [] | g # _ \<Rightarrow> tg_reason g)"

definition merge_transitive_groups :: "(string \<Rightarrow> nat) \<Rightarrow> tag_group list \<Rightarrow> tag_group list" where
  "merge_transitive_groups h groups =
     (let n = length (group_tags groups);
          (clusters, parent) = collect_clusters n (set_order h (group_tags groups)) (union_all n groups) []
      in map (\<lambda>(rep, members).
               let best = pick_canonical groups (set_order h members)
               in \<lparr>tg_canonical = best, tg_aliases = sort (filter (\<lambda>t. t \<noteq> best) members),
                   tg_reason = first_reason n parent groups rep\<rparr>)
           (filter (\<lambda>(rep, members). length members > 1) clusters))"

section \<open>Applying a plan\<close>

record applied =
  ap_canonical :: string
  ap_written :: "string list"
  ap_rewritten :: "(string \<times> string) list"   \<comment> \<open>alias and the target it had\<close>
  ap_refs :: "string list"

datatype apply_error = PlanError | StoreError | ApplyError "applied list"

record apply_result =
  ar_written :: nat
  ar_tags :: nat
  ar_applied :: "applied list"
  ar_skipped :: "(string \<times> string \<times> string) list"

fun disjoint_scan :: "(string \<times> string) list \<Rightarrow> (string \<Rightarrow> string option) \<Rightarrow> bool" where
  "disjoint_scan [] seen = True"
| "disjoint_scan ((tag, canonical) # rest) seen =
     (case seen tag of
        Some c \<Rightarrow> c = canonical \<and> disjoint_scan rest (seen(tag \<mapsto> canonical))
      | None \<Rightarrow> disjoint_scan rest (seen(tag \<mapsto> canonical)))"

definition require_disjoint_groups :: "tag_group list \<Rightarrow> bool" where
  "require_disjoint_groups groups \<longleftrightarrow>
     disjoint_scan (concat (map (\<lambda>g. map (\<lambda>t. (t, tg_canonical g)) (tg_canonical g # tg_aliases g)) groups))
       (\<lambda>_. None)"

definition require_plan_matches_store :: "tag_group list \<Rightarrow> alias_rows \<Rightarrow> bool" where
  "require_plan_matches_store groups existing \<longleftrightarrow>
     list_all (\<lambda>g. map_of existing (tg_canonical g) \<in> {None, Some (tg_canonical g)}
        \<and> list_all (\<lambda>a. map_of existing a \<in> {None, Some (tg_canonical g)}) (tg_aliases g)) groups"

text \<open>One call to the store under the environment.\<close>

type_synonym environment = "nat \<Rightarrow> alias_store \<Rightarrow> alias_store option"

record run_state =
  rn_clock :: nat
  rn_store :: alias_store

definition call :: "environment \<Rightarrow> (alias_store \<Rightarrow> 'a \<times> alias_store) \<Rightarrow> run_state \<Rightarrow> 'a option \<times> run_state" where
  "call env f r =
     (case env (rn_clock r) (rn_store r) of
        None \<Rightarrow> (None, r\<lparr>rn_clock := Suc (rn_clock r)\<rparr>)
      | Some s \<Rightarrow> (case f s of (x, s') \<Rightarrow> (Some x, \<lparr>rn_clock = Suc (rn_clock r), rn_store = s'\<rparr>)))"

text \<open>What a group's loop has done so far.\<close>

record group_progress =
  gp_live :: alias_rows
  gp_written :: "string list"
  gp_rewritten :: "(string \<times> string) list"
  gp_backfill :: "string list"
  gp_skipped :: "(string \<times> string \<times> string) list"
  gp_run :: run_state

fun rebind_deeper ::
  "environment \<Rightarrow> bool \<Rightarrow> string \<Rightarrow> string \<Rightarrow> alias_rows \<Rightarrow> group_progress \<Rightarrow> bool \<times> group_progress" where
  "rebind_deeper env exact canonical a [] p = (True, p)"
| "rebind_deeper env exact canonical a ((deeper, target) # rest) p =
     (if target \<noteq> a \<or> deeper = canonical then rebind_deeper env exact canonical a rest p
      else case call env (rebind_tag_alias deeper a canonical) (gp_run p) of
             (None, r) \<Rightarrow> (False, p\<lparr>gp_run := r\<rparr>)
           | (Some True, r) \<Rightarrow>
               rebind_deeper env exact canonical a rest
                 (p\<lparr>gp_live := AList.update deeper canonical (gp_live p), gp_rewritten := gp_rewritten p @ [(deeper, a)],
                    gp_backfill := gp_backfill p @ [deeper], gp_run := r\<rparr>)
           | (Some False, r) \<Rightarrow>
               if exact then (False, p\<lparr>gp_run := r\<rparr>)
               else rebind_deeper env exact canonical a rest
                      (p\<lparr>gp_skipped := gp_skipped p @ [(deeper, canonical, ''concurrent'')], gp_run := r\<rparr>))"

definition apply_alias ::
  "environment \<Rightarrow> bool \<Rightarrow> string \<Rightarrow> string \<Rightarrow> group_progress \<Rightarrow> bool \<times> group_progress" where
  "apply_alias env exact canonical a p =
     (case map_of (gp_live p) a of
        Some c \<Rightarrow>
          if c \<noteq> canonical then (True, p\<lparr>gp_skipped := gp_skipped p @ [(a, canonical, c)]\<rparr>)
          else (case rebind_deeper env exact canonical a (gp_live p) p of
                  (False, p1) \<Rightarrow> (False, p1)
                | (True, p1) \<Rightarrow> (True, p1\<lparr>gp_backfill := gp_backfill p1 @ [a]\<rparr>))
      | None \<Rightarrow>
          (case rebind_deeper env exact canonical a (gp_live p) p of
             (False, p1) \<Rightarrow> (False, p1)
           | (True, p1) \<Rightarrow>
               (case call env (create_tag_alias_if_absent a canonical) (gp_run p1) of
                  (None, r) \<Rightarrow> (False, p1\<lparr>gp_run := r\<rparr>)
                | (Some True, r) \<Rightarrow>
                    (True, p1\<lparr>gp_written := gp_written p1 @ [a], gp_backfill := gp_backfill p1 @ [a],
                              gp_live := AList.update a canonical (gp_live p1), gp_run := r\<rparr>)
                | (Some False, r) \<Rightarrow>
                    if exact then (False, p1\<lparr>gp_run := r\<rparr>)
                    else (True, p1\<lparr>gp_skipped := gp_skipped p1 @ [(a, canonical, ''concurrent'')], gp_run := r\<rparr>))))"

fun apply_aliases ::
  "environment \<Rightarrow> bool \<Rightarrow> string \<Rightarrow> string list \<Rightarrow> group_progress \<Rightarrow> bool \<times> group_progress" where
  "apply_aliases env exact canonical [] p = (True, p)"
| "apply_aliases env exact canonical (a # as) p =
     (case apply_alias env exact canonical a p of
        (False, p1) \<Rightarrow> (False, p1)
      | (True, p1) \<Rightarrow> apply_aliases env exact canonical as p1)"

definition applied_entry :: "string \<Rightarrow> group_progress \<Rightarrow> string list \<Rightarrow> applied" where
  "applied_entry canonical p refs =
     \<lparr>ap_canonical = canonical, ap_written = gp_written p, ap_rewritten = gp_rewritten p, ap_refs = refs\<rparr>"

text \<open>One group: its entry, whether it was completed, and what it skipped.\<close>

definition apply_group ::
  "environment \<Rightarrow> bool \<Rightarrow> tag_group \<Rightarrow> run_state \<Rightarrow> bool \<times> applied \<times> (string \<times> string \<times> string) list \<times> run_state" where
  "apply_group env exact g r =
     (let canonical = tg_canonical g;
          p0 = \<lparr>gp_live = [], gp_written = [], gp_rewritten = [], gp_backfill = [], gp_skipped = [], gp_run = r\<rparr>
      in case call env (\<lambda>s. (get_tag_aliases s, s)) r of
           (None, r1) \<Rightarrow> (False, applied_entry canonical p0 [], [], r1)
         | (Some live, r1) \<Rightarrow>
             if exact \<and> \<not> require_plan_matches_store [g] live then (False, applied_entry canonical p0 [], [], r1)
             else (case apply_aliases env exact canonical (tg_aliases g) (p0\<lparr>gp_live := live, gp_run := r1\<rparr>) of
                     (False, p) \<Rightarrow> (False, applied_entry canonical p [], gp_skipped p, gp_run p)
                   | (True, p) \<Rightarrow>
                       if gp_backfill p = [] then (True, applied_entry canonical p [], gp_skipped p, gp_run p)
                       else (case call env (add_tag_to_segments_with_tags canonical (gp_backfill p)) (gp_run p) of
                               (None, r2) \<Rightarrow> (False, applied_entry canonical p [], gp_skipped p, r2)
                             | (Some refs, r2) \<Rightarrow> (True, applied_entry canonical p refs, gp_skipped p, r2))))"

text \<open>\<open>notify\<close> is \<open>on_group_applied\<close>: whether it returns without raising.\<close>

fun apply_loop ::
  "environment \<Rightarrow> (applied \<Rightarrow> bool) \<Rightarrow> bool \<Rightarrow> tag_group list \<Rightarrow> apply_result \<Rightarrow> run_state
     \<Rightarrow> (apply_error + apply_result) \<times> run_state" where
  "apply_loop env notify exact [] res r = (Inr res, r)"
| "apply_loop env notify exact (g # gs) res r =
     (case apply_group env exact g r of
        (False, entry, skipped, r1) \<Rightarrow> (Inl (ApplyError (ar_applied res @ [entry])), r1)
      | (True, entry, skipped, r1) \<Rightarrow>
          (let res1 = res\<lparr>ar_written := ar_written res + length (ap_written entry),
                          ar_tags := ar_tags res + length (ap_refs entry),
                          ar_applied := ar_applied res @ [entry], ar_skipped := ar_skipped res @ skipped\<rparr>
           in if \<not> notify entry then (Inl (ApplyError (ar_applied res1)), r1)
              else apply_loop env notify exact gs res1 r1))"

definition apply_groups ::
  "environment \<Rightarrow> (applied \<Rightarrow> bool) \<Rightarrow> bool \<Rightarrow> bool \<Rightarrow> tag_group list \<Rightarrow> alias_store
     \<Rightarrow> (apply_error + apply_result) \<times> alias_store" where
  "apply_groups env notify dry_run exact groups s =
     (let res = \<lparr>ar_written = 0, ar_tags = 0, ar_applied = [], ar_skipped = []\<rparr>; r = \<lparr>rn_clock = 0, rn_store = s\<rparr>
      in if dry_run \<or> groups = [] then (Inr res, s)
         else if \<not> exact then (case apply_loop env notify exact groups res r of (x, r1) \<Rightarrow> (x, rn_store r1))
         else if \<not> require_disjoint_groups groups then (Inl PlanError, s)
         else (case call env (\<lambda>s. (get_tag_aliases s, s)) r of
                 (None, r1) \<Rightarrow> (Inl StoreError, rn_store r1)
               | (Some existing, r1) \<Rightarrow>
                   if \<not> require_plan_matches_store groups existing then (Inl PlanError, rn_store r1)
                   else (case apply_loop env notify exact groups res r1 of (x, r2) \<Rightarrow> (x, rn_store r2))))"

definition recorded :: "apply_error + apply_result \<Rightarrow> applied list" where
  "recorded x = (case x of Inr res \<Rightarrow> ar_applied res | Inl (ApplyError as) \<Rightarrow> as | Inl _ \<Rightarrow> [])"

section \<open>Reverting a run\<close>

record revert_counts =
  rc_deleted :: nat
  rc_delete_skipped :: nat
  rc_restored :: nat
  rc_restore_skipped :: nat
  rc_tags_removed :: nat

fun revert_written :: "string \<Rightarrow> string list \<Rightarrow> revert_counts \<Rightarrow> alias_store \<Rightarrow> revert_counts \<times> alias_store" where
  "revert_written canonical [] n s = (n, s)"
| "revert_written canonical (a # as) n s =
     (case delete_tag_alias a canonical s of
        (k, s1) \<Rightarrow> revert_written canonical as
          (if k > 0 then n\<lparr>rc_deleted := rc_deleted n + k\<rparr> else n\<lparr>rc_delete_skipped := rc_delete_skipped n + 1\<rparr>) s1)"

fun revert_rewritten ::
  "string \<Rightarrow> (string \<times> string) list \<Rightarrow> revert_counts \<Rightarrow> alias_store \<Rightarrow> revert_counts \<times> alias_store" where
  "revert_rewritten canonical [] n s = (n, s)"
| "revert_rewritten canonical ((deeper, previous) # as) n s =
     (case rebind_tag_alias deeper canonical previous s of
        (ok, s1) \<Rightarrow> revert_rewritten canonical as
          (if ok then n\<lparr>rc_restored := rc_restored n + 1\<rparr> else n\<lparr>rc_restore_skipped := rc_restore_skipped n + 1\<rparr>) s1)"

definition revert_entry :: "applied \<Rightarrow> revert_counts \<Rightarrow> alias_store \<Rightarrow> revert_counts \<times> alias_store" where
  "revert_entry e n s =
     (let (k, s1) = (if ap_canonical e \<noteq> [] \<and> ap_refs e \<noteq> []
                     then remove_tag_from_segments (ap_canonical e) (ap_refs e) s else (0, s));
          (n2, s2) = revert_written (ap_canonical e) (ap_written e) (n\<lparr>rc_tags_removed := rc_tags_removed n + k\<rparr>) s1
      in revert_rewritten (ap_canonical e) (ap_rewritten e) n2 s2)"

fun revert_loop :: "applied list \<Rightarrow> revert_counts \<Rightarrow> alias_store \<Rightarrow> revert_counts \<times> alias_store" where
  "revert_loop [] n s = (n, s)"
| "revert_loop (e # es) n s = (case revert_entry e n s of (n1, s1) \<Rightarrow> revert_loop es n1 s1)"

definition revert_consolidation :: "applied list \<Rightarrow> alias_store \<Rightarrow> revert_counts \<times> alias_store" where
  "revert_consolidation entries s =
     revert_loop entries \<lparr>rc_deleted = 0, rc_delete_skipped = 0, rc_restored = 0, rc_restore_skipped = 0,
                          rc_tags_removed = 0\<rparr> s"

end
