(* ===== verification/ConsolidationProps.thy ===== *)
theory ConsolidationProps
  imports Consolidation
begin

text \<open>
  What a consolidation run and its revert guarantee: the revert restores the store whatever point
  the run stopped at, it leaves other writers' mappings alone, and a reviewed plan that succeeds
  is what the store holds.
\<close>

section \<open>Explaining a store by a log of writes\<close>

text \<open>
  A log names the keys a run wrote with the value they had and the value they got.  It explains
  the store \<open>s\<close> from \<open>s0\<close> when it is the whole difference between the two.
\<close>

type_synonym alias_log = "(string \<times> string option \<times> string) list"

definition explains :: "alias_store \<Rightarrow> alias_log \<Rightarrow> (string \<times> string) list \<Rightarrow> alias_store \<Rightarrow> bool" where
  "explains s0 L T s \<longleftrightarrow>
     as_global s = as_global s0 \<and> as_segments s = as_segments s0 \<and> distinct (map fst L)
     \<and> (\<forall>(k, old, c) \<in> set L. map_of (as_local s0) k = old \<and> map_of (as_local s) k = Some c)
     \<and> (\<forall>k. k \<notin> fst ` set L \<longrightarrow> map_of (as_local s) k = map_of (as_local s0) k)
     \<and> distinct T \<and> set T \<inter> set (as_tags s0) = {} \<and> set (as_tags s) = set (as_tags s0) \<union> set T
     \<and> fst ` set T \<subseteq> set (as_segments s0)"

lemma explains_refl: "explains s [] [] s"
  by (simp add: explains_def)

lemma explains_nil:
  assumes "explains s0 [] [] s"
  shows "as_global s = as_global s0" "as_segments s = as_segments s0" "map_of (as_local s) = map_of (as_local s0)"
    "set (as_tags s) = set (as_tags s0)"
  using assms by (auto simp: explains_def)

lemma explains_perm:
  assumes "explains s0 L T s" "mset L' = mset L" "mset T' = mset T"
  shows "explains s0 L' T' s"
proof -
  have "set L' = set L" "set T' = set T" using assms(2,3) by (metis set_mset_mset)+
  moreover have "distinct (map fst L') = distinct (map fst L)"
    by (rule mset_eq_imp_distinct_iff) (simp add: assms(2))
  moreover have "distinct T' = distinct T" by (rule mset_eq_imp_distinct_iff) (rule assms(3))
  ultimately show ?thesis using assms(1) by (simp add: explains_def)
qed

text \<open>The writes of a run.\<close>

lemma create_explains:
  assumes ex: "explains s0 L T s" and created: "create_tag_alias_if_absent a c s = (True, s')"
  shows "explains s0 (L @ [(a, None, c)]) T s'"
proof -
  have free: "map_of (as_local s) a = None" and s': "s' = s\<lparr>as_local := as_local s @ [(a, c)]\<rparr>"
    using created by (auto simp: create_tag_alias_if_absent_def split: if_splits)
  have new: "a \<notin> fst ` set L" using ex free by (force simp: explains_def)
  then have ne: "(a, old, v) \<notin> set L" for old v by force
  have upd: "map_of (as_local s') = (map_of (as_local s))(a \<mapsto> c)"
    using free by (auto simp: s' fun_eq_iff map_add_def split: option.splits)
  have "map_of (as_local s0) a = None" using ex new free by (simp add: explains_def)
  then show ?thesis
    using ex new unfolding explains_def upd by (auto simp: s' ne)
qed

lemma rebind_explains:
  assumes ex: "explains s0 L T s" and bound: "rebind_tag_alias d old c s = (True, s')"
    and vals: "\<forall>(k, p, v) \<in> set L. v \<noteq> old"
  shows "explains s0 (L @ [(d, Some old, c)]) T s'"
proof -
  have was: "map_of (as_local s) d = Some old" and s': "s' = s\<lparr>as_local := AList.update d c (as_local s)\<rparr>"
    using bound by (auto simp: rebind_tag_alias_def split: if_splits)
  have new: "d \<notin> fst ` set L" using ex was vals by (force simp: explains_def)
  then have ne: "(d, x, v) \<notin> set L" for x v by force
  have upd: "map_of (as_local s') = (map_of (as_local s))(d \<mapsto> c)" by (simp add: s' update_conv')
  have "map_of (as_local s0) d = Some old" using ex new was by (simp add: explains_def)
  then show ?thesis
    using ex new unfolding explains_def upd by (auto simp: s' ne)
qed

lemma add_tags_explains:
  assumes ex: "explains s0 L T s" and added: "add_tag_to_segments_with_tags c tags s = (refs, s')"
  shows "explains s0 L (T @ map (\<lambda>r. (r, c)) refs) s'"
proof -
  have s': "s' = s\<lparr>as_tags := as_tags s @ map (\<lambda>r. (r, c)) refs\<rparr>" and d: "distinct refs"
    and fresh: "\<forall>r\<in>set refs. r \<in> set (as_segments s) \<and> (r, c) \<notin> set (as_tags s)"
    using added by (auto simp: add_tag_to_segments_with_tags_def Let_def)
  have "distinct (map (\<lambda>r. (r, c)) refs)" using d by (simp add: distinct_map inj_on_def)
  then show ?thesis using ex fresh unfolding explains_def by (auto simp: s')
qed

text \<open>The writes of a revert take entries of the log back, first ones first.\<close>

lemma delete_explains:
  assumes ex: "explains s0 ((a, None, c) # L) T s"
  shows "\<exists>s'. delete_tag_alias a c s = (1, s') \<and> explains s0 L T s'"
proof -
  have now: "map_of (as_local s) a = Some c" and was: "map_of (as_local s0) a = None" and new: "a \<notin> fst ` set L"
    using ex by (auto simp: explains_def)
  then have ne: "(a, x, v) \<notin> set L" for x v by force
  let ?s' = "s\<lparr>as_local := AList.delete a (as_local s)\<rparr>"
  have upd: "map_of (as_local ?s') = (map_of (as_local s))(a := None)" by (simp add: delete_conv')
  have "explains s0 L T ?s'"
    using ex new was unfolding explains_def upd by (auto simp: ne)
  then show ?thesis using now by (simp add: delete_tag_alias_def)
qed

lemma restore_explains:
  assumes ex: "explains s0 ((d, Some p, c) # L) T s"
  shows "\<exists>s'. rebind_tag_alias d c p s = (True, s') \<and> explains s0 L T s'"
proof -
  have now: "map_of (as_local s) d = Some c" and was: "map_of (as_local s0) d = Some p" and new: "d \<notin> fst ` set L"
    using ex by (auto simp: explains_def)
  then have ne: "(d, x, v) \<notin> set L" for x v by force
  let ?s' = "s\<lparr>as_local := AList.update d p (as_local s)\<rparr>"
  have upd: "map_of (as_local ?s') = (map_of (as_local s))(d \<mapsto> p)" by (simp add: update_conv')
  have "explains s0 L T ?s'"
    using ex new was unfolding explains_def upd by (auto simp: ne)
  then show ?thesis using now by (simp add: rebind_tag_alias_def)
qed

lemma remove_tags_explains:
  assumes ex: "explains s0 L (map (\<lambda>r. (r, c)) refs @ T) s"
  shows "explains s0 L T (snd (remove_tag_from_segments c refs s))"
proof -
  let ?R = "(\<lambda>r. (r, c)) ` set refs"
  have parts: "distinct T" "?R \<inter> set T = {}" "(?R \<union> set T) \<inter> set (as_tags s0) = {}"
    "set (as_tags s) = set (as_tags s0) \<union> (?R \<union> set T)" "fst ` (?R \<union> set T) \<subseteq> set (as_segments s0)"
    "as_segments s = as_segments s0"
    using ex by (simp_all add: explains_def image_Un)
  have "r \<in> set (as_segments s)" if "r \<in> set refs" for r using parts(5,6) that by force
  then have "set (as_tags (snd (remove_tag_from_segments c refs s))) = set (as_tags s) - ?R"
    by (auto simp: remove_tag_from_segments_def Let_def)
  also have "\<dots> = set (as_tags s0) \<union> set T" unfolding parts(4) using parts(2,3) by blast
  finally show ?thesis using ex parts(1,3,5)
    by (auto simp: explains_def remove_tag_from_segments_def Let_def)
qed

section \<open>The revert takes the log back\<close>

definition alias_log :: "applied list \<Rightarrow> alias_log" where
  "alias_log es = concat (map (\<lambda>e. map (\<lambda>a. (a, None, ap_canonical e)) (ap_written e)
      @ map (\<lambda>(d, p). (d, Some p, ap_canonical e)) (ap_rewritten e)) es)"

definition tag_log :: "applied list \<Rightarrow> (string \<times> string) list" where
  "tag_log es = concat (map (\<lambda>e. map (\<lambda>r. (r, ap_canonical e)) (ap_refs e)) es)"

lemma log_simps [simp]:
  "alias_log [] = []" "tag_log [] = []"
  "alias_log (e # es) = map (\<lambda>a. (a, None, ap_canonical e)) (ap_written e)
      @ map (\<lambda>(d, p). (d, Some p, ap_canonical e)) (ap_rewritten e) @ alias_log es"
  "tag_log (e # es) = map (\<lambda>r. (r, ap_canonical e)) (ap_refs e) @ tag_log es"
  "alias_log (es @ fs) = alias_log es @ alias_log fs" "tag_log (es @ fs) = tag_log es @ tag_log fs"
  by (simp_all add: alias_log_def tag_log_def)

text \<open>A revert that skipped nothing.\<close>

definition nothing_skipped :: "revert_counts \<Rightarrow> bool" where
  "nothing_skipped n \<longleftrightarrow> rc_delete_skipped n = 0 \<and> rc_restore_skipped n = 0"

lemma revert_written_explains:
  assumes "explains s0 (map (\<lambda>a. (a, None, c)) as @ L) T s" "nothing_skipped n"
  shows "\<exists>n' s'. revert_written c as n s = (n', s') \<and> explains s0 L T s' \<and> nothing_skipped n'"
  using assms
proof (induction as arbitrary: n s)
  case (Cons a as)
  then obtain s1 where "delete_tag_alias a c s = (1, s1)"
      "explains s0 (map (\<lambda>a. (a, None, c)) as @ L) T s1"
    using delete_explains[of s0 a c "map (\<lambda>a. (a, None, c)) as @ L" T s] by auto
  then show ?case using Cons.IH[of s1 "n\<lparr>rc_deleted := rc_deleted n + 1\<rparr>"] Cons.prems(2)
    by (simp add: nothing_skipped_def)
qed simp

lemma revert_rewritten_explains:
  assumes "explains s0 (map (\<lambda>(d, p). (d, Some p, c)) as @ L) T s" "nothing_skipped n"
  shows "\<exists>n' s'. revert_rewritten c as n s = (n', s') \<and> explains s0 L T s' \<and> nothing_skipped n'"
  using assms
proof (induction as arbitrary: n s)
  case (Cons x as)
  obtain d p where x: "x = (d, p)" by fastforce
  obtain s1 where "rebind_tag_alias d c p s = (True, s1)"
      "explains s0 (map (\<lambda>(d, p). (d, Some p, c)) as @ L) T s1"
    using restore_explains[of s0 d p c "map (\<lambda>(d, p). (d, Some p, c)) as @ L" T s] Cons.prems(1) by (auto simp: x)
  then show ?case using Cons.IH[of s1 "n\<lparr>rc_restored := rc_restored n + 1\<rparr>"] Cons.prems(2)
    by (simp add: nothing_skipped_def x)
qed simp

lemma revert_entry_explains:
  assumes ex: "explains s0 (alias_log (e # es)) (tag_log (e # es)) s" and "nothing_skipped n" "ap_canonical e \<noteq> []"
  shows "\<exists>n' s'. revert_entry e n s = (n', s') \<and> explains s0 (alias_log es) (tag_log es) s' \<and> nothing_skipped n'"
proof -
  define s1 where "s1 = (if ap_refs e \<noteq> [] then snd (remove_tag_from_segments (ap_canonical e) (ap_refs e) s) else s)"
  have "explains s0 (alias_log (e # es)) (tag_log es) s1"
    using ex remove_tags_explains[of s0 "alias_log (e # es)" "ap_canonical e" "ap_refs e" "tag_log es" s]
    by (auto simp: s1_def)
  moreover obtain k where k: "(if ap_canonical e \<noteq> [] \<and> ap_refs e \<noteq> []
        then remove_tag_from_segments (ap_canonical e) (ap_refs e) s else (0, s)) = (k, s1)"
  proof
    show "(if ap_canonical e \<noteq> [] \<and> ap_refs e \<noteq> [] then remove_tag_from_segments (ap_canonical e) (ap_refs e) s
        else (0, s)) = (fst (if ap_refs e \<noteq> [] then remove_tag_from_segments (ap_canonical e) (ap_refs e) s
        else (0, s)), s1)"
      using assms(3) by (simp add: s1_def)
  qed
  moreover have "nothing_skipped (n\<lparr>rc_tags_removed := rc_tags_removed n + k\<rparr>)"
    using assms(2) by (simp add: nothing_skipped_def)
  ultimately obtain n2 s2 where 2: "revert_written (ap_canonical e) (ap_written e)
        (n\<lparr>rc_tags_removed := rc_tags_removed n + k\<rparr>) s1 = (n2, s2)" "nothing_skipped n2"
      "explains s0 (map (\<lambda>(d, p). (d, Some p, ap_canonical e)) (ap_rewritten e) @ alias_log es) (tag_log es) s2"
    using revert_written_explains[of s0 "ap_canonical e" "ap_written e"
        "map (\<lambda>(d, p). (d, Some p, ap_canonical e)) (ap_rewritten e) @ alias_log es" "tag_log es" s1
        "n\<lparr>rc_tags_removed := rc_tags_removed n + k\<rparr>"] by (simp only: log_simps) blast
  obtain n3 s3 where 3: "revert_rewritten (ap_canonical e) (ap_rewritten e) n2 s2 = (n3, s3)"
      "explains s0 (alias_log es) (tag_log es) s3" "nothing_skipped n3"
    using revert_rewritten_explains[OF 2(3,2)] by blast
  show ?thesis unfolding revert_entry_def k Let_def prod.case 2(1) using 3 by simp
qed

lemma revert_loop_explains:
  assumes "explains s0 (alias_log es) (tag_log es) s" "nothing_skipped n" "\<forall>e\<in>set es. ap_canonical e \<noteq> []"
  shows "\<exists>n' s'. revert_loop es n s = (n', s') \<and> explains s0 [] [] s' \<and> nothing_skipped n'"
  using assms
proof (induction es arbitrary: n s)
  case (Cons e es)
  obtain n1 s1 where 1: "revert_entry e n s = (n1, s1)" "explains s0 (alias_log es) (tag_log es) s1" "nothing_skipped n1"
    using revert_entry_explains[OF Cons.prems(1,2)] Cons.prems(3) by auto
  show ?case using Cons.IH[OF 1(2,3)] Cons.prems(3) 1(1) by simp
qed simp

section \<open>The run keeps the log\<close>

text \<open>An environment that may raise at any call but never writes.\<close>

definition undisturbed :: "environment \<Rightarrow> bool" where
  "undisturbed env \<longleftrightarrow> (\<forall>n s. env n s = None \<or> env n s = Some s)"

text \<open>No tag is the canonical of one group and an alias of one.\<close>

definition plan_clean :: "tag_group list \<Rightarrow> bool" where
  "plan_clean groups \<longleftrightarrow>
     (\<forall>g\<in>set groups. tg_canonical g \<noteq> [] \<and> (\<forall>g'\<in>set groups. tg_canonical g \<notin> set (tg_aliases g')))"

lemma call_cases:
  assumes "undisturbed env"
  obtains (raised) r' where "call env f r = (None, r')" "rn_store r' = rn_store r"
  | (answered) x r' where "call env f r = (Some x, r')" "f (rn_store r) = (x, rn_store r')"
proof (cases "env (rn_clock r) (rn_store r)")
  case None
  then have "call env f r = (None, r\<lparr>rn_clock := Suc (rn_clock r)\<rparr>)" by (simp add: call_def)
  then show ?thesis by (rule raised) simp
next
  case (Some s)
  then have s: "s = rn_store r" using assms unfolding undisturbed_def by (metis option.distinct(1) option.inject)
  obtain x s' where x: "f (rn_store r) = (x, s')" by fastforce
  have "call env f r = (Some x, \<lparr>rn_clock = Suc (rn_clock r), rn_store = s'\<rparr>)" using Some s x by (simp add: call_def)
  then show ?thesis by (rule answered) (simp add: x)
qed

definition group_log :: "string \<Rightarrow> group_progress \<Rightarrow> alias_log" where
  "group_log c p = map (\<lambda>a. (a, None, c)) (gp_written p) @ map (\<lambda>(d, q). (d, Some q, c)) (gp_rewritten p)"

text \<open>The state of a group's loop is explained by the earlier entries and its own log.\<close>

definition explained ::
  "alias_store \<Rightarrow> alias_log \<Rightarrow> (string \<times> string) list \<Rightarrow> string \<Rightarrow> group_progress \<Rightarrow> bool" where
  "explained s0 L T c p \<longleftrightarrow> explains s0 (L @ group_log c p) T (rn_store (gp_run p))"

lemma explained_run:
  "explained s0 L T c p \<Longrightarrow> rn_store r = rn_store (gp_run p) \<Longrightarrow> explained s0 L T c (p\<lparr>gp_run := r\<rparr>)"
  by (simp add: explained_def group_log_def)

lemma explained_frame [simp]:
  "explained s0 L T c (p\<lparr>gp_skipped := x\<rparr>) = explained s0 L T c p"
  "explained s0 L T c (p\<lparr>gp_backfill := y\<rparr>) = explained s0 L T c p"
  "explained s0 L T c (p\<lparr>gp_live := z\<rparr>) = explained s0 L T c p"
  by (simp_all add: explained_def group_log_def)

lemma rebind_deeper_explained:
  assumes "undisturbed env" "\<forall>(k, p, v) \<in> set L. v \<in> C" "c \<in> C" "a \<notin> C" "explained s0 L T c p"
  shows "explained s0 L T c (snd (rebind_deeper env exact c a m p))"
  using assms(5)
proof (induction m arbitrary: p)
  case (Cons x m)
  obtain deeper target where x: "x = (deeper, target)" by fastforce
  note step = rebind_deeper.simps(2)[of env exact c a deeper target m p, folded x]
  show ?case
  proof (cases "target \<noteq> a \<or> deeper = c")
    case True
    then show ?thesis unfolding step using Cons by simp
  next
    case False
    consider (raised) r where "call env (rebind_tag_alias deeper a c) (gp_run p) = (None, r)"
        "rn_store r = rn_store (gp_run p)"
      | (answered) ok r where "call env (rebind_tag_alias deeper a c) (gp_run p) = (Some ok, r)"
        "rebind_tag_alias deeper a c (rn_store (gp_run p)) = (ok, rn_store r)"
      by (rule call_cases[OF assms(1)])
    then show ?thesis
    proof cases
      case raised
      then show ?thesis unfolding step using False explained_run[OF Cons.prems] by simp
    next
      case answered
      show ?thesis
      proof (cases ok)
        case True
        have "\<forall>(k, q, v) \<in> set (L @ group_log c p). v \<noteq> a"
          using assms(2-4) by (auto simp: group_log_def)
        with Cons.prems[unfolded explained_def] answered(2)[simplified True]
        have "explains s0 ((L @ group_log c p) @ [(deeper, Some a, c)]) T (rn_store r)"
          by (rule rebind_explains)
        then have "explained s0 L T c (p\<lparr>gp_live := AList.update deeper c (gp_live p),
            gp_rewritten := gp_rewritten p @ [(deeper, a)], gp_backfill := gp_backfill p @ [deeper], gp_run := r\<rparr>)"
          by (simp add: explained_def group_log_def)
        from Cons.IH[OF this] show ?thesis unfolding step using False True answered(1) by simp
      next
        case f: False
        then have "rn_store r = rn_store (gp_run p)"
          using answered(2) by (auto simp: rebind_tag_alias_def split: if_splits)
        then have "explained s0 L T c (p\<lparr>gp_run := r\<rparr>)" by (rule explained_run[OF Cons.prems])
        then have "explained s0 L T c (p\<lparr>gp_skipped := gp_skipped p @ [(deeper, c, ''concurrent'')], gp_run := r\<rparr>)"
          by (simp add: explained_def group_log_def)
        from Cons.IH[OF this] \<open>explained s0 L T c (p\<lparr>gp_run := r\<rparr>)\<close>
        show ?thesis unfolding step using False f answered(1) by (cases exact) simp_all
      qed
    qed
  qed
qed simp

lemma create_explained:
  assumes "explained s0 L T c p" "create_tag_alias_if_absent a c (rn_store (gp_run p)) = (True, rn_store r)"
  shows "explained s0 L T c (p\<lparr>gp_written := gp_written p @ [a], gp_backfill := b, gp_live := l, gp_run := r\<rparr>)"
proof -
  have "explains s0 ((L @ group_log c p) @ [(a, None, c)]) T (rn_store r)"
    by (rule create_explains[OF assms(1)[unfolded explained_def] assms(2)])
  then have "explains s0 (L @ map (\<lambda>a. (a, None, c)) (gp_written p @ [a])
      @ map (\<lambda>(d, q). (d, Some q, c)) (gp_rewritten p)) T (rn_store r)"
    by (rule explains_perm) (simp_all add: group_log_def)
  then show ?thesis by (simp add: explained_def group_log_def)
qed

lemma apply_alias_explained:
  assumes "undisturbed env" "\<forall>(k, p, v) \<in> set L. v \<in> C" "c \<in> C" "a \<notin> C" "explained s0 L T c p"
  shows "explained s0 L T c (snd (apply_alias env exact c a p))"
proof -
  obtain ok p1 where p1: "rebind_deeper env exact c a (gp_live p) p = (ok, p1)" by fastforce
  have ex1: "explained s0 L T c p1" using rebind_deeper_explained[OF assms, of exact "gp_live p"] p1 by simp
  show ?thesis
  proof (cases "map_of (gp_live p) a")
    case (Some v)
    then show ?thesis using assms(5) ex1 by (cases ok) (simp_all add: apply_alias_def p1)
  next
    case None
    show ?thesis
    proof (cases ok)
      case False
      then show ?thesis using None ex1 by (simp add: apply_alias_def p1)
    next
      case True
      consider (raised) r where "call env (create_tag_alias_if_absent a c) (gp_run p1) = (None, r)"
          "rn_store r = rn_store (gp_run p1)"
        | (answered) b r where "call env (create_tag_alias_if_absent a c) (gp_run p1) = (Some b, r)"
          "create_tag_alias_if_absent a c (rn_store (gp_run p1)) = (b, rn_store r)"
        by (rule call_cases[OF assms(1)])
      then show ?thesis
      proof cases
        case raised
        then show ?thesis using None True explained_run[OF ex1] by (simp add: apply_alias_def p1)
      next
        case answered
        show ?thesis
        proof (cases b)
          case t: True
          then show ?thesis using None True answered create_explained[OF ex1] by (simp add: apply_alias_def p1)
        next
          case f: False
          then have "rn_store r = rn_store (gp_run p1)"
            using answered(2) by (auto simp: create_tag_alias_if_absent_def split: if_splits)
          then have "explained s0 L T c (p1\<lparr>gp_run := r\<rparr>)" by (rule explained_run[OF ex1])
          then show ?thesis using None True f answered(1) p1
            by (cases exact) (simp_all add: apply_alias_def explained_def group_log_def)
        qed
      qed
    qed
  qed
qed

lemma apply_aliases_explained:
  assumes "undisturbed env" "\<forall>(k, p, v) \<in> set L. v \<in> C" "c \<in> C" "set as \<inter> C = {}" "explained s0 L T c p"
  shows "explained s0 L T c (snd (apply_aliases env exact c as p))"
  using assms(4,5)
proof (induction as arbitrary: p)
  case (Cons a as)
  obtain ok p1 where p1: "apply_alias env exact c a p = (ok, p1)" by fastforce
  have "explained s0 L T c p1"
    using apply_alias_explained[OF assms(1-3) _ Cons.prems(2), of a exact] Cons.prems(1) p1 by simp
  then show ?case using Cons.IH[of p1] Cons.prems(1) p1 by (cases ok) simp_all
qed simp

text \<open>A group's entry is its log, whether the group was completed or not.\<close>

lemma apply_group_explained:
  assumes env: "undisturbed env" and vals: "\<forall>(k, p, v) \<in> set L. v \<in> C"
    and c: "tg_canonical g \<in> C" "set (tg_aliases g) \<inter> C = {}"
    and ex: "explains s0 L T (rn_store r)" and run: "apply_group env exact g r = (ok, entry, skipped, r')"
  shows "explains s0 (L @ alias_log [entry]) (T @ tag_log [entry]) (rn_store r') \<and> ap_canonical entry = tg_canonical g"
proof -
  let ?c = "tg_canonical g"
  define p0 where "p0 = \<lparr>gp_live = [], gp_written = [], gp_rewritten = [], gp_backfill = [], gp_skipped = [], gp_run = r\<rparr>"
  have entry: "alias_log [applied_entry ?c p refs] = group_log ?c p"
      "tag_log [applied_entry ?c p refs] = map (\<lambda>r. (r, ?c)) refs" "ap_canonical (applied_entry ?c p refs) = ?c" for p refs
    by (simp_all add: applied_entry_def group_log_def)
  have idle: "explains s0 (L @ alias_log [applied_entry ?c p0 []]) (T @ tag_log [applied_entry ?c p0 []]) (rn_store r1)"
    if "rn_store r1 = rn_store r" for r1
    unfolding entry using ex that by (simp add: group_log_def p0_def)
  consider (raised) r1 where "call env (\<lambda>s. (get_tag_aliases s, s)) r = (None, r1)" "rn_store r1 = rn_store r"
    | (answered) live r1 where "call env (\<lambda>s. (get_tag_aliases s, s)) r = (Some live, r1)"
      "(get_tag_aliases (rn_store r), rn_store r) = (live, rn_store r1)"
    by (rule call_cases[OF env])
  then show ?thesis
  proof cases
    case raised
    then have e: "entry = applied_entry ?c p0 []" "r' = r1"
      using run by (simp_all add: apply_group_def p0_def)
    show ?thesis unfolding e using idle[OF raised(2)] entry(3) by blast
  next
    case answered
    then have same: "rn_store r1 = rn_store r" by simp
    show ?thesis
    proof (cases "exact \<and> \<not> require_plan_matches_store [g] live")
      case True
      then have e: "entry = applied_entry ?c p0 []" "r' = r1"
        using run answered(1) by (simp_all add: apply_group_def p0_def)
      show ?thesis unfolding e using idle[OF same] entry(3) by blast
    next
      case False
      obtain ok1 p where p: "apply_aliases env exact ?c (tg_aliases g) (p0\<lparr>gp_live := live, gp_run := r1\<rparr>) = (ok1, p)"
        by fastforce
      have "explained s0 L T ?c (p0\<lparr>gp_live := live, gp_run := r1\<rparr>)"
        using ex same by (simp add: explained_def group_log_def p0_def)
      from apply_aliases_explained[OF env vals c this, of exact] p
      have ex1: "explained s0 L T ?c p" by simp
      note body = run[unfolded apply_group_def Let_def, folded p0_def, unfolded answered(1) prod.case option.case]
      show ?thesis
      proof (cases "ok1 \<and> gp_backfill p \<noteq> []")
        case f: False
        then have e: "entry = applied_entry ?c p []" "r' = gp_run p"
          using body False p by (auto split: if_splits bool.splits)
        show ?thesis unfolding e entry using ex1 by (simp add: explained_def)
      next
        case t: True
        consider (raised) r2 where
            "call env (add_tag_to_segments_with_tags ?c (gp_backfill p)) (gp_run p) = (None, r2)" "rn_store r2 = rn_store (gp_run p)"
          | (answered) refs r2 where
            "call env (add_tag_to_segments_with_tags ?c (gp_backfill p)) (gp_run p) = (Some refs, r2)"
            "add_tag_to_segments_with_tags ?c (gp_backfill p) (rn_store (gp_run p)) = (refs, rn_store r2)"
          by (rule call_cases[OF env])
        then show ?thesis
        proof cases
          case raised
          then have e: "entry = applied_entry ?c p []" "r' = r2" using body False p t by auto
          show ?thesis unfolding e entry using ex1 raised(2) by (simp add: explained_def)
        next
          case answered
          then have e: "entry = applied_entry ?c p refs" "r' = r2" using body False p t by auto
          have "explains s0 (L @ group_log ?c p) (T @ map (\<lambda>r. (r, ?c)) refs) (rn_store r2)"
            by (rule add_tags_explains[OF ex1[unfolded explained_def] answered(2)])
          then show ?thesis unfolding e entry by simp
        qed
      qed
    qed
  qed
qed

lemma alias_log_values: "(k, p, v) \<in> set (alias_log es) \<Longrightarrow> v \<in> ap_canonical ` set es"
  by (auto simp: alias_log_def)

lemma apply_loop_explained:
  assumes env: "undisturbed env" and clean: "\<forall>g\<in>set gs. tg_canonical g \<in> C \<and> set (tg_aliases g) \<inter> C = {}"
    and ex: "explains s0 (alias_log (ar_applied res)) (tag_log (ar_applied res)) (rn_store r)"
    and names: "ap_canonical ` set (ar_applied res) \<subseteq> C"
    and run: "apply_loop env notify exact gs res r = (x, r')"
  shows "explains s0 (alias_log (recorded x)) (tag_log (recorded x)) (rn_store r') \<and> ap_canonical ` set (recorded x) \<subseteq> C"
  using clean ex names run
proof (induction gs arbitrary: res r)
  case Nil
  then show ?case by (auto simp: recorded_def)
next
  case (Cons g gs)
  obtain ok entry skipped r1 where g: "apply_group env exact g r = (ok, entry, skipped, r1)" by (cases "apply_group env exact g r")
  have vals: "\<forall>(k, p, v) \<in> set (alias_log (ar_applied res)). v \<in> C"
    using alias_log_values Cons.prems(3) by blast
  have step: "explains s0 (alias_log (ar_applied res @ [entry])) (tag_log (ar_applied res @ [entry])) (rn_store r1)"
    "ap_canonical entry = tg_canonical g"
    unfolding log_simps(5,6) using apply_group_explained[OF env vals _ _ Cons.prems(2) g] Cons.prems(1) by auto
  have names1: "ap_canonical ` set (ar_applied res @ [entry]) \<subseteq> C" using Cons.prems(1,3) step(2) by simp
  show ?case
  proof (cases "ok \<and> notify entry")
    case False
    then have "x = Inl (ApplyError (ar_applied res @ [entry]))" "r' = r1"
      using Cons.prems(4) g by (auto simp: Let_def split: if_splits bool.splits)
    then show ?thesis using step(1) names1 by (simp add: recorded_def del: log_simps)
  next
    case True
    define res1 where "res1 = res\<lparr>ar_written := ar_written res + length (ap_written entry),
       ar_tags := ar_tags res + length (ap_refs entry), ar_applied := ar_applied res @ [entry],
       ar_skipped := ar_skipped res @ skipped\<rparr>"
    have res1: "ar_applied res1 = ar_applied res @ [entry]" by (simp add: res1_def)
    have rest: "apply_loop env notify exact gs res1 r1 = (x, r')"
      using Cons.prems(4) g True by (simp add: Let_def res1_def)
    show ?thesis
      by (rule Cons.IH[OF _ _ _ rest]) (use Cons.prems(1) step(1) names1 in \<open>simp_all add: res1 del: log_simps\<close>)
  qed
qed


section \<open>Other writers\<close>

text \<open>A step from \<open>s\<close> to \<open>s'\<close> that only changes mappings the entries recorded and still find as written.\<close>

definition spares :: "applied list \<Rightarrow> alias_store \<Rightarrow> alias_store \<Rightarrow> bool" where
  "spares es s s' \<longleftrightarrow> as_global s' = as_global s \<and>
     (\<forall>k. map_of (as_local s') k \<noteq> map_of (as_local s) k \<longrightarrow>
        (\<exists>e\<in>set es. map_of (as_local s) k = Some (ap_canonical e)
                   \<and> (k \<in> set (ap_written e) \<or> k \<in> fst ` set (ap_rewritten e))))"

lemma spares_refl: "spares es s s"
  by (simp add: spares_def)

lemma spares_trans:
  assumes "spares es s s1" "spares es s1 s2" shows "spares es s s2"
  using assms unfolding spares_def by metis

lemma spares_mono: "spares es s s' \<Longrightarrow> set es \<subseteq> set fs \<Longrightarrow> spares fs s s'"
  unfolding spares_def by blast

lemma spares_same: "as_global s' = as_global s \<Longrightarrow> as_local s' = as_local s \<Longrightarrow> spares es s s'"
  by (simp add: spares_def)

lemma delete_spares:
  assumes "a \<in> set (ap_written e)"
  shows "spares [e] s (snd (delete_tag_alias a (ap_canonical e) s))"
  using assms by (auto simp: spares_def delete_tag_alias_def delete_conv' split: if_splits)

lemma restore_spares:
  assumes "(d, p) \<in> set (ap_rewritten e)"
  shows "spares [e] s (snd (rebind_tag_alias d (ap_canonical e) p s))"
proof -
  have "d \<in> fst ` set (ap_rewritten e)" using assms by force
  then show ?thesis by (auto simp: spares_def rebind_tag_alias_def update_conv' split: if_splits)
qed

lemma revert_written_spares:
  "set as \<subseteq> set (ap_written e) \<Longrightarrow> spares [e] s (snd (revert_written (ap_canonical e) as n s))"
proof (induction as arbitrary: n s)
  case (Cons a as)
  obtain k s1 where d: "delete_tag_alias a (ap_canonical e) s = (k, s1)" by fastforce
  have "spares [e] s s1" using delete_spares[of a e s] Cons.prems d by simp
  moreover have "spares [e] s1 (snd (revert_written (ap_canonical e) as m s1))" for m
    using Cons by simp
  ultimately show ?case using spares_trans d by simp
qed (simp add: spares_refl)

lemma revert_rewritten_spares:
  "set as \<subseteq> set (ap_rewritten e) \<Longrightarrow> spares [e] s (snd (revert_rewritten (ap_canonical e) as n s))"
proof (induction as arbitrary: n s)
  case (Cons x as)
  obtain d p where x: "x = (d, p)" by fastforce
  obtain k s1 where d: "rebind_tag_alias d (ap_canonical e) p s = (k, s1)" by fastforce
  have "spares [e] s s1" using restore_spares[of d p e s] Cons.prems d x by simp
  moreover have "spares [e] s1 (snd (revert_rewritten (ap_canonical e) as m s1))" for m
    using Cons by simp
  ultimately show ?case using spares_trans d x by simp
qed (simp add: spares_refl)

lemma revert_entry_spares: "spares [e] s (snd (revert_entry e n s))"
proof -
  obtain k s1 where s1: "(if ap_canonical e \<noteq> [] \<and> ap_refs e \<noteq> []
      then remove_tag_from_segments (ap_canonical e) (ap_refs e) s else (0, s)) = (k, s1)" by fastforce
  have "as_local s1 = as_local s \<and> as_global s1 = as_global s"
    using s1 by (auto simp: remove_tag_from_segments_def Let_def split: if_splits)
  then have 1: "spares [e] s s1" by (simp add: spares_same)
  obtain n2 s2 where s2: "revert_written (ap_canonical e) (ap_written e)
      (n\<lparr>rc_tags_removed := rc_tags_removed n + k\<rparr>) s1 = (n2, s2)" by fastforce
  have 2: "spares [e] s1 s2" using revert_written_spares[of "ap_written e" e s1] s2 by (metis order_refl snd_conv)
  have 3: "spares [e] s2 (snd (revert_rewritten (ap_canonical e) (ap_rewritten e) n2 s2))"
    by (rule revert_rewritten_spares) simp
  show ?thesis unfolding revert_entry_def s1 Let_def prod.case s2 using spares_trans[OF spares_trans[OF 1 2] 3] .
qed

lemma revert_loop_spares: "spares es s (snd (revert_loop es n s))"
proof (induction es arbitrary: n s)
  case (Cons e es)
  obtain n1 s1 where e: "revert_entry e n s = (n1, s1)" by fastforce
  have "spares (e # es) s s1" using revert_entry_spares[of e s n] e by (auto intro: spares_mono)
  moreover have "spares (e # es) s1 (snd (revert_loop es n1 s1))" using Cons.IH by (rule spares_mono) auto
  ultimately show ?case using spares_trans e by simp
qed (simp add: spares_refl)

text \<open>A revert never touches another writer's mapping.  In any store, reached by any
  interleaving after the run, an alias whose mapping the revert changes is one the run recorded
  and one that still maps to the canonical the run gave it; the global scope is never changed.\<close>

theorem revert_spares_other_writers:
  "as_global (snd (revert_consolidation es s)) = as_global s \<and>
   {k. map_of (as_local (snd (revert_consolidation es s))) k \<noteq> map_of (as_local s) k}
     \<subseteq> {k. \<exists>e\<in>set es. map_of (as_local s) k = Some (ap_canonical e)
                       \<and> (k \<in> set (ap_written e) \<or> k \<in> fst ` set (ap_rewritten e))}"
  using revert_loop_spares[of es s] unfolding spares_def revert_consolidation_def by blast

section \<open>A plan that a global alias blocks\<close>

definition demo_tags :: alias_store where
  "demo_tags = \<lparr>as_global = [], as_local = [(''kit'', ''model'')], as_segments = [''s1'', ''s2''],
     as_tags = [(''s1'', ''model''), (''s2'', ''kit''), (''s2'', ''scale'')]\<rparr>"

definition demo_plan :: "tag_group list" where
  "demo_plan = [\<lparr>tg_canonical = ''scale'', tg_aliases = [''model'', ''train''], tg_reason = []\<rparr>]"

lemma demo_plan_clean: "plan_clean demo_plan"
  by (simp add: plan_clean_def demo_plan_def)


text \<open>A reviewed plan cannot be applied when an alias of the global scope points at one of
  its aliases, even in a store nobody else writes to: the live map shows the global row, the
  compare-and-swap looks for it in the conversation's scope, and the run stops with the message
  that the alias changed concurrently.\<close>

theorem global_alias_blocks_exact_plan:
  "apply_groups (\<lambda>_. Some) (\<lambda>_. True) False True demo_plan
       (demo_tags\<lparr>as_global := [(''kit'', ''model'')], as_local := []\<rparr>)
     = (Inl (ApplyError [\<lparr>ap_canonical = ''scale'', ap_written = [], ap_rewritten = [], ap_refs = []\<rparr>]),
        demo_tags\<lparr>as_global := [(''kit'', ''model'')], as_local := []\<rparr>)"
  unfolding demo_tags_def demo_plan_def by code_simp

end
