(* ===== verification/ConsolidationMerge.thy ===== *)
theory ConsolidationMerge
  imports ConsolidationProps
begin

text \<open>
  Merging groups transitively: the union-find structure represents the tags linked by the groups,
  so the merged groups are the connected components, disjoint, each under its best canonical.
\<close>

section \<open>Union-find\<close>

definition root_of :: "(string \<Rightarrow> string) \<Rightarrow> string \<Rightarrow> string \<Rightarrow> bool" where
  "root_of parent x r \<longleftrightarrow> parent r = r \<and> (\<exists>k. (parent ^^ k) x = r)"

text \<open>Parents climb in some rank, within the tags \<open>V\<close>.\<close>

definition ranked :: "string set \<Rightarrow> (string \<Rightarrow> nat) \<Rightarrow> (string \<Rightarrow> string) \<Rightarrow> bool" where
  "ranked V rk parent \<longleftrightarrow> finite V \<and> (\<forall>x. parent x \<noteq> x \<longrightarrow> x \<in> V \<and> parent x \<in> V \<and> rk x < rk (parent x))"

lemma funpow_root: "parent r = r \<Longrightarrow> (parent ^^ j) r = r"
  by (induction j) auto

lemma root_of_unique:
  assumes "root_of parent x r" "root_of parent x s" shows "r = s"
proof -
  obtain j k where j: "(parent ^^ j) x = r" "parent r = r" and k: "(parent ^^ k) x = s" "parent s = s"
    using assms by (auto simp: root_of_def)
  have "(parent ^^ (k + j)) x = r" by (simp add: funpow_add j funpow_root)
  moreover have "(parent ^^ (k + j)) x = (parent ^^ (j + k)) x" by (simp add: add.commute)
  moreover have "(parent ^^ (j + k)) x = s" by (simp add: funpow_add k funpow_root)
  ultimately show ?thesis by simp
qed

lemma root_of_step: "root_of parent (parent x) r \<longleftrightarrow> root_of parent x r"
proof
  assume "root_of parent (parent x) r"
  then obtain k where "parent r = r" "(parent ^^ k) (parent x) = r" by (auto simp: root_of_def)
  then have "(parent ^^ Suc k) x = r" by (simp add: funpow_swap1)
  then show "root_of parent x r" using \<open>parent r = r\<close> unfolding root_of_def by blast
next
  assume "root_of parent x r"
  then obtain k where k: "parent r = r" "(parent ^^ k) x = r" by (auto simp: root_of_def)
  have "(parent ^^ k) (parent x) = parent ((parent ^^ k) x)" by (simp add: funpow_swap1)
  then show "root_of parent (parent x) r" using k unfolding root_of_def by auto
qed

lemma rank_mono:
  assumes "ranked V rk parent" shows "rk x \<le> rk ((parent ^^ j) x)"
proof (induction j)
  case (Suc j)
  have "rk y \<le> rk (parent y)" for y using assms by (cases "parent y = y") (auto simp: ranked_def less_imp_le)
  then show ?case using Suc le_trans by fastforce
qed simp

text \<open>A root is reached within as many steps as there are tags.\<close>

lemma root_reached:
  assumes R: "ranked V rk parent"
  shows "\<exists>k\<le>card V. parent ((parent ^^ k) x) = (parent ^^ k) x"
proof (rule ccontr)
  let ?y = "\<lambda>k. (parent ^^ k) x"
  assume "\<not> ?thesis"
  then have no: "parent (?y k) \<noteq> ?y k" if "k \<le> card V" for k using that by blast
  have inV: "?y k \<in> V" and up: "rk (?y k) < rk (?y (Suc k))" if "k \<le> card V" for k
    using no[OF that] R by (auto simp: ranked_def)
  have less: "rk (?y i) < rk (?y j)" if "i < j" "j \<le> card V" for i j
    using that
  proof (induction j)
    case (Suc j)
    have "rk (?y j) < rk (?y (Suc j))" using up[of j] Suc.prems by simp
    then show ?case using Suc by (cases "i = j") force+
  qed simp
  have "inj_on ?y {..card V}"
  proof (rule inj_onI)
    fix i j assume "i \<in> {..card V}" "j \<in> {..card V}" "?y i = ?y j"
    then show "i = j" using less[of i j] less[of j i] by (cases i j rule: linorder_cases) auto
  qed
  moreover have "?y ` {..card V} \<subseteq> V" using inV by auto
  moreover have "finite V" using R by (simp add: ranked_def)
  ultimately have "card {..card V} \<le> card V" by (metis card_inj_on_le)
  then show False by simp
qed

lemma root_of_ex: "ranked V rk parent \<Longrightarrow> \<exists>r. root_of parent x r"
  using root_reached unfolding root_of_def by metis

lemma root_in: "ranked V rk parent \<Longrightarrow> root_of parent x r \<Longrightarrow> x \<in> V \<Longrightarrow> r \<in> V"
proof -
  assume R: "ranked V rk parent" "root_of parent x r" "x \<in> V"
  have "(parent ^^ k) x \<in> V" for k
  proof (induction k)
    case (Suc k)
    then show ?case using R(1) by (cases "parent ((parent ^^ k) x) = (parent ^^ k) x") (auto simp: ranked_def)
  qed (simp add: R(3))
  then show "r \<in> V" using R(2) by (auto simp: root_of_def)
qed

text \<open>One halving step changes no root.\<close>

lemma halving:
  assumes R: "ranked V rk parent" and x: "parent x \<noteq> x"
  defines "parent' \<equiv> parent(x := parent (parent x))"
  shows "ranked V rk parent'" "root_of parent' y s \<longleftrightarrow> root_of parent y s"
    "(parent' ^^ j) (parent (parent x)) = (parent ^^ j) (parent (parent x))"
proof -
  have step: "rk z \<le> rk (parent z)" for z using R by (cases "parent z = z") (auto simp: ranked_def less_imp_le)
  have px: "x \<in> V" "parent x \<in> V" "rk x < rk (parent x)" using R x by (auto simp: ranked_def)
  then have ppx: "rk x < rk (parent (parent x))" using step[of "parent x"] by linarith
  have "parent (parent x) \<in> V" using R px(2) by (cases "parent (parent x) = parent x") (auto simp: ranked_def)
  then show R': "ranked V rk parent'" using R px(1) ppx by (auto simp: ranked_def parent'_def)
  have two: "\<exists>j. (parent' ^^ k) z = (parent ^^ j) z" for k z
  proof (induction k)
    case (Suc k)
    then obtain j where j: "(parent' ^^ k) z = (parent ^^ j) z" by blast
    have "parent' ((parent ^^ j) z) \<in> {(parent ^^ Suc j) z, (parent ^^ Suc (Suc j)) z}" by (simp add: parent'_def)
    then show ?case using j by (metis funpow.simps(2) comp_apply insertE singletonD)
  qed (metis funpow_0)
  have still: "parent' s = s \<Longrightarrow> parent s = s" for s
    using ppx by (cases "s = x") (auto simp: parent'_def)
  have sub: "root_of parent' y s \<Longrightarrow> root_of parent y s" for y s
    using two still unfolding root_of_def by metis
  show "root_of parent' y s \<longleftrightarrow> root_of parent y s"
    using sub root_of_unique root_of_ex[OF R'] by metis
  show "(parent' ^^ j) (parent (parent x)) = (parent ^^ j) (parent (parent x))"
  proof (induction j)
    case (Suc j)
    have "(parent ^^ j) (parent (parent x)) \<noteq> x"
      using rank_mono[OF R, of "parent (parent x)" j] ppx by auto
    then show ?case using Suc by (simp add: parent'_def)
  qed simp
qed

lemma uf_find_ok:
  assumes "ranked V rk parent" "\<exists>k\<le>n. parent ((parent ^^ k) x) = (parent ^^ k) x"
  shows "\<exists>r parent'. uf_find n parent x = (r, parent') \<and> root_of parent x r \<and> ranked V rk parent'
     \<and> (\<forall>y s. root_of parent' y s \<longleftrightarrow> root_of parent y s)"
  using assms
proof (induction n arbitrary: parent x)
  case 0
  then have "parent x = x" by auto
  then have "root_of parent x x" unfolding root_of_def by (metis funpow_0)
  then show ?case using 0(1) by simp
next
  case (Suc n)
  show ?case
  proof (cases "parent x = x")
    case True
    then have "root_of parent x x" unfolding root_of_def by (metis funpow_0)
    then show ?thesis using Suc.prems(1) True by simp
  next
    case False
    define parent1 where "parent1 = parent(x := parent (parent x))"
    note H = halving[OF Suc.prems(1) False, folded parent1_def]
    let ?x = "parent (parent x)"
    obtain k where k: "k \<le> Suc n" "parent ((parent ^^ k) x) = (parent ^^ k) x" using Suc.prems(2) by blast
    have k0: "k \<noteq> 0" using k(2) False by (metis funpow_0)
    have "(parent ^^ (k - 1)) ?x = (parent ^^ k) (parent x)"
      using k0 by (cases k) (simp_all add: funpow_swap1)
    also have "\<dots> = parent ((parent ^^ k) x)" by (simp add: funpow_swap1)
    finally have end0: "(parent ^^ (k - 1)) ?x = (parent ^^ k) x" using k(2) by simp
    have "parent ((parent ^^ (k - 1)) ?x) = (parent ^^ (k - 1)) ?x" unfolding end0 by (rule k(2))
    then have "(parent ^^ Suc (k - 1)) ?x = (parent ^^ (k - 1)) ?x" by (simp only: funpow.simps comp_apply)
    then have "(parent1 ^^ Suc (k - 1)) ?x = (parent1 ^^ (k - 1)) ?x" unfolding H(3) .
    then have "parent1 ((parent1 ^^ (k - 1)) ?x) = (parent1 ^^ (k - 1)) ?x" by (simp only: funpow.simps comp_apply)
    then have "\<exists>k\<le>n. parent1 ((parent1 ^^ k) ?x) = (parent1 ^^ k) ?x"
      using k(1) by (intro exI[of _ "k - 1"]) auto
    from Suc.IH[OF H(1) this] obtain r parent' where r: "uf_find n parent1 ?x = (r, parent')" "root_of parent1 ?x r"
        "ranked V rk parent'" "\<forall>y s. root_of parent' y s \<longleftrightarrow> root_of parent1 y s" by blast
    have "uf_find (Suc n) parent x = (r, parent')" using False r(1) by (simp add: parent1_def Let_def)
    moreover have "root_of parent x r" using r(2) H(2) root_of_step by metis
    ultimately show ?thesis using r(3,4) H(2) by blast
  qed
qed

definition same :: "(string \<Rightarrow> string) \<Rightarrow> string \<Rightarrow> string \<Rightarrow> bool" where
  "same parent x y \<longleftrightarrow> (\<exists>r. root_of parent x r \<and> root_of parent y r)"

text \<open>Hanging one root under another.\<close>

lemma link_roots:
  assumes R: "ranked V rk parent" and a: "parent ra = ra" "ra \<in> V" and b: "parent rb = rb" "rb \<in> V" and ne: "ra \<noteq> rb"
  defines "parent' \<equiv> parent(ra := rb)"
  shows "\<exists>rk'. ranked V rk' parent'"
    and "root_of parent' y s \<longleftrightarrow> (if root_of parent y ra then s = rb else root_of parent y s)"
proof -
  have self: "root_of parent ra ra" "root_of parent rb rb" using a(1) b(1) unfolding root_of_def by (metis funpow_0)+
  then have ra_rb: "\<not> root_of parent ra rb" using root_of_unique ne by blast
  define rk' where "rk' z = (if root_of parent z rb then rk z + rk ra + 1 else rk z)" for z
  have "parent' z \<noteq> z \<Longrightarrow> z \<in> V \<and> parent' z \<in> V \<and> rk' z < rk' (parent' z)" for z
  proof (cases "z = ra")
    case True
    then show ?thesis using ra_rb self a b by (simp add: parent'_def rk'_def)
  next
    case False
    assume "parent' z \<noteq> z"
    then have z: "parent z \<noteq> z" using False by (simp add: parent'_def)
    then have "z \<in> V \<and> parent z \<in> V \<and> rk z < rk (parent z)" using R by (simp add: ranked_def)
    moreover have "root_of parent (parent z) rb \<longleftrightarrow> root_of parent z rb" by (rule root_of_step)
    ultimately show ?thesis using False by (simp add: parent'_def rk'_def)
  qed
  then have R': "ranked V rk' parent'" using R by (simp add: ranked_def)
  then show "\<exists>rk'. ranked V rk' parent'" by blast
  have to_ra: "(parent ^^ k) z = ra \<Longrightarrow> \<exists>j. (parent' ^^ j) z = ra" for k z
  proof (induction k arbitrary: z)
    case 0
    then show ?case by (metis funpow_0)
  next
    case (Suc k)
    show ?case
    proof (cases "z = ra")
      case True
      then show ?thesis by (metis funpow_0)
    next
      case False
      have "(parent ^^ k) (parent z) = ra" using Suc.prems by (simp add: funpow_swap1)
      then obtain j where "(parent' ^^ j) (parent z) = ra" using Suc.IH by blast
      moreover have "(parent' ^^ Suc j) z = (parent' ^^ j) (parent' z)" by (simp add: funpow_swap1)
      ultimately have "(parent' ^^ Suc j) z = ra" using False by (simp add: parent'_def)
      then show ?thesis by blast
    qed
  qed
  have other: "(parent ^^ k) z = r \<Longrightarrow> r \<noteq> ra \<Longrightarrow> (parent' ^^ k) z = r" for k z r
  proof (induction k arbitrary: z)
    case (Suc k)
    have "z \<noteq> ra" using Suc.prems funpow_root[of parent ra "Suc k"] a(1) by auto
    then have "(parent' ^^ Suc k) z = (parent' ^^ k) (parent z)"
      by (simp add: funpow_Suc_right parent'_def del: funpow.simps)
    moreover have "(parent ^^ k) (parent z) = r"
      using Suc.prems(1) by (simp add: funpow_Suc_right del: funpow.simps)
    ultimately show ?case using Suc.IH Suc.prems(2) by metis
  qed simp
  have hit: "root_of parent' y rb" if "root_of parent y ra"
  proof -
    obtain k where "(parent ^^ k) y = ra" using \<open>root_of parent y ra\<close> by (auto simp: root_of_def)
    then obtain j where "(parent' ^^ j) y = ra" using to_ra by blast
    then have "(parent' ^^ Suc j) y = rb" by (simp add: parent'_def)
    moreover have "parent' rb = rb" using b(1) ne by (simp add: parent'_def)
    ultimately show ?thesis unfolding root_of_def by blast
  qed
  have miss: "root_of parent' y r" if "root_of parent y r" "r \<noteq> ra" for r
    using that other unfolding root_of_def by (auto simp: parent'_def)
  show "root_of parent' y s \<longleftrightarrow> (if root_of parent y ra then s = rb else root_of parent y s)"
  proof (cases "root_of parent y ra")
    case True
    then show ?thesis using hit root_of_unique by metis
  next
    case False
    obtain r where r: "root_of parent y r" using root_of_ex[OF R] by blast
    then have "r \<noteq> ra" using False by blast
    then show ?thesis using False miss[OF r] r root_of_unique by metis
  qed
qed

lemma same_roots: "(\<And>y s. root_of p y s \<longleftrightarrow> root_of q y s) \<Longrightarrow> same p x y \<longleftrightarrow> same q x y"
  by (simp add: same_def)

lemma uf_union_ok:
  assumes R: "ranked V rk parent" and V: "a \<in> V" "b \<in> V" "card V \<le> n"
  shows "\<exists>rk'. ranked V rk' (uf_union n a b parent)"
    and "same (uf_union n a b parent) x y \<longleftrightarrow>
      same parent x y \<or> same parent x a \<and> same parent b y \<or> same parent x b \<and> same parent a y"
proof -
  have enough: "\<exists>k\<le>n. p ((p ^^ k) z) = (p ^^ k) z" if "ranked V rk p" for p z
    using root_reached[OF that, of z] V(3) le_trans by blast
  obtain ra p1 where 1: "uf_find n parent a = (ra, p1)" "root_of parent a ra" "ranked V rk p1"
      "\<And>y s. root_of p1 y s \<longleftrightarrow> root_of parent y s" using uf_find_ok[OF R enough[OF R]] by blast
  obtain rb p2 where 2: "uf_find n p1 b = (rb, p2)" "root_of p1 b rb" "ranked V rk p2"
      "\<And>y s. root_of p2 y s \<longleftrightarrow> root_of p1 y s" using uf_find_ok[OF 1(3) enough[OF 1(3)]] by blast
  have roots: "root_of p2 y s \<longleftrightarrow> root_of parent y s" for y s using 1(4) 2(4) by simp
  have b: "root_of parent b rb" using 2(2) 1(4) by simp
  have res: "uf_union n a b parent = (if ra \<noteq> rb then p2(ra := rb) else p2)"
    by (simp add: uf_union_def 1(1) 2(1))
  have same_a: "same parent x a \<longleftrightarrow> root_of parent x ra" and same_b: "same parent x b \<longleftrightarrow> root_of parent x rb"
    and a_same: "same parent a y \<longleftrightarrow> root_of parent y ra" and b_same: "same parent b y \<longleftrightarrow> root_of parent y rb" for x y
    using 1(2) b root_of_unique unfolding same_def by blast+
  show "\<exists>rk'. ranked V rk' (uf_union n a b parent)"
    and "same (uf_union n a b parent) x y \<longleftrightarrow>
      same parent x y \<or> same parent x a \<and> same parent b y \<or> same parent x b \<and> same parent a y"
  proof -
    show "\<exists>rk'. ranked V rk' (uf_union n a b parent)"
    proof (cases "ra = rb")
      case False
      have "p2 ra = ra" "p2 rb = rb" using 1(2) b roots unfolding root_of_def by blast+
      then show ?thesis using False link_roots(1)[OF 2(3)] root_in[OF R 1(2) V(1)] root_in[OF R b V(2)]
        by (simp add: res)
    qed (use res 2(3) in auto)
    show "same (uf_union n a b parent) x y \<longleftrightarrow>
      same parent x y \<or> same parent x a \<and> same parent b y \<or> same parent x b \<and> same parent a y"
    proof (cases "ra = rb")
      case True
      then have "same (uf_union n a b parent) x y \<longleftrightarrow> same parent x y"
        unfolding res using roots by (simp add: same_def)
      then show ?thesis unfolding same_a same_b a_same b_same using True by (auto simp: same_def)
    next
      case False
      have fixed: "p2 ra = ra" "p2 rb = rb" using 1(2) b roots unfolding root_of_def by blast+
      have new: "root_of (uf_union n a b parent) z s \<longleftrightarrow> (if root_of parent z ra then s = rb else root_of parent z s)" for z s
        using link_roots(2)[OF 2(3) fixed(1) root_in[OF R 1(2) V(1)] fixed(2) root_in[OF R b V(2)] False]
        unfolding res roots using False by simp
      obtain rx ry where "root_of parent x rx" "root_of parent y ry" using root_of_ex[OF R] by blast
      then have *: "root_of parent x s \<longleftrightarrow> s = rx" "root_of parent y s \<longleftrightarrow> s = ry" for s
        using root_of_unique by blast+
      show ?thesis unfolding same_a same_b a_same b_same unfolding same_def new * using False by auto
    qed
  qed
qed

section \<open>The tags the groups link\<close>

definition pair_linked :: "(string \<times> string) list \<Rightarrow> string \<Rightarrow> string \<Rightarrow> bool" where
  "pair_linked ps t u \<longleftrightarrow> (t, u) \<in> set ps \<or> (u, t) \<in> set ps"

abbreviation linked_by :: "(string \<times> string) list \<Rightarrow> string \<Rightarrow> string \<Rightarrow> bool" where
  "linked_by ps \<equiv> (pair_linked ps)\<^sup>*\<^sup>*"

text \<open>Two tags are linked when a chain of groups leads from one to the other.\<close>

definition linked :: "tag_group list \<Rightarrow> string \<Rightarrow> string \<Rightarrow> bool" where
  "linked groups = (\<lambda>t u. \<exists>g\<in>set groups. t \<in> set (tg_canonical g # tg_aliases g)
                                      \<and> u \<in> set (tg_canonical g # tg_aliases g))\<^sup>*\<^sup>*"

lemma linked_by_sym: "linked_by ps x y \<Longrightarrow> linked_by ps y x"
proof (induction rule: rtranclp_induct)
  case (step y z)
  then have "pair_linked ps z y" by (auto simp: pair_linked_def)
  then show ?case using step.IH by (rule converse_rtranclp_into_rtranclp)
qed simp

lemma linked_by_mono: "linked_by ps x y \<Longrightarrow> set ps \<subseteq> set qs \<Longrightarrow> linked_by qs x y"
  by (erule rtranclp_mono[THEN predicate2D, rotated]) (auto simp: pair_linked_def)

lemma linked_by_snoc:
  "linked_by (ps @ [(a, b)]) x y \<longleftrightarrow>
     linked_by ps x y \<or> linked_by ps x a \<and> linked_by ps b y \<or> linked_by ps x b \<and> linked_by ps a y"
proof
  assume "linked_by (ps @ [(a, b)]) x y"
  then show "linked_by ps x y \<or> linked_by ps x a \<and> linked_by ps b y \<or> linked_by ps x b \<and> linked_by ps a y"
  proof (induction rule: rtranclp_induct)
    case (step y z)
    consider "pair_linked ps y z" | "y = a \<and> z = b" | "y = b \<and> z = a"
      using step.hyps(2) by (auto simp: pair_linked_def)
    then show ?case
    proof cases
      case 1
      then show ?thesis using step.IH by (meson rtranclp.rtrancl_into_rtrancl)
    qed (use step.IH in auto)
  qed simp
next
  have up: "linked_by ps u v \<Longrightarrow> linked_by (ps @ [(a, b)]) u v" for u v by (rule linked_by_mono) auto
  have ab: "linked_by (ps @ [(a, b)]) a b" "linked_by (ps @ [(a, b)]) b a"
    by (auto simp: pair_linked_def intro!: r_into_rtranclp)
  assume "linked_by ps x y \<or> linked_by ps x a \<and> linked_by ps b y \<or> linked_by ps x b \<and> linked_by ps a y"
  then show "linked_by (ps @ [(a, b)]) x y"
    using up ab by (meson rtranclp_trans)
qed

definition group_pairs :: "tag_group list \<Rightarrow> (string \<times> string) list" where
  "group_pairs groups = concat (map (\<lambda>g. map (\<lambda>a. (a, tg_canonical g)) (tg_aliases g)) groups)"

lemma union_all_pairs: "union_all n groups = fold (\<lambda>(a, c). uf_union n a c) (group_pairs groups) (\<lambda>x. x)"
proof -
  have "fold (\<lambda>g parent. fold (\<lambda>a. uf_union n a (tg_canonical g)) (tg_aliases g) parent) groups p
      = fold (\<lambda>(a, c). uf_union n a c) (group_pairs groups) p" for p
    by (induction groups arbitrary: p) (simp_all add: group_pairs_def fold_map comp_def)
  then show ?thesis by (simp add: union_all_def)
qed

lemma in_group_pairs:
  "(a, c) \<in> set (group_pairs groups) \<longleftrightarrow> (\<exists>g\<in>set groups. c = tg_canonical g \<and> a \<in> set (tg_aliases g))"
  by (auto simp: group_pairs_def)

lemma linked_pairs: "linked groups t u \<longleftrightarrow> linked_by (group_pairs groups) t u"
proof
  assume "linked groups t u"
  then show "linked_by (group_pairs groups) t u"
    unfolding linked_def
  proof (induction rule: rtranclp_induct)
    case (step y z)
    then obtain g where g: "g \<in> set groups" "y \<in> set (tg_canonical g # tg_aliases g)"
        "z \<in> set (tg_canonical g # tg_aliases g)" by blast
    have "linked_by (group_pairs groups) v (tg_canonical g)" if "v \<in> set (tg_canonical g # tg_aliases g)" for v
    proof (cases "v = tg_canonical g")
      case False
      then have "pair_linked (group_pairs groups) v (tg_canonical g)"
        using that g(1) in_group_pairs by (auto simp: pair_linked_def)
      then show ?thesis by (rule r_into_rtranclp)
    qed simp
    then have "linked_by (group_pairs groups) y z" using g(2,3) linked_by_sym by (meson rtranclp_trans)
    then show ?case using step.IH by (meson rtranclp_trans)
  qed simp
next
  assume "linked_by (group_pairs groups) t u"
  then show "linked groups t u" unfolding linked_def
    by (rule rtranclp_mono[THEN predicate2D, rotated]) (auto simp: pair_linked_def in_group_pairs)
qed

text \<open>The structure after all unions represents the linked tags.\<close>

lemma fold_union_ok:
  assumes "\<forall>(a, c)\<in>set ps. a \<in> V \<and> c \<in> V" "finite V" "card V \<le> n"
  shows "(\<exists>rk. ranked V rk (fold (\<lambda>(a, c). uf_union n a c) ps (\<lambda>x. x)))
     \<and> (\<forall>x y. same (fold (\<lambda>(a, c). uf_union n a c) ps (\<lambda>x. x)) x y \<longleftrightarrow> linked_by ps x y)"
  using assms(1)
proof (induction ps rule: rev_induct)
  case Nil
  have "root_of (\<lambda>x. x) x r \<longleftrightarrow> r = x" for x r
  proof -
    have "((\<lambda>x. x) ^^ k) x = x" for k by (induction k) auto
    then show ?thesis by (auto simp: root_of_def)
  qed
  moreover have "linked_by [] x y \<longleftrightarrow> x = y" for x y
    by (auto simp: pair_linked_def elim: converse_rtranclpE)
  ultimately show ?case using assms(2) by (auto simp: ranked_def same_def)
next
  case (snoc p ps)
  obtain a c where p: "p = (a, c)" by fastforce
  let ?q = "fold (\<lambda>(a, c). uf_union n a c) ps (\<lambda>x. x)"
  obtain rk where rk: "ranked V rk ?q" and eq: "\<And>x y. same ?q x y \<longleftrightarrow> linked_by ps x y"
    using snoc by auto
  have ac: "a \<in> V" "c \<in> V" using snoc.prems by (auto simp: p)
  show ?case using uf_union_ok[OF rk ac assms(3)] by (simp add: p eq linked_by_snoc)
qed

section \<open>The merged groups\<close>

lemma collect_clusters_ok:
  assumes "ranked V rk p" "card V \<le> n" "\<And>x. root_of p x (rt x)"
  shows "\<exists>q. collect_clusters n ts p m = (fold (\<lambda>t m. setdefault_append m (rt t) t) ts m, q)
     \<and> ranked V rk q \<and> (\<forall>y s. root_of q y s \<longleftrightarrow> root_of p y s)"
  using assms
proof (induction ts arbitrary: p m)
  case (Cons t ts)
  have "\<exists>k\<le>n. p ((p ^^ k) t) = (p ^^ k) t" using root_reached[OF Cons.prems(1)] Cons.prems(2) le_trans by blast
  from uf_find_ok[OF Cons.prems(1) this] obtain r p1 where 1: "uf_find n p t = (r, p1)" "root_of p t r" "ranked V rk p1"
      "\<And>y s. root_of p1 y s \<longleftrightarrow> root_of p y s" by blast
  have r: "r = rt t" using root_of_unique[OF 1(2) Cons.prems(3)] .
  have "root_of p1 x (rt x)" for x using 1(4) Cons.prems(3) by simp
  from Cons.IH[OF 1(3) Cons.prems(2) this, of "setdefault_append m (rt t) t"] show ?case
    using 1(1,4) r by simp
qed simp

lemma fold_better_in: "fold (\<lambda>t best. if better_canonical gs t best then t else best) ts b \<in> insert b (set ts)"
  by (induction ts arbitrary: b) auto

lemma better_trans: "\<not> better_canonical gs t u \<Longrightarrow> better_canonical gs v u \<Longrightarrow> \<not> better_canonical gs t v"
  unfolding better_canonical_def by linarith

lemma fold_better_best:
  "\<forall>t\<in>insert b (set ts). \<not> better_canonical gs t (fold (\<lambda>t best. if better_canonical gs t best then t else best) ts b)"
proof (induction ts arbitrary: b)
  case Nil
  then show ?case by (simp add: better_canonical_def)
next
  case (Cons u ts)
  let ?b = "if better_canonical gs u b then u else b"
  have IH: "\<not> better_canonical gs t (fold (\<lambda>t best. if better_canonical gs t best then t else best) ts ?b)"
    if "t \<in> insert ?b (set ts)" for t using Cons that by blast
  have "\<not> better_canonical gs t (fold (\<lambda>t best. if better_canonical gs t best then t else best) ts ?b)"
    if "t \<in> {u, b}" for t
  proof (cases "t = ?b")
    case True
    then show ?thesis using IH by simp
  next
    case False
    let ?f = "fold (\<lambda>t best. if better_canonical gs t best then t else best) ts ?b"
    have no: "\<not> better_canonical gs t ?b" using False that by (auto simp: better_canonical_def split: if_splits)
    show ?thesis
    proof
      assume "better_canonical gs t ?f"
      moreover have "\<not> better_canonical gs ?b ?f" using IH by blast
      ultimately show False using no unfolding better_canonical_def by linarith
    qed
  qed
  then show ?case using IH by auto
qed

lemma pick_canonical_ok:
  assumes "members \<noteq> []"
  shows "pick_canonical gs members \<in> set members" "\<forall>t\<in>set members. \<not> better_canonical gs t (pick_canonical gs members)"
proof -
  obtain b ts where m: "members = b # ts" using assms by (cases members) auto
  show "pick_canonical gs members \<in> set members"
    using fold_better_in[of gs ts b] by (simp add: m pick_canonical_def)
  show "\<forall>t\<in>set members. \<not> better_canonical gs t (pick_canonical gs members)"
    using fold_better_best[of b ts gs] by (simp add: m pick_canonical_def)
qed

text \<open>The tags of a merged group are its cluster.\<close>

lemma merged_group_tags:
  fixes h :: "string \<Rightarrow> nat" and groups :: "tag_group list"
  assumes "distinct members" "members \<noteq> []"
  defines "best \<equiv> pick_canonical groups (set_order h members)"
  shows "mset (best # sort (filter (\<lambda>t. t \<noteq> best) members)) = mset members"
proof -
  have "set_order h members \<noteq> []" using assms(2) by (metis set_order_set(1) set_empty)
  then have "best \<in> set members" using pick_canonical_ok(1)[of "set_order h members" groups] by (simp add: best_def)
  then have "set_mset (mset (best # filter (\<lambda>t. t \<noteq> best) members)) = set_mset (mset members)" by auto
  moreover have "distinct (best # filter (\<lambda>t. t \<noteq> best) members)" using assms(1) by simp
  ultimately have "mset (best # filter (\<lambda>t. t \<noteq> best) members) = mset members"
    using assms(1) by (metis set_eq_iff_mset_eq_distinct set_mset_mset)
  then show ?thesis by simp
qed

lemma mset_concat_cong: "(\<And>x. x \<in> set xs \<Longrightarrow> mset (f x) = mset (g x)) \<Longrightarrow> mset (concat (map f xs)) = mset (concat (map g xs))"
  by (induction xs) auto

text \<open>C6: Merging the groups of several batches gives the connected components of the tags they
  link: two different tags end in one group exactly when a chain of groups leads from one to the
  other, no tag is in two groups or twice in one, and the canonical of a group was proposed as
  canonical at least as often as any other tag of it, ties broken towards short names.  This holds
  whatever order Python iterates its sets in.\<close>

theorem merge_gives_components:
  "{(t, u). t \<noteq> u \<and> (\<exists>g\<in>set (merge_transitive_groups h groups).
        t \<in> set (tg_canonical g # tg_aliases g) \<and> u \<in> set (tg_canonical g # tg_aliases g))}
     = {(t, u). t \<noteq> u \<and> linked groups t u}
   \<and> distinct (group_tags (merge_transitive_groups h groups))
   \<and> list_all (\<lambda>g. list_all (\<lambda>t. \<not> better_canonical groups t (tg_canonical g)) (tg_aliases g))
       (merge_transitive_groups h groups)"
proof -
  let ?tags = "\<lambda>g. tg_canonical g # tg_aliases g"
  define V where "V = set (group_tags groups)"
  define n where "n = length (group_tags groups)"
  define p where "p = union_all n groups"
  have V: "finite V" "card V \<le> n" by (simp_all add: V_def n_def card_length)
  have pairs: "\<forall>(a, c)\<in>set (group_pairs groups). a \<in> V \<and> c \<in> V"
    by (auto simp: group_pairs_def V_def group_tags_def)
  obtain rk where rk: "ranked V rk p" and same: "\<And>x y. same p x y \<longleftrightarrow> linked groups x y"
    using fold_union_ok[OF pairs V] unfolding p_def union_all_pairs linked_pairs by blast
  define rt where "rt x = fst (uf_find n p x)" for x
  have rt: "root_of p x (rt x)" for x
  proof -
    have "\<exists>k\<le>n. p ((p ^^ k) x) = (p ^^ k) x" using root_reached[OF rk] V(2) le_trans by blast
    then show ?thesis using uf_find_ok[OF rk] by (metis fst_conv rt_def)
  qed
  have same_rt: "rt x = rt y \<longleftrightarrow> linked groups x y" for x y
    using rt root_of_unique unfolding same[symmetric] same_def by metis
  define ts where "ts = set_order h (group_tags groups)"
  define cl where "cl = fold (\<lambda>t m. setdefault_append m (rt t) t) ts []"
  obtain q where q: "collect_clusters n ts p [] = (cl, q)"
    using collect_clusters_ok[OF rk V(2) rt, of ts "[]"] by (auto simp: cl_def)
  define ms where "ms = filter (\<lambda>(rep, members). length members > 1) cl"
  define mk where "mk = (\<lambda>(rep, members). let best = pick_canonical groups (set_order h members)
     in \<lparr>tg_canonical = best, tg_aliases = sort (filter (\<lambda>t. t \<noteq> best) members),
         tg_reason = first_reason n q groups rep\<rparr>)"
  have merged: "merge_transitive_groups h groups = map mk ms"
    unfolding merge_transitive_groups_def Let_def n_def[symmetric] p_def[symmetric] ts_def[symmetric] q prod.case
      ms_def mk_def by simp
  have all: "mset (concat (map snd cl)) = mset ts" unfolding cl_def by (simp add: fold_setdefault_mset)
  have dts: "distinct ts" and set_ts: "set ts = V" by (simp_all add: ts_def V_def)
  have dcl: "distinct (concat (map snd cl))" using all dts mset_eq_imp_distinct_iff by blast
  have keys: "distinct (map fst cl)" unfolding cl_def by (rule fold_setdefault_keys) simp
  have mem: "u \<in> set vs \<longleftrightarrow> u \<in> V \<and> rt u = k" if "(k, vs) \<in> set cl" for k vs u
  proof -
    have "u \<in> set vs \<longleftrightarrow> (\<exists>ws. (k, ws) \<in> set cl \<and> u \<in> set ws)"
      using that keys by (metis eq_key_imp_eq_value)
    also have "\<dots> \<longleftrightarrow> u \<in> V \<and> rt u = k"
      unfolding cl_def using fold_setdefault_mem[of k rt ts "[]" u] set_ts by simp
    finally show ?thesis .
  qed
  have dvs: "distinct vs" if "(k, vs) \<in> set cl" for k vs
    using dcl that by (auto simp: distinct_concat_iff)
  have tags: "mset (?tags (mk x)) = mset (snd x)" if "x \<in> set ms" for x
  proof -
    obtain k vs where x: "x = (k, vs)" by fastforce
    then have "(k, vs) \<in> set cl" "vs \<noteq> []" using that by (auto simp: ms_def)
    then show ?thesis using merged_group_tags[OF dvs] by (simp add: x mk_def Let_def)
  qed
  have set_tags: "set (?tags (mk x)) = set (snd x)" if "x \<in> set ms" for x
    using tags[OF that] by (metis set_mset_mset)
  have "mset (group_tags (map mk ms)) = mset (concat (map snd ms))"
    using mset_concat_cong[of ms "\<lambda>x. ?tags (mk x)" snd] tags by (simp add: group_tags_def comp_def)
  moreover have "distinct (concat (map snd ms))"
  proof -
    have "mset (map snd ms) \<subseteq># mset (map snd cl)"
      unfolding ms_def by (simp add: image_mset_subseteq_mono)
    then obtain M where "mset (map snd cl) = mset (map snd ms) + M" by (metis subset_mset.add_diff_inverse)
    obtain zs where "M = mset zs" by (metis ex_mset)
    then have "mset (map snd cl) = mset (map snd ms @ zs)" using \<open>mset (map snd cl) = _\<close> by simp
    then have "mset (concat (map snd cl)) = mset (concat (map snd ms @ zs))"
      by (metis mset_concat mset_map sum_mset_sum_list)
    then have "distinct (concat (map snd ms @ zs))" using dcl mset_eq_imp_distinct_iff by blast
    then show ?thesis by simp
  qed
  ultimately have dist: "distinct (group_tags (map mk ms))" using mset_eq_imp_distinct_iff by blast
  have comp: "(\<exists>g\<in>set (map mk ms). t \<in> set (?tags g) \<and> u \<in> set (?tags g)) \<longleftrightarrow> linked groups t u" if ne: "t \<noteq> u" for t u
  proof
    assume "\<exists>g\<in>set (map mk ms). t \<in> set (?tags g) \<and> u \<in> set (?tags g)"
    then obtain g where g: "g \<in> set (map mk ms)" "t \<in> set (?tags g)" "u \<in> set (?tags g)" by blast
    obtain x where x0: "x \<in> set ms" "g = mk x" using g(1) by auto
    have x: "x \<in> set ms" "t \<in> set (snd x)" "u \<in> set (snd x)"
      using x0(1) g(2,3) unfolding x0(2) set_tags[OF x0(1)] by blast+
    then have "(fst x, snd x) \<in> set cl" by (simp add: ms_def)
    then show "linked groups t u" using mem x(2,3) same_rt by metis
  next
    assume l: "linked groups t u"
    have inV: "t \<in> V \<and> u \<in> V"
    proof -
      have "\<exists>g\<in>set groups. t \<in> set (?tags g)" using l ne unfolding linked_def by (auto elim: converse_rtranclpE)
      moreover have "\<exists>g\<in>set groups. u \<in> set (?tags g)" using l ne unfolding linked_def by (auto elim: rtranclp.cases)
      ultimately show ?thesis by (auto simp: V_def group_tags_def)
    qed
    obtain vs where vs: "(rt t, vs) \<in> set cl" "t \<in> set vs"
      using fold_setdefault_mem[of "rt t" rt ts "[]" t] inV set_ts by (auto simp: cl_def)
    have "u \<in> set vs" using mem[OF vs(1)] inV l same_rt by metis
    have "card {t, u} \<le> card (set vs)" using vs(2) \<open>u \<in> set vs\<close> by (intro card_mono) auto
    then have "length vs > 1" using ne card_length[of vs] by simp
    then have "(rt t, vs) \<in> set ms" using vs(1) by (simp add: ms_def)
    then show "\<exists>g\<in>set (map mk ms). t \<in> set (?tags g) \<and> u \<in> set (?tags g)"
      using set_tags[of "(rt t, vs)"] vs(2) \<open>u \<in> set vs\<close> by auto
  qed
  have best: "list_all (\<lambda>g. list_all (\<lambda>t. \<not> better_canonical groups t (tg_canonical g)) (tg_aliases g)) (map mk ms)"
  proof -
    have "\<not> better_canonical groups t (tg_canonical (mk x))" if "x \<in> set ms" "t \<in> set (tg_aliases (mk x))" for x t
    proof -
      have "snd x \<noteq> []" using that(1) by (auto simp: ms_def)
      then have "set_order h (snd x) \<noteq> []" by (metis set_order_set(1) set_empty)
      moreover have "t \<in> set (snd x)" using set_tags[OF that(1)] that(2) by auto
      ultimately show ?thesis using pick_canonical_ok(2)[of "set_order h (snd x)" groups]
        by (simp add: mk_def Let_def case_prod_beta')
    qed
    then show ?thesis by (auto simp: list_all_iff)
  qed
  show ?thesis unfolding merged using comp dist best by blast
qed

end
