(* ===== verification/ConsolidationPlan.thy ===== *)
theory ConsolidationPlan
  imports ConsolidationMerge
begin

text \<open>
  A reviewed plan that is applied without error is what the store holds: every alias of every
  group maps to the group's canonical and nothing maps to an alias any more.
\<close>

section \<open>The live map\<close>

definition scopes_ok :: "alias_store \<Rightarrow> bool" where
  "scopes_ok s \<longleftrightarrow> distinct (map fst (as_global s)) \<and> distinct (map fst (as_local s))"

lemma map_of_fold_update:
  "map_of (fold (\<lambda>(a, c). AList.update a c) ys xs) = map_of xs ++ map_of (rev ys)"
proof (induction ys arbitrary: xs)
  case (Cons y ys)
  obtain a c where y: "y = (a, c)" by fastforce
  show ?case by (simp add: y Cons update_conv' map_add_assoc[symmetric] del: map_add_assoc) (simp add: map_add_def fun_eq_iff split: option.splits)
qed simp

lemma distinct_fold_update:
  "distinct (map fst xs) \<Longrightarrow> distinct (map fst (fold (\<lambda>(a, c). AList.update a c) ys xs))"
  by (induction ys arbitrary: xs) (auto simp: distinct_update)

lemma map_of_sort_key:
  assumes "distinct (map fst xs)" shows "map_of (sort_key f xs) = map_of xs"
proof -
  have "distinct (map fst (sort_key f xs))" using assms by simp
  then show ?thesis using assms by (intro map_of_inject_set[THEN iffD2]) auto
qed

lemma live_map:
  assumes "scopes_ok s"
  shows "map_of (get_tag_aliases s) = map_of (as_global s) ++ map_of (as_local s)"
    and "distinct (map fst (get_tag_aliases s))"
proof -
  have d: "distinct (map fst (sort_key fst (as_local s)))" "distinct (map fst (sort_key fst (as_global s)))"
    using assms by (simp_all add: scopes_ok_def)
  have "map_of (rev (sort_key fst (as_local s))) = map_of (sort_key fst (as_local s))"
    by (rule map_of_inject_set[THEN iffD2]) (use d(1) in \<open>auto simp: rev_map[symmetric]\<close>)
  then show "map_of (get_tag_aliases s) = map_of (as_global s) ++ map_of (as_local s)"
    using assms by (simp add: get_tag_aliases_def map_of_fold_update map_of_sort_key scopes_ok_def)
  show "distinct (map fst (get_tag_aliases s))"
    unfolding get_tag_aliases_def by (rule distinct_fold_update) (rule d(2))
qed

lemma scopes_ok_update: "scopes_ok s \<Longrightarrow> scopes_ok (s\<lparr>as_local := AList.update a c (as_local s)\<rparr>)"
  by (simp add: scopes_ok_def distinct_update)

lemma scopes_ok_append:
  "scopes_ok s \<Longrightarrow> map_of (as_local s) a = None \<Longrightarrow> scopes_ok (s\<lparr>as_local := as_local s @ [(a, c)]\<rparr>)"
  by (auto simp: scopes_ok_def map_of_eq_None_iff)

section \<open>One group\<close>

text \<open>The progress of a group and the store agree on the live map.\<close>

definition in_step :: "group_progress \<Rightarrow> bool" where
  "in_step p \<longleftrightarrow> scopes_ok (rn_store (gp_run p)) \<and> distinct (map fst (gp_live p))
     \<and> map_of (gp_live p) = map_of (get_tag_aliases (rn_store (gp_run p)))"

text \<open>How a group with canonical \<open>c\<close> and aliases \<open>A\<close> may change the live map.\<close>

definition moves :: "string \<Rightarrow> string set \<Rightarrow> (string \<Rightarrow> string option) \<Rightarrow> (string \<Rightarrow> string option) \<Rightarrow> bool" where
  "moves c A m m' \<longleftrightarrow> (\<forall>k. m' k = m k \<or> m' k = Some c \<and> (k \<in> A \<or> m k \<in> Some ` A))"

lemma moves_refl [simp]: "moves c A m m"
  by (simp add: moves_def)

lemma moves_trans:
  assumes "moves c A m m1" "moves c A m1 m2" shows "moves c A m m2"
  unfolding moves_def
proof
  fix k
  show "m2 k = m k \<or> m2 k = Some c \<and> (k \<in> A \<or> m k \<in> Some ` A)"
    using assms[unfolded moves_def, rule_format, of k] by metis
qed

lemma moves_mono: "moves c A m m' \<Longrightarrow> A \<subseteq> B \<Longrightarrow> moves c B m m'"
  unfolding moves_def by blast

lemma rebind_in_step:
  assumes "in_step p" "rebind_tag_alias d a c (rn_store (gp_run p)) = (True, rn_store r)"
  shows "in_step (p\<lparr>gp_live := AList.update d c (gp_live p), gp_rewritten := x, gp_backfill := y, gp_run := r\<rparr>)"
    and "map_of (gp_live p) d = Some a"
proof -
  let ?s = "rn_store (gp_run p)"
  have l: "map_of (as_local ?s) d = Some a" and r: "rn_store r = ?s\<lparr>as_local := AList.update d c (as_local ?s)\<rparr>"
    using assms(2) by (auto simp: rebind_tag_alias_def split: if_splits)
  have ok: "scopes_ok ?s" using assms(1) by (simp add: in_step_def)
  have ok': "scopes_ok (rn_store r)" unfolding r by (rule scopes_ok_update[OF ok])
  have "map_of (get_tag_aliases (rn_store r)) = (map_of (get_tag_aliases ?s))(d \<mapsto> c)"
    unfolding live_map(1)[OF ok'] live_map(1)[OF ok] by (simp add: r update_conv')
  then show "in_step (p\<lparr>gp_live := AList.update d c (gp_live p), gp_rewritten := x, gp_backfill := y, gp_run := r\<rparr>)"
    using assms(1) ok' by (simp add: in_step_def distinct_update update_conv')
  show "map_of (gp_live p) d = Some a"
    using assms(1) l unfolding in_step_def live_map(1)[OF ok] by (simp add: map_add_def)
qed

lemma create_in_step:
  assumes "in_step p" "create_tag_alias_if_absent a c (rn_store (gp_run p)) = (True, rn_store r)"
  shows "in_step (p\<lparr>gp_written := x, gp_backfill := y, gp_live := AList.update a c (gp_live p), gp_run := r\<rparr>)"
proof -
  let ?s = "rn_store (gp_run p)"
  have l: "map_of (as_local ?s) a = None" and r: "rn_store r = ?s\<lparr>as_local := as_local ?s @ [(a, c)]\<rparr>"
    using assms(2) by (auto simp: create_tag_alias_if_absent_def split: if_splits)
  have ok: "scopes_ok ?s" using assms(1) by (simp add: in_step_def)
  have ok': "scopes_ok (rn_store r)" unfolding r by (rule scopes_ok_append[OF ok l])
  have "map_of (as_local ?s @ [(a, c)]) = (map_of (as_local ?s))(a \<mapsto> c)"
    using l by (auto simp: fun_eq_iff map_add_def split: option.splits)
  then have "map_of (get_tag_aliases (rn_store r)) = (map_of (get_tag_aliases ?s))(a \<mapsto> c)"
    unfolding live_map(1)[OF ok'] live_map(1)[OF ok] by (simp add: r)
  then show ?thesis using assms(1) ok' by (simp add: in_step_def distinct_update update_conv')
qed

lemma in_step_frame [simp]:
  "in_step (p\<lparr>gp_backfill := y\<rparr>) = in_step p" "in_step (p\<lparr>gp_skipped := z\<rparr>) = in_step p"
  by (simp_all add: in_step_def)

text \<open>In exact mode the loop over the deeper aliases re-points every one, or stops.\<close>

lemma rebind_deeper_exact:
  assumes env: "undisturbed env" and run: "rebind_deeper env True c a m p = (True, p')" and "in_step p"
  shows "in_step p' \<and> moves c {a} (map_of (gp_live p)) (map_of (gp_live p'))
     \<and> (\<forall>k. (k, a) \<in> set m \<longrightarrow> k \<noteq> c \<longrightarrow> map_of (gp_live p') k = Some c)"
  using run assms(3)
proof (induction m arbitrary: p)
  case (Cons x m)
  obtain d t where x: "x = (d, t)" by fastforce
  show ?case
  proof (cases "t \<noteq> a \<or> d = c")
    case True
    then show ?thesis using Cons by (auto simp: x)
  next
    case False
    consider (raised) r where "call env (rebind_tag_alias d a c) (gp_run p) = (None, r)"
      | (answered) ok r where "call env (rebind_tag_alias d a c) (gp_run p) = (Some ok, r)"
        "rebind_tag_alias d a c (rn_store (gp_run p)) = (ok, rn_store r)"
      by (rule call_cases[OF env])
    then show ?thesis
    proof cases
      case raised
      then show ?thesis using Cons.prems(1) False by (simp add: x)
    next
      case answered
      then have ok: "ok" using Cons.prems(1) False by (cases ok) (simp_all add: x)
      let ?p = "p\<lparr>gp_live := AList.update d c (gp_live p), gp_rewritten := gp_rewritten p @ [(d, a)],
                  gp_backfill := gp_backfill p @ [d], gp_run := r\<rparr>"
      have rest: "rebind_deeper env True c a m ?p = (True, p')"
        using Cons.prems(1) False answered(1) ok by (simp add: x)
      note here = rebind_in_step[OF Cons.prems(2) answered(2)[simplified ok]]
      have live: "map_of (gp_live ?p) = (map_of (gp_live p))(d \<mapsto> c)" by (simp add: update_conv')
      from Cons.IH[OF rest here(1)]
      have IH: "in_step p'" "moves c {a} ((map_of (gp_live p))(d \<mapsto> c)) (map_of (gp_live p'))"
        "\<forall>k. (k, a) \<in> set m \<longrightarrow> k \<noteq> c \<longrightarrow> map_of (gp_live p') k = Some c"
        unfolding live by blast+
      have "moves c {a} (map_of (gp_live p)) ((map_of (gp_live p))(d \<mapsto> c))"
        using here(2) by (auto simp: moves_def)
      then have "moves c {a} (map_of (gp_live p)) (map_of (gp_live p'))" using IH(2) by (rule moves_trans)
      moreover have "map_of (gp_live p') d = Some c"
        using IH(2)[unfolded moves_def, rule_format, of d] by auto
      ultimately show ?thesis using IH(1,3) by (auto simp: x)
    qed
  qed
qed simp

definition alias_done :: "string \<Rightarrow> string \<Rightarrow> (string \<Rightarrow> string option) \<Rightarrow> bool" where
  "alias_done c a m \<longleftrightarrow> m a = Some c \<and> (\<forall>k. m k \<noteq> Some a)"

lemma apply_alias_exact:
  assumes env: "undisturbed env" and run: "apply_alias env True c a p = (True, p')" and step: "in_step p"
    and c: "a \<noteq> c" "map_of (gp_live p) c \<in> {None, Some c}" "map_of (gp_live p) a \<in> {None, Some c}"
  shows "in_step p' \<and> moves c {a} (map_of (gp_live p)) (map_of (gp_live p')) \<and> alias_done c a (map_of (gp_live p'))"
proof -
  obtain ok p1 where p1: "rebind_deeper env True c a (gp_live p) p = (ok, p1)" by fastforce
  have ok using run p1 c(3) by (cases ok) (auto simp: apply_alias_def)
  with p1 have "rebind_deeper env True c a (gp_live p) p = (True, p1)" by simp
  from rebind_deeper_exact[OF env this step]
  have R: "in_step p1" "moves c {a} (map_of (gp_live p)) (map_of (gp_live p1))"
    "\<And>k. (k, a) \<in> set (gp_live p) \<Longrightarrow> k \<noteq> c \<Longrightarrow> map_of (gp_live p1) k = Some c" by auto
  have none: "map_of (gp_live p1) k \<noteq> Some a" for k
  proof
    assume k: "map_of (gp_live p1) k = Some a"
    then have "map_of (gp_live p) k = Some a" using R(2)[unfolded moves_def, rule_format, of k] c(1) by auto
    moreover from this have "(k, a) \<in> set (gp_live p)" by (rule map_of_SomeD)
    moreover have "k \<noteq> c" using c(1,2) \<open>map_of (gp_live p) k = Some a\<close> by auto
    ultimately show False using R(3) k c(1) by auto
  qed
  show ?thesis
  proof (cases "map_of (gp_live p) a")
    case (Some v)
    then have "v = c" using c(3) by auto
    then have p': "p' = p1\<lparr>gp_backfill := gp_backfill p1 @ [a]\<rparr>"
      using run p1 Some \<open>ok\<close> by (auto simp: apply_alias_def)
    have "map_of (gp_live p1) a = Some c"
      using R(2)[unfolded moves_def, rule_format, of a] Some \<open>v = c\<close> by auto
    then show ?thesis using R(1,2) none by (auto simp: p' alias_done_def)
  next
    case None
    consider (raised) r where "call env (create_tag_alias_if_absent a c) (gp_run p1) = (None, r)"
      | (answered) b r where "call env (create_tag_alias_if_absent a c) (gp_run p1) = (Some b, r)"
        "create_tag_alias_if_absent a c (rn_store (gp_run p1)) = (b, rn_store r)"
      by (rule call_cases[OF env])
    then show ?thesis
    proof cases
      case raised
      then show ?thesis using run p1 None \<open>ok\<close> by (simp add: apply_alias_def)
    next
      case answered
      then have b: "b" using run p1 None \<open>ok\<close> by (cases b) (simp_all add: apply_alias_def)
      then have p': "p' = p1\<lparr>gp_written := gp_written p1 @ [a], gp_backfill := gp_backfill p1 @ [a],
                              gp_live := AList.update a c (gp_live p1), gp_run := r\<rparr>"
        using run p1 None \<open>ok\<close> answered(1) by (auto simp: apply_alias_def)
      have "in_step p'" unfolding p' by (rule create_in_step[OF R(1) answered(2)[simplified b]])
      moreover have live: "map_of (gp_live p') = (map_of (gp_live p1))(a \<mapsto> c)" by (simp add: p' update_conv')
      moreover have "moves c {a} (map_of (gp_live p1)) ((map_of (gp_live p1))(a \<mapsto> c))" by (simp add: moves_def)
      ultimately show ?thesis using moves_trans[OF R(2)] none c(1) by (auto simp: alias_done_def)
    qed
  qed
qed

text \<open>What is done stays done.\<close>

lemma alias_done_moves:
  assumes "alias_done c a m" "moves c' A m m'" "c \<notin> A" "a \<in> A \<Longrightarrow> c' = c" "c' \<noteq> a"
  shows "alias_done c a m'"
proof -
  have a: "m a = Some c" and none: "\<And>k. m k \<noteq> Some a" using assms(1) by (auto simp: alias_done_def)
  have "m' a = Some c" using assms(2)[unfolded moves_def, rule_format, of a] a assms(3,4) by auto
  moreover have "m' k \<noteq> Some a" for k
    using assms(2)[unfolded moves_def, rule_format, of k] none[of k] assms(5) by auto
  ultimately show ?thesis by (simp add: alias_done_def)
qed

lemma apply_aliases_exact:
  assumes env: "undisturbed env" and "apply_aliases env True c as p = (True, p')" "in_step p"
    and "c \<notin> set as" "map_of (gp_live p) c \<in> {None, Some c}" "\<forall>a\<in>set as. map_of (gp_live p) a \<in> {None, Some c}"
  shows "in_step p' \<and> moves c (set as) (map_of (gp_live p)) (map_of (gp_live p'))
     \<and> (\<forall>a\<in>set as. alias_done c a (map_of (gp_live p')))"
  using assms(2-6)
proof (induction as arbitrary: p)
  case (Cons a as)
  obtain ok p1 where p1: "apply_alias env True c a p = (ok, p1)" by fastforce
  have ok: "ok" using Cons.prems(1) p1 by (cases ok) auto
  have 1: "in_step p1" "moves c {a} (map_of (gp_live p)) (map_of (gp_live p1))" "alias_done c a (map_of (gp_live p1))"
  proof -
    have ne: "a \<noteq> c" using Cons.prems(3) by auto
    have "map_of (gp_live p) a \<in> {None, Some c}" using Cons.prems(5) by simp
    from apply_alias_exact[OF env p1[unfolded ok[THEN eqTrueI]] Cons.prems(2) ne Cons.prems(4) this]
    show "in_step p1" "moves c {a} (map_of (gp_live p)) (map_of (gp_live p1))" "alias_done c a (map_of (gp_live p1))"
      by blast+
  qed
  have keep: "map_of (gp_live p1) k \<in> {None, Some c}" if "map_of (gp_live p) k \<in> {None, Some c}" for k
    using 1(2)[unfolded moves_def, rule_format, of k] that by auto
  have rest: "apply_aliases env True c as p1 = (True, p')" using Cons.prems(1) p1 ok by simp
  have IH: "in_step p'" "moves c (set as) (map_of (gp_live p1)) (map_of (gp_live p'))"
    "\<forall>a\<in>set as. alias_done c a (map_of (gp_live p'))"
    using Cons.IH[OF rest 1(1)] Cons.prems(3-5) keep by auto
  have "moves c (set (a # as)) (map_of (gp_live p)) (map_of (gp_live p'))"
    by (rule moves_trans[OF moves_mono[OF 1(2)] moves_mono[OF IH(2)]]) auto
  moreover have "alias_done c a (map_of (gp_live p'))"
    by (rule alias_done_moves[OF 1(3) IH(2)]) (use Cons.prems(3) in auto)
  ultimately show ?case using IH(1,3) by simp
qed simp

lemma backfill_frame:
  "as_local (snd (add_tag_to_segments_with_tags c tags s)) = as_local s
   \<and> as_global (snd (add_tag_to_segments_with_tags c tags s)) = as_global s"
  by (simp add: add_tag_to_segments_with_tags_def Let_def)

definition live_of :: "run_state \<Rightarrow> string \<Rightarrow> string option" where
  "live_of r = map_of (get_tag_aliases (rn_store r))"

lemma apply_group_exact:
  assumes env: "undisturbed env" and ok: "scopes_ok (rn_store r)" and c: "tg_canonical g \<notin> set (tg_aliases g)"
    and run: "apply_group env True g r = (True, entry, skipped, r')"
  shows "scopes_ok (rn_store r') \<and> moves (tg_canonical g) (set (tg_aliases g)) (live_of r) (live_of r')
     \<and> (\<forall>a\<in>set (tg_aliases g). alias_done (tg_canonical g) a (live_of r') \<and> live_of r a \<in> {None, Some (tg_canonical g)})"
proof -
  let ?c = "tg_canonical g"
  define p0 where "p0 = \<lparr>gp_live = [], gp_written = [], gp_rewritten = [], gp_backfill = [], gp_skipped = [], gp_run = r\<rparr>"
  consider (raised) r1 where "call env (\<lambda>s. (get_tag_aliases s, s)) r = (None, r1)"
    | (answered) live r1 where "call env (\<lambda>s. (get_tag_aliases s, s)) r = (Some live, r1)"
      "(get_tag_aliases (rn_store r), rn_store r) = (live, rn_store r1)"
    by (rule call_cases[OF env])
  then show ?thesis
  proof cases
    case raised
    then show ?thesis using run by (simp add: apply_group_def Let_def)
  next
    case answered
    have l: "live = get_tag_aliases (rn_store r)" "rn_store r1 = rn_store r"
      using answered(2) unfolding prod.inject by (blast intro: sym)+
    define p1 where "p1 = p0\<lparr>gp_live := live, gp_run := r1\<rparr>"
    note body = run[unfolded apply_group_def Let_def, folded p0_def, unfolded answered(1) prod.case option.case, folded p1_def]
    have plan: "require_plan_matches_store [g] live" using body by (auto split: if_splits)
    then have m: "map_of live ?c \<in> {None, Some ?c}" "\<forall>a\<in>set (tg_aliases g). map_of live a \<in> {None, Some ?c}"
      by (auto simp: require_plan_matches_store_def list_all_iff)
    obtain b p where p: "apply_aliases env True ?c (tg_aliases g) p1 = (b, p)" by fastforce
    have b: "b" using body plan p by (cases b) auto
    have s1: "in_step p1" using ok live_map(2)[OF ok] by (simp add: p1_def in_step_def l)
    have G: "in_step p" "moves ?c (set (tg_aliases g)) (map_of live) (map_of (gp_live p))"
      "\<forall>a\<in>set (tg_aliases g). alias_done ?c a (map_of (gp_live p))"
      using apply_aliases_exact[OF env p[unfolded b[THEN eqTrueI]] s1 c] m by (simp_all add: p1_def)
    have "as_local (rn_store r') = as_local (rn_store (gp_run p)) \<and> as_global (rn_store r') = as_global (rn_store (gp_run p))"
    proof (cases "gp_backfill p = []")
      case True
      then show ?thesis using body plan p b by auto
    next
      case False
      consider (raised) r2 where "call env (add_tag_to_segments_with_tags ?c (gp_backfill p)) (gp_run p) = (None, r2)"
        | (answered) refs r2 where
          "call env (add_tag_to_segments_with_tags ?c (gp_backfill p)) (gp_run p) = (Some refs, r2)"
          "add_tag_to_segments_with_tags ?c (gp_backfill p) (rn_store (gp_run p)) = (refs, rn_store r2)"
        by (rule call_cases[OF env])
      then show ?thesis
      proof cases
        case raised
        then show ?thesis using body plan p b False by auto
      next
        case answered
        have "as_local (rn_store r2) = as_local (rn_store (gp_run p)) \<and> as_global (rn_store r2) = as_global (rn_store (gp_run p))"
          using backfill_frame[of ?c "gp_backfill p" "rn_store (gp_run p)"] unfolding answered(2) by simp
        then show ?thesis using body plan p b False answered(1) by auto
      qed
    qed
    then have "get_tag_aliases (rn_store r') = get_tag_aliases (rn_store (gp_run p))"
      and "scopes_ok (rn_store r') = scopes_ok (rn_store (gp_run p))" by (simp_all add: get_tag_aliases_def scopes_ok_def)
    then have "scopes_ok (rn_store r')" "live_of r' = map_of (gp_live p)" using G(1) by (simp_all add: in_step_def live_of_def)
    moreover have "live_of r = map_of live" by (simp add: live_of_def l)
    ultimately show ?thesis using G(2,3) m(2) by simp
  qed
qed

lemma apply_loop_exact:
  assumes env: "undisturbed env" and "\<forall>g\<in>set gs. tg_canonical g \<notin> set (tg_aliases g)"
    and "\<forall>(a, c)\<in>D. alias_done c a (live_of r) \<and> (\<forall>g\<in>set gs. c \<notin> set (tg_aliases g) \<and> tg_canonical g \<noteq> a)"
    and "\<forall>g\<in>set gs. \<forall>g'\<in>set gs. tg_canonical g \<notin> set (tg_aliases g')"
    and "scopes_ok (rn_store r)" and "apply_loop env notify True gs res r = (Inr res', r')"
  shows "\<forall>(a, c)\<in>D \<union> set (group_pairs gs). alias_done c a (live_of r')"
  using assms(2-6)
proof (induction gs arbitrary: D r res)
  case Nil
  then show ?case by (auto simp: group_pairs_def)
next
  case (Cons g gs)
  obtain ok entry skipped r1 where g: "apply_group env True g r = (ok, entry, skipped, r1)" by (cases "apply_group env True g r")
  have ok: "ok" using Cons.prems(5) g by (cases ok) auto
  have "tg_canonical g \<notin> set (tg_aliases g)" using Cons.prems(1) by simp
  from apply_group_exact[OF env Cons.prems(4) this g[unfolded ok[THEN eqTrueI]]]
  have G: "scopes_ok (rn_store r1)" "moves (tg_canonical g) (set (tg_aliases g)) (live_of r) (live_of r1)"
    "\<forall>a\<in>set (tg_aliases g). alias_done (tg_canonical g) a (live_of r1) \<and> live_of r a \<in> {None, Some (tg_canonical g)}"
    by blast+
  define E where "E = D \<union> (\<lambda>a. (a, tg_canonical g)) ` set (tg_aliases g)"
  have stay: "alias_done c a (live_of r1)" if "(a, c) \<in> D" for a c
  proof (rule alias_done_moves[OF _ G(2)])
    show d: "alias_done c a (live_of r)" using Cons.prems(2) that by blast
    show "c \<notin> set (tg_aliases g)" "tg_canonical g \<noteq> a" using Cons.prems(2) that by auto
    show "tg_canonical g = c" if "a \<in> set (tg_aliases g)" using G(3) that d by (auto simp: alias_done_def)
  qed
  have step: "\<forall>(a, c)\<in>E. alias_done c a (live_of r1) \<and> (\<forall>h\<in>set gs. c \<notin> set (tg_aliases h) \<and> tg_canonical h \<noteq> a)"
  proof
    fix x assume x: "x \<in> E"
    obtain a c where ac: "x = (a, c)" by fastforce
    show "case x of (a, c) \<Rightarrow> alias_done c a (live_of r1) \<and> (\<forall>h\<in>set gs. c \<notin> set (tg_aliases h) \<and> tg_canonical h \<noteq> a)"
    proof (cases "x \<in> D")
      case True
      then show ?thesis using stay Cons.prems(2) by (auto simp: ac)
    next
      case False
      then have "c = tg_canonical g" "a \<in> set (tg_aliases g)" using x by (auto simp: ac E_def)
      then show ?thesis using G(3) Cons.prems(3) by (auto simp: ac)
    qed
  qed
  obtain res1 where rest: "apply_loop env notify True gs res1 r1 = (Inr res', r')"
    using Cons.prems(5) g ok by (auto simp: Let_def split: if_splits)
  have "\<forall>(a, c)\<in>E \<union> set (group_pairs gs). alias_done c a (live_of r')"
    by (rule Cons.IH[OF _ step _ G(1) rest]) (use Cons.prems(1,3) in auto)
  then show ?case by (auto simp: E_def group_pairs_def)
qed

text \<open>A reviewed plan that is applied without an error is what the store holds: each alias of
  each group maps to its group's canonical, and no tag maps to one of those aliases any more, so
  the new mappings are one hop deep.  (Whatever calls could have failed, none of them was skipped
  silently.)\<close>

theorem exact_plan_is_applied:
  assumes "undisturbed env" "plan_clean groups" "scopes_ok s"
    and "apply_groups env notify False True groups s = (Inr res, s')"
  shows "\<forall>g\<in>set groups. \<forall>a\<in>set (tg_aliases g).
     map_of (get_tag_aliases s') a = Some (tg_canonical g) \<and> (\<forall>k. map_of (get_tag_aliases s') k \<noteq> Some a)"
proof (cases "groups = []")
  case False
  let ?r = "\<lparr>rn_clock = 0, rn_store = s\<rparr>"
  let ?res = "\<lparr>ar_written = 0, ar_tags = 0, ar_applied = [], ar_skipped = []\<rparr>"
  obtain r2 where run: "apply_groups env notify False True groups s = (Inr res, rn_store r2)" "s' = rn_store r2"
    and loop: "\<exists>r1. rn_store r1 = s \<and> apply_loop env notify True groups ?res r1 = (Inr res, r2)"
  proof -
    consider (raised) r1 where "call env (\<lambda>s. (get_tag_aliases s, s)) ?r = (None, r1)"
      | (answered) live r1 where "call env (\<lambda>s. (get_tag_aliases s, s)) ?r = (Some live, r1)"
        "(get_tag_aliases (rn_store ?r), rn_store ?r) = (live, rn_store r1)"
      by (rule call_cases[OF assms(1)])
    then show ?thesis
    proof cases
      case raised
      then show ?thesis using assms(4) False by (auto simp: apply_groups_def split: if_splits)
    next
      case answered
      then obtain r2 where "apply_loop env notify True groups ?res r1 = (Inr res, r2)" "s' = rn_store r2"
        using assms(4) False by (auto simp: apply_groups_def split: if_splits prod.splits)
      moreover have "rn_store r1 = s" using answered(2) by simp
      ultimately show ?thesis using that[of r2] assms(4) by blast
    qed
  qed
  then obtain r1 where r1: "rn_store r1 = s" "apply_loop env notify True groups ?res r1 = (Inr res, r2)" by blast
  have clean: "\<forall>g\<in>set groups. \<forall>g'\<in>set groups. tg_canonical g \<notin> set (tg_aliases g')"
    using assms(2) by (simp add: plan_clean_def)
  have "\<forall>(a, c)\<in>{} \<union> set (group_pairs groups). alias_done c a (live_of r2)"
    by (rule apply_loop_exact[OF assms(1) _ _ clean _ r1(2)]) (use clean r1(1) assms(3) in auto)
  then show ?thesis by (auto simp: group_pairs_def alias_done_def live_of_def run(2))
qed simp

theorem exact_plan_is_applied_witness:
  "\<exists>res s'. apply_groups (\<lambda>_. Some) (\<lambda>_. True) False True demo_plan demo_tags = (Inr res, s')
     \<and> map_of (get_tag_aliases s') ''train'' = Some ''scale''"
proof -
  have "undisturbed (\<lambda>_. Some)" by (simp add: undisturbed_def)
  moreover have "scopes_ok demo_tags" by (simp add: scopes_ok_def demo_tags_def)
  moreover have "\<not> isl (fst (apply_groups (\<lambda>_. Some) (\<lambda>_. True) False True demo_plan demo_tags))" by code_simp
  then obtain res s' where run: "apply_groups (\<lambda>_. Some) (\<lambda>_. True) False True demo_plan demo_tags = (Inr res, s')"
    by (metis isl_def prod.collapse sum.exhaust_sel)
  ultimately show ?thesis using exact_plan_is_applied[OF _ demo_plan_clean _ run] by (force simp: demo_plan_def)
qed

end
