(* ===== verification/Scoring.thy ===== *)
theory Scoring
  imports Consolidation
begin

text \<open>
  Scoring of retrieval candidates (core/retrieval\_scoring.py, core/tag\_scoring.py) over the segment
  tables of storage/sqlite.py: three candidate sets, their fusion by reciprocal ranks, and the
  passes that dampen, boost and seat tags afterwards.  A score dict is an association list in
  insertion order; floats are rationals.  The full-text index, the cosine of two vectors and the
  set of fact-bearing tags are arguments; a full-text call that raises answers \<open>None\<close>.  Sets are
  iterated, and equal similarities left by \<open>argsort\<close>, in the order of an arbitrary hash \<open>h\<close>.
\<close>

section \<open>Tables\<close>

record summary =
  sm_ref :: string
  sm_primary :: string
  sm_tags :: "string list"
  sm_summary :: string
  sm_tokens :: int

record segment_row =
  sr_ref :: string
  sr_primary :: string
  sr_summary :: string
  sr_tokens :: int
  sr_created :: int

record tag_summary =
  tg_tag :: string
  tg_summary :: string
  tg_tokens :: int
  tg_updated :: int

type_synonym scores = "(string \<times> rat) list"

record memory =
  mm_segments :: "segment_row list"
  mm_aliases :: alias_store                   \<comment> \<open>with the rows of \<open>segment_tags\<close>\<close>
  mm_tag_summaries :: "tag_summary list"
  mm_embeddings :: "(string \<times> rat list) list"

definition segment_tags :: "memory \<Rightarrow> string \<Rightarrow> string list" where
  "segment_tags mm ref = sort (map snd (filter (\<lambda>(r, t). r = ref) (as_tags (mm_aliases mm))))"

definition row_to_summary :: "memory \<Rightarrow> segment_row \<Rightarrow> summary" where
  "row_to_summary mm r = \<lparr>sm_ref = sr_ref r, sm_primary = sr_primary r, sm_tags = segment_tags mm (sr_ref r),
     sm_summary = sr_summary r, sm_tokens = sr_tokens r\<rparr>"

definition overlap_count :: "memory \<Rightarrow> string list \<Rightarrow> segment_row \<Rightarrow> int" where
  "overlap_count mm tags r = int (length (filter (\<lambda>t. t \<in> set tags) (segment_tags mm (sr_ref r))))"

definition get_summaries_by_tags :: "string list \<Rightarrow> int \<Rightarrow> nat \<Rightarrow> memory \<Rightarrow> summary list" where
  "get_summaries_by_tags tags min_overlap limit mm =
     (if tags = [] then []
      else map (row_to_summary mm) (take limit
             (sort_desc (overlap_count mm tags) (sort_desc sr_created
                (filter (\<lambda>r. overlap_count mm tags r > 0 \<and> overlap_count mm tags r \<ge> min_overlap) (mm_segments mm))))))"

definition get_all_tags :: "memory \<Rightarrow> (string \<times> nat) list" where
  "get_all_tags mm =
     (let refs = map sr_ref (mm_segments mm);
          rows = filter (\<lambda>(r, t). r \<in> set refs) (as_tags (mm_aliases mm))
      in sort_desc (\<lambda>(t, n). int n)
           (map (\<lambda>t. (t, length (remdups (map fst (filter (\<lambda>(r, u). u = t) rows))))) (remdups (map snd rows))))"

definition get_all_tag_summaries :: "memory \<Rightarrow> tag_summary list" where
  "get_all_tag_summaries mm = sort_desc tg_updated (mm_tag_summaries mm)"

section \<open>Candidate sets\<close>

definition get_score :: "scores \<Rightarrow> string \<Rightarrow> rat" where
  "get_score m t = (case map_of m t of None \<Rightarrow> 0 | Some x \<Rightarrow> x)"

definition keep_max :: "string \<times> rat \<Rightarrow> scores \<Rightarrow> scores" where
  "keep_max = (\<lambda>(t, x) m. case map_of m t of
     None \<Rightarrow> AList.update t x m | Some y \<Rightarrow> if x > y then AList.update t x m else m)"

definition compute_tag_overlap_score :: "string list \<Rightarrow> string list \<Rightarrow> scores \<Rightarrow> rat \<times> rat" where
  "compute_tag_overlap_score query cand idf =
     (if query = [] \<or> cand = [] then (0, 0)
      else let inter = filter (\<lambda>t. t \<in> set cand) (remdups query)
           in (if idf \<noteq> [] then sum_list (map (\<lambda>t. case map_of idf t of None \<Rightarrow> 1 | Some w \<Rightarrow> w) inter)
               else of_nat (length inter),
               of_nat (length inter) / of_nat (length (remdups (query @ cand)))))"

definition compute_idf_candidates ::
  "(string \<Rightarrow> nat) \<Rightarrow> string list \<Rightarrow> string list \<Rightarrow> memory \<Rightarrow> scores \<Rightarrow> nat \<Rightarrow> scores" where
  "compute_idf_candidates h query related mm idf limit =
     (let expanded = set_order h (query @ related)
      in if expanded = [] then []
         else fold (\<lambda>s. keep_max (sm_primary s,
                 fst (compute_tag_overlap_score query (sm_tags s) idf)
                 + 1 / 2 * fst (compute_tag_overlap_score related (sm_tags s) idf)))
                (get_summaries_by_tags expanded 1 limit mm) [])"

record search_index =
  si_tag_summaries :: "string \<Rightarrow> nat \<Rightarrow> scores option"
  si_full_text :: "string \<Rightarrow> nat \<Rightarrow> string list option"      \<comment> \<open>the tag of each result\<close>
  si_search :: "string list \<Rightarrow> nat \<Rightarrow> summary list"
  si_actionable :: "string list \<Rightarrow> string list option"

definition compute_bm25_candidates :: "search_index \<Rightarrow> string \<Rightarrow> nat \<Rightarrow> scores" where
  "compute_bm25_candidates si query limit =
     (let m = (case si_tag_summaries si query limit of None \<Rightarrow> [] | Some rs \<Rightarrow> fold keep_max rs [])
      in if length m < limit
         then (case si_full_text si query (limit - length m) of
                 None \<Rightarrow> m
               | Some ts \<Rightarrow> fold (\<lambda>t m. if map_of m t = None then AList.update t 1 m else m) ts m)
         else m)"

definition zero_vector :: "rat list \<Rightarrow> bool" where
  "zero_vector v \<longleftrightarrow> list_all (\<lambda>x. x = 0) v"

text \<open>The similarity of a stored vector: bare, the context's, or the larger of the two.\<close>

definition similarity ::
  "(rat list \<Rightarrow> rat list \<Rightarrow> rat) \<Rightarrow> bool \<Rightarrow> rat list \<Rightarrow> rat list option \<Rightarrow> rat list \<Rightarrow> rat" where
  "similarity cosine guard query context v =
     (case context of
        Some c \<Rightarrow> if zero_vector c then cosine v query
                  else if guard then max (cosine v query) (cosine v c) else cosine v c
      | None \<Rightarrow> cosine v query)"

definition compute_embedding_candidates ::
  "(string \<Rightarrow> nat) \<Rightarrow> (rat list \<Rightarrow> rat list \<Rightarrow> rat) \<Rightarrow> rat list option \<Rightarrow> nat \<Rightarrow> rat
     \<Rightarrow> (string \<times> rat list) list \<Rightarrow> rat list option \<Rightarrow> bool \<Rightarrow> scores" where
  "compute_embedding_candidates h cosine query limit min_threshold stored context guard =
     (case query of
        None \<Rightarrow> []
      | Some q \<Rightarrow>
          if zero_vector q then []
          else let valid = filter (\<lambda>(t, v). v \<noteq> [] \<and> \<not> zero_vector v) stored;
                   scored = map (\<lambda>(t, v). (t, similarity cosine guard q context v)) valid;
                   matching = filter (\<lambda>(t, x). x \<ge> min_threshold) scored
               in take limit (sort_desc snd (sort_key (h \<circ> fst) matching)))"

section \<open>Fusion\<close>

definition to_ranking :: "scores \<Rightarrow> (string \<times> nat) list" where
  "to_ranking m = (let tags = sort_desc (get_score m) (map fst m) in zip tags [0..<length tags])"

text \<open>A ranking with its weight; a tag missing from it has the penalty rank.\<close>

definition rank_in :: "nat \<Rightarrow> (string \<times> nat) list \<Rightarrow> string \<Rightarrow> nat" where
  "rank_in k ranking t = (case map_of ranking t of None \<Rightarrow> 2 * k | Some n \<Rightarrow> n)"

definition rrf_score :: "((string \<times> nat) list \<times> rat) list \<Rightarrow> nat \<Rightarrow> string \<Rightarrow> rat" where
  "rrf_score rankings k t =
     sum_list (map (\<lambda>(ranking, w). w * (1 / of_nat (k + rank_in k ranking t + 1))) rankings)"

definition rrf_fuse :: "(string \<Rightarrow> nat) \<Rightarrow> ((string \<times> nat) list \<times> rat) list \<Rightarrow> nat \<Rightarrow> scores" where
  "rrf_fuse h rankings k =
     map (\<lambda>t. (t, rrf_score rankings k t)) (set_order h (concat (map (map fst \<circ> fst) rankings)))"

definition apply_gravity_dampening :: "rat \<Rightarrow> rat \<Rightarrow> scores \<Rightarrow> scores \<Rightarrow> scores" where
  "apply_gravity_dampening threshold factor bm25 sims =
     map (\<lambda>(t, x). if get_score bm25 t = 0 \<and> x > threshold then (t, x * factor) else (t, x)) sims"

definition segment_count :: "(string \<times> nat) list \<Rightarrow> string \<Rightarrow> nat" where
  "segment_count stats t = (case map_of stats t of None \<Rightarrow> 0 | Some n \<Rightarrow> n)"

definition hub_threshold :: "(string \<times> nat) list \<Rightarrow> nat" where
  "hub_threshold stats = sort (map snd stats) ! (length stats * 9 div 10)"

definition apply_hub_dampening ::
  "(string \<times> nat) list \<Rightarrow> string list \<Rightarrow> rat \<Rightarrow> rat \<Rightarrow> scores \<Rightarrow> scores" where
  "apply_hub_dampening stats query strength min_fraction fused =
     (let p90 = hub_threshold stats; max_count = last (sort (map snd stats))
      in if length stats < 2 \<or> p90 \<ge> max_count then fused
         else map (\<lambda>(t, x).
                let n = segment_count stats t
                in if n \<le> p90 \<or> t \<in> set query then (t, x)
                   else (t, x * max min_fraction
                              (1 - strength * (of_nat n - of_nat p90) / (of_nat max_count - of_nat p90)))) fused)"

definition apply_resolution_boost :: "string list \<Rightarrow> rat \<Rightarrow> scores \<Rightarrow> scores" where
  "apply_resolution_boost actionable boost fused =
     map (\<lambda>(t, x). if t \<in> set actionable then (t, x * boost) else (t, x)) fused"

section \<open>Reserved seats\<close>

definition rank_tags :: "scores \<Rightarrow> string list" where
  "rank_tags m = sort_desc (get_score m) (map fst m)"

text \<open>Gives the tags of \<open>ts\<close> the scores \<open>start - step\<close>, \<open>start - 2 * step\<close>, and so on.\<close>

fun set_band :: "rat \<Rightarrow> rat \<Rightarrow> string list \<Rightarrow> scores \<Rightarrow> scores" where
  "set_band start step [] m = m"
| "set_band start step (t # ts) m = set_band (start - step) step ts (AList.update t (start - step) m)"

definition apply_embedding_reserved_seats ::
  "string list \<Rightarrow> nat \<Rightarrow> nat \<Rightarrow> scores \<Rightarrow> string list \<times> scores" where
  "apply_embedding_reserved_seats embedding_ranked seats top_k fused =
     (let ranked = rank_tags fused;
          top = take top_k ranked;
          reserved = take seats (filter (\<lambda>t. t \<in> fst ` set fused \<and> t \<notin> set top) embedding_ranked);
          m = min (length reserved) top_k
      in if seats = 0 \<or> top_k = 0 \<or> embedding_ranked = [] \<or> fused = [] \<or> length ranked \<le> top_k \<or> m = 0
         then ([], fused)
         else let seated = take m reserved;
                  surviving = take (top_k - m) top;
                  displaced = drop (top_k - m) top;
                  up = (if surviving \<noteq> [] then get_score fused (last surviving)
                           else get_score fused (hd ranked) + 1);
                  lo = get_score fused (hd displaced);
                  nudge = (if up \<noteq> 0 then \<bar>up\<bar> else 1) / 1000000;
                  (lo', fused') =
                    (if up \<le> lo
                     then let low = up - nudge * of_nat (m + 1) in (low, set_band low nudge displaced fused)
                     else (lo, fused))
              in (seated, set_band up ((up - lo') / of_nat (m + 1)) seated fused'))"

section \<open>The whole scoring\<close>

record dampening =
  dm_hub_enabled :: bool
  dm_hub_strength :: rat
  dm_hub_min :: rat
  dm_gravity_enabled :: bool
  dm_gravity_threshold :: rat
  dm_gravity_factor :: rat
  dm_resolution_enabled :: bool
  dm_resolution_boost :: rat

record scoring_config =
  sc_idf_weight :: rat
  sc_bm25_weight :: rat
  sc_embedding_weight :: rat
  sc_rrf_k :: nat
  sc_bm25_limit :: nat
  sc_embedding_limit :: nat
  sc_min_threshold :: rat
  sc_guard :: bool
  sc_reserved_seats :: nat
  sc_dampening :: dampening

definition fused_scores ::
  "(string \<Rightarrow> nat) \<Rightarrow> search_index \<Rightarrow> scoring_config \<Rightarrow> (string \<times> nat) list \<Rightarrow> string list
     \<Rightarrow> scores \<Rightarrow> scores \<Rightarrow> scores \<Rightarrow> scores" where
  "fused_scores h si cfg stats query idf bm25 sims =
     (let d = sc_dampening cfg;
          fused0 = rrf_fuse h [(to_ranking idf, sc_idf_weight cfg), (to_ranking bm25, sc_bm25_weight cfg),
                               (to_ranking sims, sc_embedding_weight cfg)] (sc_rrf_k cfg);
          fused1 = (if dm_hub_enabled d \<and> stats \<noteq> []
                    then apply_hub_dampening stats query (dm_hub_strength d) (dm_hub_min d) fused0 else fused0)
      in if dm_resolution_enabled d
         then (case si_actionable si (map fst fused0) of
                 None \<Rightarrow> fused1 | Some ts \<Rightarrow> apply_resolution_boost ts (dm_resolution_boost d) fused1)
         else fused1)"

definition score_candidates ::
  "(string \<Rightarrow> nat) \<Rightarrow> (rat list \<Rightarrow> rat list \<Rightarrow> rat) \<Rightarrow> search_index \<Rightarrow> memory \<Rightarrow> scoring_config
     \<Rightarrow> scores \<Rightarrow> (string \<times> nat) list \<Rightarrow> string list \<Rightarrow> string list \<Rightarrow> string
     \<Rightarrow> rat list option \<Rightarrow> rat list option \<Rightarrow> nat \<Rightarrow> scores" where
  "score_candidates h cosine si mm cfg idf_weights stats query related text vec context top_k =
     (let idf = compute_idf_candidates h query related mm idf_weights 30;
          bm25 = compute_bm25_candidates si text (sc_bm25_limit cfg);
          sims = compute_embedding_candidates h cosine vec (sc_embedding_limit cfg) (sc_min_threshold cfg)
                    (mm_embeddings mm) context (sc_guard cfg);
          ranked = rank_tags sims;
          d = sc_dampening cfg;
          sims' = (if dm_gravity_enabled d \<and> sims \<noteq> []
                    then apply_gravity_dampening (dm_gravity_threshold d) (dm_gravity_factor d) bm25 sims else sims)
      in if idf = [] \<and> bm25 = [] \<and> sims' = [] then []
         else let fused = fused_scores h si cfg stats query idf bm25 sims'
              in if sc_reserved_seats cfg > 0 \<and> top_k > 0
                 then snd (apply_embedding_reserved_seats ranked (sc_reserved_seats cfg) top_k fused) else fused)"

end
