(* ===== verification/Retrieval.thy ===== *)
theory Retrieval
  imports Scoring TurnTagIndex Aliases Monitor
begin

text \<open>
  The retriever (core/retriever.py) and the two judgments it asks for (core/judgment.py): which tags
  a message queries, how alias groups compete as one topic, how the summaries of the chosen topics
  are fetched and ranked, and which of them fit the token budget.  The memo of a turn's
  continuation calls (which repeats values computed from equal inputs), facts and the temporal hint
  are left out.  The judge's probabilities, the vector and full-text indexes and the logarithm of
  the inverse document frequency are arguments.
\<close>

section \<open>Inputs and results\<close>

datatype topic_key = Topic string | Segment string

record judge =
  jd_topic_select :: bool
  jd_rerank :: bool
  jd_topic_pool_size :: nat
  jd_topic_min :: rat
  jd_rerank_min :: rat
  jd_topics :: "(topic_key \<times> string) list \<Rightarrow> (topic_key \<Rightarrow> rat) option"
  jd_ranks :: "string list \<Rightarrow> (nat \<Rightarrow> rat) option"

record retriever_config =
  rc_skip_active :: bool
  rc_lookback :: nat
  rc_context_tokens :: int
  rc_max_results :: nat
  rc_budget_fraction :: rat
  rc_scoring :: scoring_config

record request =
  rq_text :: string
  rq_tags :: "string list"
  rq_related :: "string list"
  rq_fallback :: bool                        \<comment> \<open>the tagger failed\<close>
  rq_vector :: "rat list option"
  rq_context :: "rat list option"
  rq_active :: "string list"
  rq_utilization :: rat
  rq_post_compaction :: bool
  rq_pool :: "scores option"                 \<comment> \<open>the embedding pool, where enabled\<close>
  rq_segment_refs :: "string list"           \<comment> \<open>the segment pool\<close>

record retrieval =
  rv_matched :: "string list"
  rv_summaries :: "summary list"
  rv_tokens :: int
  rv_overflow :: "summary list"
  rv_budget :: int
  rv_scores :: scores

section \<open>Query tags\<close>

text \<open>\<open>index\<close> is the conversation's turn tag index, when it has one.\<close>

definition previous_turn_tags :: "tag_index option \<Rightarrow> string list" where
  "previous_turn_tags index =
     (case index of
        None \<Rightarrow> []
      | Some ix \<Rightarrow> (case latest_meaningful_tags ix of
                     None \<Rightarrow> []
                   | Some r \<Rightarrow> filter (\<lambda>t. t \<notin> set non_inheritable_tags) (ent_tags (entry_at ix r))))"

definition working_set_tags :: "(string set \<Rightarrow> string list) \<Rightarrow> nat \<Rightarrow> tag_index \<Rightarrow> string list" where
  "working_set_tags listing lookback ix = filter (\<lambda>t. t \<noteq> ''_general'') (listing (get_active_tags lookback ix))"

definition resolve_query_tags ::
  "(string set \<Rightarrow> string list) \<Rightarrow> retriever_config \<Rightarrow> tag_index option \<Rightarrow> request \<Rightarrow> string list" where
  "resolve_query_tags listing cfg index rq =
     (let tags = (if rq_fallback rq
                  then (case index of
                          Some ix \<Rightarrow> working_set_tags listing (rc_lookback cfg) ix
                        | None \<Rightarrow> filter (\<lambda>t. t \<noteq> ''_general'') (rq_tags rq))
                  else filter (\<lambda>t. \<not> (rc_skip_active cfg \<and> t \<in> set (rq_active rq)) \<and> t \<noteq> ''_general'') (rq_tags rq))
      in if tags = [] then previous_turn_tags index else tags)"

definition related_query_tags :: "string list \<Rightarrow> request \<Rightarrow> string list" where
  "related_query_tags query rq = filter (\<lambda>t. t \<notin> set query \<and> t \<noteq> ''_general'') (rq_related rq)"

definition compute_idf_weights :: "(rat \<Rightarrow> rat) \<Rightarrow> (string \<times> nat) list \<Rightarrow> scores" where
  "compute_idf_weights lg all_tags =
     (let total = sum_list (map snd all_tags)
      in if total = 0 then []
         else map (\<lambda>(t, n). (t, lg (1 + of_nat total / of_nat (max n 1)))) all_tags)"

section \<open>Alias groups\<close>

definition canonical_of :: "alias_map \<Rightarrow> string \<Rightarrow> string" where
  "canonical_of aliases t = (case map_of aliases t of None \<Rightarrow> t | Some c \<Rightarrow> c)"

definition fold_alias_scores :: "alias_map \<Rightarrow> scores \<Rightarrow> scores" where
  "fold_alias_scores aliases scores = fold (\<lambda>(t, x). keep_max (canonical_of aliases t, x)) scores []"

definition with_alias_keys :: "alias_map \<Rightarrow> scores \<Rightarrow> scores" where
  "with_alias_keys aliases folded =
     fold (\<lambda>(a, c) m. case map_of folded c of None \<Rightarrow> m | Some x \<Rightarrow> AList.update a x m) aliases folded"

section \<open>Judged topics and summaries\<close>

definition get_tag_summary :: "memory \<Rightarrow> string \<Rightarrow> tag_summary option" where
  "get_tag_summary mm tag = find (\<lambda>ts. tg_tag ts = tag) (mm_tag_summaries mm)"

definition loaded_topic :: "memory \<Rightarrow> string \<Rightarrow> tag_summary option" where
  "loaded_topic mm tag =
     (case get_tag_summary mm tag of
        Some ts \<Rightarrow> if strip (tg_summary ts) \<noteq> [] then Some ts else None | None \<Rightarrow> None)"

definition get_segment :: "memory \<Rightarrow> string \<Rightarrow> summary option" where
  "get_segment mm ref = map_option (row_to_summary mm) (find (\<lambda>r. sr_ref r = ref) (mm_segments mm))"

definition segment_candidates :: "memory \<Rightarrow> string list \<Rightarrow> summary list" where
  "segment_candidates mm refs =
     filter (\<lambda>s. strip (sm_summary s) \<noteq> []) (concat (map (\<lambda>r. case get_segment mm r of None \<Rightarrow> [] | Some s \<Rightarrow> [s]) refs))"

text \<open>At most \<open>room\<close> keys of each kind.\<close>

fun cap_kinds :: "nat \<Rightarrow> nat \<Rightarrow> topic_key list \<Rightarrow> topic_key list" where
  "cap_kinds topics segments [] = []"
| "cap_kinds topics segments (Topic t # ks) =
     (if topics > 0 then Topic t # cap_kinds (topics - 1) segments ks else cap_kinds topics segments ks)"
| "cap_kinds topics segments (Segment r # ks) =
     (if segments > 0 then Segment r # cap_kinds topics (segments - 1) ks else cap_kinds topics segments ks)"

definition topic_candidates ::
  "(string \<Rightarrow> string option) \<Rightarrow> string list \<Rightarrow> (string \<times> string) list \<Rightarrow> (topic_key \<times> string) list" where
  "topic_candidates texts pool segments =
     concat (map (\<lambda>t. case texts t of Some x \<Rightarrow> if x \<noteq> [] then [(Topic t, x)] else [] | None \<Rightarrow> []) pool)
     @ map (\<lambda>(r, x). (Segment r, x)) (filter (\<lambda>(r, x). x \<noteq> []) segments)"

definition select_topics ::
  "judge \<Rightarrow> (string \<Rightarrow> string option) \<Rightarrow> string list \<Rightarrow> nat \<Rightarrow> (string \<times> string) list
     \<Rightarrow> string list \<times> bool \<times> topic_key list" where
  "select_topics jd texts ranked max_results segments =
     (let legacy = (take max_results ranked, False, []);
          candidates = topic_candidates texts (take (max (jd_topic_pool_size jd) max_results) ranked) segments
      in if \<not> jd_topic_select jd \<or> length ranked + length segments < 2 \<or> length candidates < 2 then legacy
         else (case jd_topics jd candidates of
                 None \<Rightarrow> legacy
               | Some prob \<Rightarrow>
                   let ordered = cap_kinds max_results max_results
                         (sort_desc prob (filter (\<lambda>k. prob k \<ge> jd_topic_min jd) (remdups (map fst candidates))))
                   in if ordered = [] then legacy
                      else (concat (map (\<lambda>k. case k of Topic t \<Rightarrow> [t] | Segment _ \<Rightarrow> []) ordered), True, ordered)))"

definition tag_summary_item :: "tag_summary \<Rightarrow> summary" where
  "tag_summary_item ts = \<lparr>sm_ref = ''tag-summary-'' @ tg_tag ts, sm_primary = tg_tag ts, sm_tags = [tg_tag ts],
     sm_summary = tg_summary ts, sm_tokens = tg_tokens ts\<rparr>"

definition judged_items :: "memory \<Rightarrow> summary list \<Rightarrow> topic_key list \<Rightarrow> summary list" where
  "judged_items mm segments ordered =
     concat (map (\<lambda>k. case k of
         Topic t \<Rightarrow> (case loaded_topic mm t of Some ts \<Rightarrow> [tag_summary_item ts] | None \<Rightarrow> [])
       | Segment r \<Rightarrow> (case find (\<lambda>s. sm_ref s = r) segments of Some s \<Rightarrow> [s] | None \<Rightarrow> [])) ordered)"

definition rerank_summaries :: "judge \<Rightarrow> summary list \<Rightarrow> summary list" where
  "rerank_summaries jd xs =
     (if \<not> jd_rerank jd \<or> length xs < 2 then xs
      else (case jd_ranks jd (map sm_summary xs) of
              None \<Rightarrow> xs
            | Some prob \<Rightarrow> map (\<lambda>i. xs ! i)
                (sort_key (\<lambda>i. if prob i \<ge> jd_rerank_min jd then 0 else 1 :: nat) (sort_desc prob [0..<length xs]))))"

section \<open>Ranked summaries\<close>

definition best_score :: "scores \<Rightarrow> summary \<Rightarrow> rat" where
  "best_score scores s =
     (case map (get_score scores) (sm_tags s) of [] \<Rightarrow> 0 | x # xs \<Rightarrow> fold max xs x)"

definition idf_overlap :: "scores \<Rightarrow> string list \<Rightarrow> summary \<Rightarrow> rat" where
  "idf_overlap idf query s =
     sum_list (map (\<lambda>t. case map_of idf t of None \<Rightarrow> 1 | Some w \<Rightarrow> w) (filter (\<lambda>t. t \<in> set query) (sm_tags s)))"

fun add_missing :: "summary list \<Rightarrow> summary list \<Rightarrow> summary list" where
  "add_missing xs [] = xs"
| "add_missing xs (s # ss) = add_missing (if sm_ref s \<in> sm_ref ` set xs then xs else xs @ [s]) ss"

definition fetch_topics :: "memory \<Rightarrow> alias_map \<Rightarrow> nat \<Rightarrow> string list \<Rightarrow> summary list" where
  "fetch_topics mm aliases max_results topics =
     fold (\<lambda>c xs. let group = map fst (filter (\<lambda>(a, t). t = c) aliases)
                  in if group = [] then xs
                     else add_missing xs (get_summaries_by_tags group 1 (max_results * 3) mm))
       (if aliases = [] then [] else topics) (get_summaries_by_tags topics 1 (max_results * 3) mm)"

definition rank_summaries :: "scores \<Rightarrow> scores \<Rightarrow> string list \<Rightarrow> summary list \<Rightarrow> summary list" where
  "rank_summaries scores idf query xs = sort_desc (best_score scores) (sort_desc (idf_overlap idf query) xs)"

section \<open>The token budget\<close>

definition token_budget :: "retriever_config \<Rightarrow> rat \<Rightarrow> int" where
  "token_budget cfg utilization =
     py_int (of_int (rc_context_tokens cfg) *
       (if utilization > 1 / 2 then rc_budget_fraction cfg * max (1 / 10) (1 - utilization)
        else rc_budget_fraction cfg))"

record selection =
  sn_selected :: "summary list"
  sn_tokens :: int
  sn_overflow :: "summary list"

definition overflow_cap :: nat where
  "overflow_cap = 50"

definition consider_summary :: "int \<Rightarrow> summary \<Rightarrow> selection \<Rightarrow> selection" where
  "consider_summary budget s sn =
     (if sm_ref s \<in> sm_ref ` set (sn_selected sn) then sn
      else if sn_tokens sn + sm_tokens s > budget
      then (if length (sn_overflow sn) < overflow_cap then sn\<lparr>sn_overflow := sn_overflow sn @ [s]\<rparr> else sn)
      else sn\<lparr>sn_selected := sn_selected sn @ [s], sn_tokens := sn_tokens sn + sm_tokens s\<rparr>)"

definition select_within :: "int \<Rightarrow> summary list \<Rightarrow> selection" where
  "select_within budget xs =
     fold (consider_summary budget) xs \<lparr>sn_selected = [], sn_tokens = 0, sn_overflow = []\<rparr>"

text \<open>The tags of the alias groups of the query tags that made the cut.\<close>

definition alias_group_tags :: "alias_rows \<Rightarrow> string list \<Rightarrow> summary list \<Rightarrow> string list" where
  "alias_group_tags aliases query selected =
     (let reverse = (\<lambda>c. map fst (filter (\<lambda>(a, t). t = c) aliases));
          qualified = filter (\<lambda>t. t \<in> set query) (concat (map sm_tags selected))
      in filter (\<lambda>t. t \<notin> set query) (concat (map (\<lambda>q.
           (case map_of aliases q of Some c \<Rightarrow> c # reverse c | None \<Rightarrow> []) @ reverse q) qualified)))"

fun add_extras :: "summary list \<Rightarrow> string set \<Rightarrow> int \<Rightarrow> summary list" where
  "add_extras [] refs remaining = []"
| "add_extras (s # ss) refs remaining =
     (if sm_ref s \<in> refs \<or> sm_tokens s > remaining then add_extras ss refs remaining
      else s # add_extras ss (insert (sm_ref s) refs) (remaining - sm_tokens s))"

definition alias_ride_along :: "memory \<Rightarrow> string list \<Rightarrow> summary list \<Rightarrow> int \<Rightarrow> int \<Rightarrow> summary list" where
  "alias_ride_along mm query selected budget used =
     (let tags = alias_group_tags (get_tag_aliases (mm_aliases mm)) query selected
      in if tags = [] then []
         else add_extras (get_summaries_by_tags tags 1 50 mm) (sm_ref ` set selected) (budget - used))"

text \<open>A loop that stops at the first summary over the budget: what it took and the tokens used.\<close>

fun take_budget :: "int \<Rightarrow> int \<Rightarrow> summary list \<Rightarrow> summary list \<times> int" where
  "take_budget budget used [] = ([], used)"
| "take_budget budget used (s # ss) =
     (if used + sm_tokens s > budget then ([], used)
      else let (taken, n) = take_budget budget (used + sm_tokens s) ss in (s # taken, n))"

definition load_all_tag_summaries :: "memory \<Rightarrow> int \<Rightarrow> summary list \<times> int" where
  "load_all_tag_summaries mm budget = take_budget budget 0 (map tag_summary_item (get_all_tag_summaries mm))"

definition tokens_of :: "summary list \<Rightarrow> int" where
  "tokens_of xs = sum_list (map sm_tokens xs)"

text \<open>What is returned once the ranked summaries are settled: extras through aliases, then the
  full-text search, then the floor of tag summaries; with the tokens used.\<close>

definition complete_selection ::
  "search_index \<Rightarrow> memory \<Rightarrow> nat \<Rightarrow> bool \<Rightarrow> string list \<Rightarrow> string list \<Rightarrow> int \<Rightarrow> selection \<Rightarrow> summary list \<times> int" where
  "complete_selection si mm max_results post_compaction query expanded budget sn =
     (let riders = (if sn_selected sn = [] then []
                    else alias_ride_along mm query (sn_selected sn) budget (sn_tokens sn));
          chosen = sn_selected sn @ riders;
          used = sn_tokens sn + tokens_of riders;
          (found, used') = (if chosen = [] \<and> expanded \<noteq> []
                            then take_budget budget used (si_search si expanded max_results) else (chosen, used))
      in if found = [] \<and> post_compaction then load_all_tag_summaries mm budget else (found, used'))"

section \<open>Retrieval\<close>

definition topic_scores ::
  "(string \<Rightarrow> nat) \<Rightarrow> (rat list \<Rightarrow> rat list \<Rightarrow> rat) \<Rightarrow> (rat \<Rightarrow> rat) \<Rightarrow> search_index \<Rightarrow> memory
     \<Rightarrow> retriever_config \<Rightarrow> request \<Rightarrow> string list \<Rightarrow> scores" where
  "topic_scores h cosine lg si mm cfg rq query =
     (case rq_pool rq of
        Some pool \<Rightarrow> pool
      | None \<Rightarrow> score_candidates h cosine si mm (rc_scoring cfg) (compute_idf_weights lg (get_all_tags mm))
                  (get_all_tags mm) query (related_query_tags query rq) (rq_text rq) (rq_vector rq) (rq_context rq)
                  (rc_max_results cfg))"

definition ranked_candidates ::
  "(rat \<Rightarrow> rat) \<Rightarrow> memory \<Rightarrow> judge \<Rightarrow> retriever_config \<Rightarrow> request \<Rightarrow> string list \<Rightarrow> scores \<Rightarrow> summary list" where
  "ranked_candidates lg mm jd cfg rq query scores =
     (let aliases = flatten_alias_map (get_tag_aliases (mm_aliases mm));
          folded = fold_alias_scores aliases scores;
          all_scores = with_alias_keys aliases folded;
          pool = segment_candidates mm (rq_segment_refs rq);
          (topics, judged, ordered) = select_topics jd (\<lambda>t. map_option tg_summary (loaded_topic mm t))
             (rank_tags folded) (rc_max_results cfg) (map (\<lambda>s. (sm_ref s, sm_summary s)) pool);
          fetched = rerank_summaries jd (rank_summaries all_scores (compute_idf_weights lg (get_all_tags mm)) query
             (fetch_topics mm aliases (rc_max_results cfg) topics))
      in if judged then judged_items mm pool ordered @ fetched else fetched)"

definition retrieve ::
  "(string \<Rightarrow> nat) \<Rightarrow> (string set \<Rightarrow> string list) \<Rightarrow> (rat list \<Rightarrow> rat list \<Rightarrow> rat) \<Rightarrow> (rat \<Rightarrow> rat)
     \<Rightarrow> search_index \<Rightarrow> memory \<Rightarrow> tag_index option \<Rightarrow> judge \<Rightarrow> retriever_config \<Rightarrow> request \<Rightarrow> retrieval" where
  "retrieve h listing cosine lg si mm index jd cfg rq =
     (let query = resolve_query_tags listing cfg index rq;
          expanded = set_order h (query @ related_query_tags query rq);
          scores = topic_scores h cosine lg si mm cfg rq query;
          aliases = flatten_alias_map (get_tag_aliases (mm_aliases mm));
          budget = token_budget cfg (rq_utilization rq)
      in if query = []
         then (let (all, used) = (if rq_post_compaction rq then load_all_tag_summaries mm (rc_context_tokens cfg) else ([], 0))
               in \<lparr>rv_matched = [], rv_summaries = all, rv_tokens = used, rv_overflow = [],
                   rv_budget = rc_context_tokens cfg, rv_scores = []\<rparr>)
         else (let sn = select_within budget (ranked_candidates lg mm jd cfg rq query scores);
                   (found, used) = complete_selection si mm (rc_max_results cfg) (rq_post_compaction rq) query expanded budget sn
               in \<lparr>rv_matched = set_order h (filter (\<lambda>t. t \<in> set expanded) (concat (map sm_tags found))),
                   rv_summaries = found, rv_tokens = used, rv_overflow = sn_overflow sn,
                   rv_budget = budget, rv_scores = with_alias_keys aliases (fold_alias_scores aliases scores)\<rparr>))"

end
