(* ===== verification/ScoringProps.thy ===== *)
theory ScoringProps
  imports Scoring
begin

text \<open>
  Properties of the scoring passes: what the reserved seats do to the cut that follows them, how
  fusion respects agreeing signals, and the limits of the dampening passes.
\<close>

section \<open>Score dicts\<close>

named_theorems score_simps \<open>scores after one write\<close>

lemma get_score_update [score_simps]: "get_score (AList.update t x m) u = (if u = t then x else get_score m u)"
  by (simp add: get_score_def update_conv)

lemma keys_update_mem [score_simps]: "t \<in> fst ` set m \<Longrightarrow> map fst (AList.update t x m) = map fst m"
  by (simp add: update_keys)

lemma set_band_keys: "set ts \<subseteq> fst ` set m \<Longrightarrow> map fst (set_band start step ts m) = map fst m"
  by (induction ts arbitrary: start m) (simp_all add: score_simps flip: set_map)

lemma set_band_other: "u \<notin> set ts \<Longrightarrow> get_score (set_band start step ts m) u = get_score m u"
  by (induction ts arbitrary: start m) (simp_all add: score_simps)

lemma set_band_nth:
  assumes "distinct ts" "i < length ts"
  shows "get_score (set_band start step ts m) (ts ! i) = start - step * of_nat (Suc i)"
  using assms
proof (induction ts arbitrary: start m i)
  case (Cons t ts)
  show ?case
  proof (cases i)
    case 0
    then show ?thesis using Cons.prems by (simp add: set_band_other score_simps)
  next
    case (Suc j)
    then show ?thesis using Cons.IH[of j "start - step"] Cons.prems by (simp add: algebra_simps)
  qed
qed simp

section \<open>Reserved seats\<close>

text \<open>
  What seating does to a descending stable order: the elements of \<open>E\<close>, given falling values
  between those of a prefix and those of everything else, follow that prefix.
\<close>

lemma filter_singleton: "distinct xs \<Longrightarrow> filter (\<lambda>x. x = k) xs = (if k \<in> set xs then [k] else [])"
  by (induction xs) auto

lemma sort_desc_split:
  fixes f :: "'a \<Rightarrow> 'b :: linordered_ab_group_add"
  assumes "\<And>x y. x \<in> set K \<Longrightarrow> y \<in> set K \<Longrightarrow> P x \<Longrightarrow> \<not> P y \<Longrightarrow> f y < f x"
  shows "sort_desc f K = sort_desc f (filter P K) @ sort_desc f (filter (\<lambda>x. \<not> P x) K)"
proof (rule sort_desc_unique)
  let ?l = "sort_desc f (filter P K)" and ?r = "sort_desc f (filter (\<lambda>x. \<not> P x) K)"
  show "mset (?l @ ?r) = mset K" by simp
  show "filter (\<lambda>x. f x = f k) (?l @ ?r) = filter (\<lambda>x. f x = f k) K" if k: "k \<in> set (?l @ ?r)" for k
  proof (cases "P k")
    case True
    then have "P x" if "x \<in> set K" "f x = f k" for x using assms[of k x] that k by auto
    then have "filter (\<lambda>x. f x = f k \<and> \<not> P x) K = []" "filter (\<lambda>x. f x = f k \<and> P x) K = filter (\<lambda>x. f x = f k) K"
      by (auto simp: filter_empty_conv intro!: filter_cong)
    then show ?thesis by (simp add: sort_desc_stable conj_commute)
  next
    case False
    then have "\<not> P x" if "x \<in> set K" "f x = f k" for x using assms[of x k] that k by auto
    then have "filter (\<lambda>x. f x = f k \<and> P x) K = []" "filter (\<lambda>x. f x = f k \<and> \<not> P x) K = filter (\<lambda>x. f x = f k) K"
      by (auto simp: filter_empty_conv intro!: filter_cong)
    then show ?thesis by (simp add: sort_desc_stable conj_commute)
  qed
  show "sorted_wrt (\<lambda>x y. f x \<ge> f y) (?l @ ?r)"
    using sort_desc_sorted[of f "filter P K"] sort_desc_sorted[of f "filter (\<lambda>x. \<not> P x) K"] assms
    by (auto simp: sorted_wrt_append intro: less_imp_le)
qed

lemma sort_desc_strict:
  fixes f :: "'a \<Rightarrow> 'b :: linordered_ab_group_add"
  assumes "sorted_wrt (\<lambda>x y. f x > f y) E" "set E = set K" "distinct K"
  shows "sort_desc f K = E"
proof (rule sort_desc_unique)
  have inj: "x = y" if "x \<in> set E" "y \<in> set E" "f x = f y" for x y
    using assms(1) that by (metis in_set_conv_nth less_irrefl linorder_neqE_nat sorted_wrt_nth_less)
  have d: "distinct E"
    unfolding distinct_conv_nth using assms(1) by (metis less_irrefl linorder_neqE_nat sorted_wrt_nth_less)
  then show "mset E = mset K" using assms(2,3) by (simp add: set_eq_iff_mset_eq_distinct)
  show "filter (\<lambda>x. f x = f k) E = filter (\<lambda>x. f x = f k) K" if "k \<in> set E" for k
  proof -
    have "filter (\<lambda>x. f x = f k) zs = filter (\<lambda>x. x = k) zs" if "set zs = set E" for zs
      using inj[OF _ \<open>k \<in> set E\<close>] that by (intro filter_cong) auto
    then show ?thesis using filter_singleton[OF d] filter_singleton[OF assms(3)] assms(2) by simp
  qed
  show "sorted_wrt (\<lambda>x y. f x \<ge> f y) E" using assms(1) by (rule sorted_wrt_mono_rel[rotated]) simp
qed

lemma sort_desc_cong:
  fixes f g :: "'a \<Rightarrow> 'b :: linordered_ab_group_add"
  shows "(\<And>x. x \<in> set xs \<Longrightarrow> f x = g x) \<Longrightarrow> sort_desc f xs = sort_desc g xs"
proof (rule sort_desc_unique)
  assume eq: "\<And>x. x \<in> set xs \<Longrightarrow> f x = g x"
  show "mset (sort_desc g xs) = mset xs" by simp
  show "filter (\<lambda>x. f x = f k) (sort_desc g xs) = filter (\<lambda>x. f x = f k) xs" if "k \<in> set (sort_desc g xs)" for k
  proof -
    have "filter (\<lambda>x. f x = f k) zs = filter (\<lambda>x. g x = g k) zs" if "set zs = set xs" for zs
      using eq that \<open>k \<in> set (sort_desc g xs)\<close> by (intro filter_cong) auto
    then show ?thesis using sort_desc_stable[of g "g k" xs] by simp
  qed
  show "sorted_wrt (\<lambda>x y. f x \<ge> f y) (sort_desc g xs)"
    by (rule sorted_wrt_mono_rel[OF _ sort_desc_sorted]) (simp add: eq)
qed

lemma seat_order:
  fixes f f' :: "'a \<Rightarrow> rat"
  assumes K: "distinct K" and S: "S = take a (sort_desc f K)" and E: "set E \<subseteq> set K - set S"
    and same: "\<And>x. x \<notin> set E \<Longrightarrow> f' x = f x"
    and dec: "sorted_wrt (\<lambda>x y. f' x > f' y) E"
    and upper: "\<And>s e. s \<in> set S \<Longrightarrow> e \<in> set E \<Longrightarrow> f' e < f s"
    and lower: "\<And>e r. e \<in> set E \<Longrightarrow> r \<in> set K - set S - set E \<Longrightarrow> f r < f' e"
    and gap: "\<And>s r. s \<in> set S \<Longrightarrow> r \<in> set K - set S \<Longrightarrow> f r < f s"
  shows "take (length S + length E) (sort_desc f' K) = S @ E"
proof -
  let ?in = "filter (\<lambda>x. x \<in> set S) K" and ?out = "filter (\<lambda>x. x \<notin> set S) K"
  have SK: "set S \<subseteq> set K" using set_take_subset[of a "sort_desc f K"] by (simp add: S)
  have dS: "distinct S" using K by (simp add: S)
  have len: "length ?in = length S"
  proof -
    have "set ?in = set S" using SK by auto
    then show ?thesis using distinct_card[OF dS] distinct_card[of ?in] K by simp
  qed
  have "sort_desc f K = sort_desc f ?in @ sort_desc f ?out" by (rule sort_desc_split) (use gap in auto)
  then have "take (length S) (sort_desc f K) = sort_desc f ?in" using len by simp
  moreover have "take (length S) (sort_desc f K) = S" by (simp add: S min_def)
  ultimately have "sort_desc f ?in = S" by simp
  moreover have "sort_desc f' ?in = sort_desc f ?in" by (rule sort_desc_cong) (use same E in auto)
  ultimately have 1: "sort_desc f' ?in = S" by simp
  have 2: "sort_desc f' (filter (\<lambda>x. x \<in> set E) ?out) = E"
    by (rule sort_desc_strict[OF dec]) (use E K in auto)
  have "sort_desc f' K = sort_desc f' ?in @ sort_desc f' ?out"
  proof (rule sort_desc_split)
    fix x y assume "y \<in> set K" "x \<in> set S" "y \<notin> set S"
    moreover have "x \<notin> set E" using E \<open>x \<in> set S\<close> by auto
    ultimately show "f' y < f' x" using upper[of x y] gap[of x y] same[of x] same[of y] E by (cases "y \<in> set E") auto
  qed
  also have "sort_desc f' ?out = sort_desc f' (filter (\<lambda>x. x \<in> set E) ?out) @ sort_desc f' (filter (\<lambda>x. x \<notin> set E) ?out)"
    by (rule sort_desc_split) (use lower same in auto)
  finally show ?thesis unfolding 1 2 by simp
qed

text \<open>The cut before the seats: which boundary the gap is measured at.\<close>

definition boundary_gap :: "nat \<Rightarrow> nat \<Rightarrow> scores \<Rightarrow> bool" where
  "boundary_gap kept top_k fused \<longleftrightarrow>
     (kept > 0 \<and> kept < top_k \<longrightarrow>
        get_score fused (rank_tags fused ! kept) < get_score fused (rank_tags fused ! (kept - 1)))"

lemma rank_tags_sorted: "sorted_wrt (\<lambda>x y. get_score m x \<ge> get_score m y) (rank_tags m)"
  by (simp add: rank_tags_def sort_desc_sorted)

lemma distinct_rank_tags [simp]: "distinct (rank_tags m) = distinct (map fst m)"
  by (simp add: rank_tags_def)

lemma set_rank_tags [simp]: "set (rank_tags m) = fst ` set m"
  by (simp add: rank_tags_def)

lemma rank_le: "i \<le> j \<Longrightarrow> j < length (rank_tags m) \<Longrightarrow> get_score m (rank_tags m ! j) \<le> get_score m (rank_tags m ! i)"
  using rank_tags_sorted[of m] by (cases "i = j") (auto simp: sorted_wrt_iff_nth_less)

lemma seats_band:
  assumes fused: "distinct (map fst fused)" and emb: "distinct emb"
    and S: "S = take kept (rank_tags fused)" and E: "distinct E" "set E \<subseteq> fst ` set fused - set (take k (rank_tags fused))"
    and kept: "kept + length E = k" "k < length (rank_tags fused)" "E \<noteq> []"
    and u: "up = (if S \<noteq> [] then get_score fused (last S) else get_score fused (hd (rank_tags fused)) + 1)"
    and l: "lo = get_score fused (rank_tags fused ! kept)" and lu: "lo < up"
    and step: "step = (up - lo) / of_nat (length E + 1)"
  shows "take k (rank_tags (set_band up step E fused)) = S @ E"
proof -
  let ?f = "get_score fused" and ?f' = "get_score (set_band up step E fused)" and ?r = "rank_tags fused"
  have keys: "map fst (set_band up step E fused) = map fst fused" by (rule set_band_keys) (use E(2) in auto)
  have step0: "step > 0" using lu by (simp add: step)
  have band: "?f' (E ! i) = up - step * of_nat (Suc i)" if "i < length E" for i
    by (rule set_band_nth[OF E(1) that])
  have in_band: "lo < ?f' e \<and> ?f' e < up" if e: "e \<in> set E" for e
  proof -
    obtain i where i: "i < length E" "e = E ! i" using e by (metis in_set_conv_nth)
    have "step * of_nat (Suc i) < step * of_nat (length E + 1)" using step0 i(1) by (intro mult_strict_left_mono) auto
    also have "\<dots> = up - lo" by (simp add: step)
    finally show ?thesis using band[OF i(1)] i(2) step0 by simp
  qed
  have lenS: "length S = kept" using kept by (simp add: S)
  have S_ge: "?f s \<ge> up" if s: "s \<in> set S" for s
  proof -
    obtain i where i: "i < kept" "s = ?r ! i" using s lenS by (auto simp: S in_set_conv_nth)
    have "last S = ?r ! (kept - 1)" using i lenS by (subst last_conv_nth) (auto simp: S)
    then show ?thesis using rank_le[of i "kept - 1" fused] i kept s by (auto simp: u)
  qed
  have out_le: "?f x \<le> lo" if x: "x \<in> fst ` set fused - set S" for x
  proof -
    obtain j where j: "j < length ?r" "x = ?r ! j" using x by (metis DiffD1 in_set_conv_nth set_rank_tags)
    have "x \<in> set S" if "j < kept" using j that lenS nth_mem[of j S] by (simp add: S)
    then have "kept \<le> j" using x by (meson DiffD2 not_le)
    then show ?thesis using rank_le[of kept j fused] j by (simp add: l)
  qed
  have "take (length S + length E) (sort_desc ?f' (map fst fused)) = S @ E"
  proof (rule seat_order[where f = ?f and a = kept])
    show "S = take kept (sort_desc ?f (map fst fused))" by (simp add: S rank_tags_def)
    show "distinct (map fst fused)" by (rule fused)
    have "set S \<subseteq> set (take k ?r)" using kept(1) by (auto simp: S set_take_subset_set_take)
    then show "set E \<subseteq> set (map fst fused) - set S" using E(2) by auto
    show "?f' x = ?f x" if "x \<notin> set E" for x by (rule set_band_other[OF that])
    show "sorted_wrt (\<lambda>x y. ?f' x > ?f' y) E"
      unfolding sorted_wrt_iff_nth_less using band step0 by (auto simp: mult_less_cancel_left_pos)
    show "?f' e < ?f s" if "s \<in> set S" "e \<in> set E" for s e using in_band[OF that(2)] S_ge[OF that(1)] by simp
    show "?f r < ?f' e" if "e \<in> set E" "r \<in> set (map fst fused) - set S - set E" for e r
      using in_band[OF that(1)] out_le[of r] that(2) by auto
    show "?f r < ?f s" if "s \<in> set S" "r \<in> set (map fst fused) - set S" for s r
      using S_ge[OF that(1)] out_le[of r] that(2) lu by auto
  qed
  then show ?thesis using keys lenS kept(1) by (simp add: rank_tags_def)
qed

text \<open>C15: Reserved seats do what their documentation promises whenever there is a gap at the
  boundary: the cut of the first \<open>top_k\<close> tags after seating consists of the entries that kept
  their seats, in their order, followed by the seated tags, the best ones of the embedding order
  that were outside the cut; and no other tag's score changes.\<close>

theorem reserved_seats_swap:
  assumes "distinct (map fst fused)" "distinct ranked"
    and run: "apply_embedding_reserved_seats ranked seats top_k fused = (seated, fused')"
    and gap: "boundary_gap (top_k - length seated) top_k fused"
  shows "take top_k (rank_tags fused') = take (top_k - length seated) (rank_tags fused) @ seated
     \<and> seated = take (length seated) (filter (\<lambda>t. t \<in> fst ` set fused \<and> t \<notin> set (take top_k (rank_tags fused))) ranked)
     \<and> length seated \<le> min seats top_k
     \<and> (\<forall>t. t \<notin> set seated \<longrightarrow> get_score fused' t = get_score fused t)"
proof -
  let ?top = "take top_k (rank_tags fused)"
  let ?outside = "filter (\<lambda>t. t \<in> fst ` set fused \<and> t \<notin> set ?top) ranked"
  let ?m = "min (length (take seats ?outside)) top_k"
  let ?E = "take ?m (take seats ?outside)"
  show ?thesis
  proof (cases "seats = 0 \<or> top_k = 0 \<or> ranked = [] \<or> fused = [] \<or> length (rank_tags fused) \<le> top_k
      \<or> min (length (take seats ?outside)) top_k = 0")
    case True
    then have "seated = [] \<and> fused' = fused" using run by (auto simp: apply_embedding_reserved_seats_def Let_def)
    then show ?thesis by simp
  next
    case False
    then have nz: "top_k < length (rank_tags fused)" by (simp add: not_le)
    then have ne: "rank_tags fused \<noteq> []" by auto
    have m: "?m = length ?E" by simp
    define kept where "kept = top_k - ?m"
    define up where "up = (if take kept ?top \<noteq> [] then get_score fused (last (take kept ?top))
      else get_score fused (hd (rank_tags fused)) + 1)"
    define lo where "lo = get_score fused (rank_tags fused ! kept)"
    have kl: "kept = top_k - length ?E" unfolding kept_def m[symmetric] ..
    have "distinct ?E" "length ?E \<le> top_k" "length ?E \<le> seats" using assms(2) by simp_all
    moreover have "set ?E \<subseteq> fst ` set fused - set ?top"
    proof -
      have "set ?E \<subseteq> set ?outside" by (meson order.trans set_take_subset)
      then show ?thesis by auto
    qed
    moreover have "length ?E \<noteq> 0" using False by (simp only: length_take de_Morgan_disj) simp
    then have "?E \<noteq> []" unfolding length_0_conv .
    ultimately have E: "distinct ?E" "set ?E \<subseteq> fst ` set fused - set ?top" "length ?E \<le> top_k" "?E \<noteq> []"
      "length ?E \<le> seats" by blast+
    have S: "take kept ?top = take kept (rank_tags fused)" by (simp add: kept_def min_def)
    have hd: "hd (drop kept ?top) = rank_tags fused ! kept"
      using nz E(3,4) by (subst hd_drop_conv_nth) (auto simp: kl)
    note body = run[unfolded apply_embedding_reserved_seats_def Let_def if_not_P[OF False], folded kept_def, folded up_def]
    have E_eq: "seated = ?E" using body by (simp only: split_def prod.inject)
    have lu: "lo < up"
    proof (cases "kept = 0")
      case True
      then show ?thesis by (simp add: lo_def up_def hd_conv_nth ne)
    next
      case F: False
      have "last (take kept (rank_tags fused)) = rank_tags fused ! (kept - 1)"
        using F nz kl ne by (subst last_conv_nth) auto
      moreover have "kept < top_k" using E(3,4) F by (simp add: kl)
      moreover have "take kept (rank_tags fused) \<noteq> []" using F ne by simp
      ultimately show ?thesis using gap F unfolding E_eq kl[symmetric] lo_def up_def S boundary_gap_def by simp
    qed
    have "\<not> up \<le> lo" using lu by simp
    note body' = body[unfolded hd, folded lo_def, unfolded if_not_P[OF this] split_def fst_conv snd_conv prod.inject]
    have fused': "fused' = set_band up ((up - lo) / of_nat (length ?E + 1)) ?E fused"
      unfolding m[symmetric] by (rule body'[THEN conjunct2, symmetric])
    have sum: "kept + length ?E = top_k" using E(3) unfolding kl by (rule le_add_diff_inverse2)
    have "take top_k (rank_tags fused') = take kept (rank_tags fused) @ ?E"
      unfolding fused'
      by (rule seats_band[OF assms(1,2) refl E(1,2) sum nz E(4) up_def[unfolded S] lo_def lu refl])
    moreover have "get_score fused' t = get_score fused t" if "t \<notin> set ?E" for t
      unfolding fused' by (rule set_band_other[OF that])
    ultimately show ?thesis using E(3,5) unfolding E_eq kl by (simp add: min_def)
  qed
qed

definition demo_scores :: scores where
  "demo_scores = [(''a'', 5), (''b'', 4), (''c'', 3), (''d'', 1)]"

theorem reserved_seats_swap_witness:
  "\<exists>seated fused'. apply_embedding_reserved_seats [''a'', ''d''] 2 2 demo_scores = (seated, fused')
     \<and> take 2 (rank_tags fused') = [''a'', ''d'']"
proof -
  obtain seated fused' where run: "apply_embedding_reserved_seats [''a'', ''d''] 2 2 demo_scores = (seated, fused')" by fastforce
  have "fst (apply_embedding_reserved_seats [''a'', ''d''] 2 2 demo_scores) = [''d'']" by code_simp
  then have seated: "seated = [''d'']" using run by simp
  have "distinct (map fst demo_scores)" "distinct [''a'', ''d'']" by (simp_all add: demo_scores_def)
  moreover have "boundary_gap (2 - length [''d'']) 2 demo_scores" by code_simp
  moreover have "take (2 - length [''d'']) (rank_tags demo_scores) = [''a'']" by code_simp
  ultimately show ?thesis using reserved_seats_swap[of demo_scores "[''a'', ''d'']" 2 2 seated fused'] run seated by simp
qed


section \<open>Fusion\<close>

lemma rrf_term_mono:
  assumes "0 \<le> (w :: rat)" "(m :: nat) \<le> n"
  shows "w * (1 / of_nat (k + n + 1)) \<le> w * (1 / of_nat (k + m + 1))"
proof (rule mult_left_mono[OF _ assms(1)])
  have "(of_nat (k + m + 1) :: rat) \<le> of_nat (k + n + 1)" unfolding of_nat_le_iff using assms(2) by simp
  moreover have "(0 :: rat) < of_nat (k + m + 1)" unfolding of_nat_0_less_iff by simp
  ultimately show "(1 :: rat) / of_nat (k + n + 1) \<le> 1 / of_nat (k + m + 1)" by (simp only: frac_le zero_le_one order_refl)
qed

lemma rrf_score_mono:
  assumes "\<forall>(ranking, w)\<in>set rankings. 0 \<le> w \<and> rank_in k ranking a \<le> rank_in k ranking b"
  shows "rrf_score rankings k b \<le> rrf_score rankings k a"
  unfolding rrf_score_def
proof (rule sum_list_mono)
  fix x assume x: "x \<in> set rankings"
  obtain r w where "x = (r, w)" by fastforce
  then show "(case x of (r, w) \<Rightarrow> w * (1 / of_nat (k + rank_in k r b + 1)))
      \<le> (case x of (r, w) \<Rightarrow> w * (1 / of_nat (k + rank_in k r a + 1)))"
    using assms x rrf_term_mono[of w "rank_in k r a" "rank_in k r b" k] by (auto simp del: of_nat_add of_nat_Suc)
qed

lemma rrf_score_le:
  assumes "\<forall>(ranking, w)\<in>set rankings. 0 \<le> w"
  shows "rrf_score rankings k a \<le> sum_list (map snd rankings) / of_nat (k + 1)"
proof -
  have "rrf_score rankings k a \<le> sum_list (map (\<lambda>(r, w). w * (1 / of_nat (k + 0 + 1))) rankings)"
    unfolding rrf_score_def
  proof (rule sum_list_mono)
    fix x assume x: "x \<in> set rankings"
    obtain r w where "x = (r, w)" by fastforce
    then show "(case x of (r, w) \<Rightarrow> w * (1 / of_nat (k + rank_in k r a + 1)))
        \<le> (case x of (r, w) \<Rightarrow> w * (1 / of_nat (k + 0 + 1)))"
      using assms x rrf_term_mono[of w 0 "rank_in k r a" k] by (auto simp del: of_nat_add of_nat_Suc)
  qed
  also have "\<dots> = sum_list (map snd rankings) / of_nat (k + 1)"
    by (induction rankings) (auto simp: add_divide_distrib)
  finally show ?thesis .
qed

lemma get_score_map: "t \<in> set ts \<Longrightarrow> get_score (map (\<lambda>t. (t, f t)) ts) t = f t"
  by (simp add: get_score_def map_of_map_restrict)

lemma get_score_rrf_fuse:
  "t \<in> fst ` set (rrf_fuse h rankings k) \<Longrightarrow> get_score (rrf_fuse h rankings k) t = rrf_score rankings k t"
  unfolding rrf_fuse_def by (rule get_score_map) force

lemma distinct_rrf_fuse [simp]: "distinct (map fst (rrf_fuse h rankings k))"
  by (simp add: rrf_fuse_def comp_def)

text \<open>Fusion agrees with its signals: when no weight is negative and a tag is placed at least as
  high as another by every signal (missing tags at the penalty rank), its fused score is at least
  as high, and every fused score lies between zero and the weights' sum over \<open>k + 1\<close>.\<close>

theorem fusion_respects_agreement:
  assumes "a \<in> fst ` set (rrf_fuse h rankings k)" "b \<in> fst ` set (rrf_fuse h rankings k)"
    and "\<forall>(ranking, w)\<in>set rankings. 0 \<le> w \<and> rank_in k ranking a \<le> rank_in k ranking b"
  shows "0 \<le> get_score (rrf_fuse h rankings k) b
     \<and> get_score (rrf_fuse h rankings k) b \<le> get_score (rrf_fuse h rankings k) a
     \<and> get_score (rrf_fuse h rankings k) a \<le> sum_list (map snd rankings) / of_nat (k + 1)"
proof -
  have "0 \<le> rrf_score rankings k b" using assms(3) unfolding rrf_score_def by (intro sum_list_nonneg) auto
  moreover have "rrf_score rankings k a \<le> sum_list (map snd rankings) / of_nat (k + 1)"
    by (rule rrf_score_le) (use assms(3) in auto)
  ultimately show ?thesis using rrf_score_mono[OF assms(3)] assms(1,2) by (simp add: get_score_rrf_fuse)
qed

theorem fusion_respects_agreement_witness:
  "get_score (rrf_fuse length [([(''a'', 0), (''b'', 1)], 1 / 2), ([(''b'', 0), (''a'', 0)], 1 / 2)] 60) ''b''
     \<le> get_score (rrf_fuse length [([(''a'', 0), (''b'', 1)], 1 / 2), ([(''b'', 0), (''a'', 0)], 1 / 2)] 60) ''a''"
  by (rule fusion_respects_agreement[THEN conjunct2, THEN conjunct1])
    (simp_all add: rrf_fuse_def set_order_def rank_in_def)

section \<open>Dampening\<close>

text \<open>The hub penalty stays within its limits: it keeps the candidates and their order in the
  dict, never raises a score, never takes it below the configured fraction, and leaves the tags of
  the query and the tags with at most the ninth decile of segments alone.\<close>

theorem hub_penalty_bounded:
  assumes "0 \<le> strength" "min_fraction \<le> 1" "\<forall>(t, x)\<in>set fused. 0 \<le> x"
  shows "list_all2 (\<lambda>(t, x) (u, y). u = t \<and> min_fraction * x \<le> y \<and> y \<le> x
           \<and> (t \<in> set query \<or> segment_count stats t \<le> hub_threshold stats \<longrightarrow> y = x))
         fused (apply_hub_dampening stats query strength min_fraction fused)"
proof -
  define p90 where "p90 = hub_threshold stats"
  define most where "most = last (sort (map snd stats))"
  define penalty :: "nat \<Rightarrow> rat" where
    "penalty n = max min_fraction (1 - strength * (of_nat n - of_nat p90) / (of_nat most - of_nat p90))" for n
  define step where "step = (\<lambda>(t, x). let n = segment_count stats t
    in if n \<le> p90 \<or> t \<in> set query then (t, x) else (t, x * penalty n))"
  define R where "R = (\<lambda>(t, x) (u, y). u = t \<and> min_fraction * x \<le> y \<and> y \<le> x
    \<and> (t \<in> set query \<or> segment_count stats t \<le> p90 \<longrightarrow> y = (x :: rat)))"
  have run: "apply_hub_dampening stats query strength min_fraction fused
      = (if length stats < 2 \<or> p90 \<ge> most then fused else map step fused)"
    unfolding apply_hub_dampening_def Let_def p90_def most_def penalty_def step_def ..
  have scale: "min_fraction * x \<le> x" if "0 \<le> x" for x using that assms(2) by (metis mult_1 mult_right_mono)
  have same: "R (t, x) (t, x)" if "(t, x) \<in> set fused" for t x
    using scale[of x] assms(3) that unfolding R_def prod.case by blast
  have pen: "R (t, x) (step (t, x))" if p: "p90 < most" and x: "(t, x) \<in> set fused" for t x
  proof (cases "segment_count stats t \<le> p90 \<or> t \<in> set query")
    case True
    then show ?thesis using same[OF x] by (simp only: step_def prod.case Let_def if_True)
  next
    case False
    have "0 \<le> strength * (of_nat (segment_count stats t) - of_nat p90) / (of_nat most - of_nat p90 :: rat)"
      using False p assms(1) by (intro divide_nonneg_pos mult_nonneg_nonneg) auto
    then have "penalty (segment_count stats t) \<le> 1" using assms(2) by (simp add: penalty_def)
    moreover have "min_fraction \<le> penalty (segment_count stats t)" by (simp add: penalty_def)
    moreover have "0 \<le> x" using assms(3) x by blast
    ultimately have "x * penalty (segment_count stats t) \<le> x" "min_fraction * x \<le> x * penalty (segment_count stats t)"
      by (metis mult.right_neutral mult_left_mono, metis mult.commute mult_right_mono)
    then show ?thesis using False by (simp only: step_def R_def prod.case Let_def if_False) blast
  qed
  have "list_all2 R fused (if length stats < 2 \<or> p90 \<ge> most then fused else map step fused)"
    using same pen by (auto simp only: list_all2_map2 list_all2_same not_le split: if_splits)
  then show ?thesis unfolding run R_def p90_def .
qed

definition demo_stats :: "(string \<times> nat) list" where
  "demo_stats = (''hub'', 9) # map (\<lambda>c. ([c], 1)) ''abcdefghij''"

theorem hub_penalty_bounded_witness:
  "\<exists>y. apply_hub_dampening demo_stats [''a''] (3 / 5) (1 / 5) [(''hub'', 1)] = [(''hub'', y)] \<and> 1 / 5 \<le> y \<and> y < 1"
proof -
  have "apply_hub_dampening demo_stats [''a''] (3 / 5) (1 / 5) [(''hub'', 1)] = [(''hub'', 2 / 5)]" by code_simp
  moreover from this have "(1 / 5 :: rat) \<le> 2 / 5"
    using hub_penalty_bounded[of "3 / 5" "1 / 5" "[(''hub'', 1)]" "[''a'']" demo_stats] by (simp add: list_all2_Cons1)
  ultimately show ?thesis by (intro exI[of _ "2 / 5"]) simp
qed

end
