(* ===== verification/RetrievalProps.thy ===== *)
theory RetrievalProps
  imports Retrieval ScoringProps
begin

text \<open>
  What a retrieval returns: summaries that fit the budget and are pairwise different, with nothing
  left out that would still fit, from topics that are whole alias groups.
\<close>

section \<open>Loops over the budget\<close>

lemma tokens_of_simps [simp]: "tokens_of [] = 0" "tokens_of (s # ss) = sm_tokens s + tokens_of ss"
  "tokens_of (xs @ ys) = tokens_of xs + tokens_of ys"
  by (simp_all add: tokens_of_def)

lemma tokens_of_nonneg: "\<forall>s\<in>set xs. 0 \<le> sm_tokens s \<Longrightarrow> 0 \<le> tokens_of xs"
  by (induction xs) auto

text \<open>A result: its tokens are what its summaries take, within the budget, and no reference repeats.\<close>

definition fits :: "int \<Rightarrow> summary list \<Rightarrow> int \<Rightarrow> bool" where
  "fits budget xs used \<longleftrightarrow> used = tokens_of xs \<and> used \<le> budget \<and> distinct (map sm_ref xs)"

lemma fits_snoc:
  "fits budget xs used \<Longrightarrow> sm_ref s \<notin> sm_ref ` set xs \<Longrightarrow> used + sm_tokens s \<le> budget
     \<Longrightarrow> fits budget (xs @ [s]) (used + sm_tokens s)"
  by (auto simp: fits_def)

definition settled :: "int \<Rightarrow> summary list \<Rightarrow> int \<Rightarrow> summary \<Rightarrow> bool" where
  "settled budget xs used s \<longleftrightarrow> sm_ref s \<in> sm_ref ` set xs \<or> used + sm_tokens s > budget"

lemma settled_mono: "settled budget xs used s \<Longrightarrow> set xs \<subseteq> set ys \<Longrightarrow> used \<le> used' \<Longrightarrow> settled budget ys used' s"
  by (auto simp: settled_def)

lemma select_loop:
  assumes "fits budget (sn_selected sn) (sn_tokens sn)" "\<forall>s\<in>set xs. 0 \<le> sm_tokens s"
  shows "fits budget (sn_selected (fold (consider_summary budget) xs sn)) (sn_tokens (fold (consider_summary budget) xs sn))
     \<and> sn_tokens sn \<le> sn_tokens (fold (consider_summary budget) xs sn)
     \<and> set (sn_selected sn) \<subseteq> set (sn_selected (fold (consider_summary budget) xs sn))
     \<and> (\<forall>s\<in>set xs. settled budget (sn_selected (fold (consider_summary budget) xs sn))
                                   (sn_tokens (fold (consider_summary budget) xs sn)) s)"
  using assms
proof (induction xs arbitrary: sn)
  case (Cons s xs)
  define sn1 where "sn1 = consider_summary budget s sn"
  have 1: "fits budget (sn_selected sn1) (sn_tokens sn1)" "sn_tokens sn \<le> sn_tokens sn1"
    "set (sn_selected sn) \<subseteq> set (sn_selected sn1)" "settled budget (sn_selected sn1) (sn_tokens sn1) s"
    using Cons.prems fits_snoc[OF Cons.prems(1), of s] by (auto simp: sn1_def consider_summary_def settled_def)
  have "\<forall>s\<in>set xs. 0 \<le> sm_tokens s" using Cons.prems(2) by simp
  note IH = Cons.IH[OF 1(1) this]
  have "settled budget (sn_selected (fold (consider_summary budget) xs sn1)) (sn_tokens (fold (consider_summary budget) xs sn1)) s"
    by (rule settled_mono[OF 1(4)]) (use IH in auto)
  then show ?case using IH 1(2,3) by (auto simp: sn1_def[symmetric])
qed simp

lemma take_budget_ok:
  "take_budget budget used xs = (ys, n) \<Longrightarrow> used \<le> budget \<Longrightarrow>
     n = used + tokens_of ys \<and> n \<le> budget \<and> (\<exists>k. ys = take k xs)"
proof (induction xs arbitrary: used ys n)
  case (Cons s xs)
  show ?case
  proof (cases "used + sm_tokens s > budget")
    case True
    then show ?thesis using Cons.prems by (auto intro: exI[of _ 0])
  next
    case False
    obtain zs m where zs: "take_budget budget (used + sm_tokens s) xs = (zs, m)" by fastforce
    obtain k where "zs = take k xs" "m = used + sm_tokens s + tokens_of zs" "m \<le> budget"
      using Cons.IH[OF zs] False by auto
    then show ?thesis using Cons.prems(1) False zs by (auto intro: exI[of _ "Suc k"])
  qed
qed auto

lemma take_budget_fits:
  assumes "take_budget budget 0 xs = (ys, n)" "0 \<le> budget" "distinct (map sm_ref xs)"
  shows "fits budget ys n"
proof -
  obtain k where "ys = take k xs" "n = tokens_of ys" "n \<le> budget" using take_budget_ok[OF assms(1,2)] by auto
  then show ?thesis using assms(3) by (simp add: fits_def flip: take_map)
qed

lemma add_extras_ok:
  "0 \<le> room \<Longrightarrow> tokens_of (add_extras xs refs room) \<le> room \<and> distinct (map sm_ref (add_extras xs refs room))
     \<and> sm_ref ` set (add_extras xs refs room) \<inter> refs = {} \<and> set (add_extras xs refs room) \<subseteq> set xs"
proof (induction xs arbitrary: refs room)
  case (Cons s xs)
  show ?case
  proof (cases "sm_ref s \<in> refs \<or> sm_tokens s > room")
    case True
    then show ?thesis using Cons.IH[OF Cons.prems] by auto
  next
    case False
    then show ?thesis using Cons.IH[of "room - sm_tokens s" "insert (sm_ref s) refs"] by auto
  qed
qed simp

section \<open>Where summaries come from\<close>

definition memory_ok :: "memory \<Rightarrow> bool" where
  "memory_ok mm \<longleftrightarrow> (\<forall>r\<in>set (mm_segments mm). 0 \<le> sr_tokens r)
     \<and> (\<forall>ts\<in>set (mm_tag_summaries mm). 0 \<le> tg_tokens ts) \<and> distinct (map tg_tag (mm_tag_summaries mm))"

definition search_ok :: "search_index \<Rightarrow> bool" where
  "search_ok si \<longleftrightarrow> (\<forall>ts n. distinct (map sm_ref (si_search si ts n)) \<and> (\<forall>s\<in>set (si_search si ts n). 0 \<le> sm_tokens s))"

lemma get_summaries_nonneg: "memory_ok mm \<Longrightarrow> \<forall>s\<in>set (get_summaries_by_tags ts k n mm). 0 \<le> sm_tokens s"
  by (auto simp: get_summaries_by_tags_def memory_ok_def row_to_summary_def dest!: in_set_takeD)

lemma set_add_missing: "set (add_missing xs ys) \<subseteq> set xs \<union> set ys"
proof (induction ys arbitrary: xs)
  case (Cons y ys)
  show ?case using Cons.IH[of xs] Cons.IH[of "xs @ [y]"] by auto
qed simp

lemma fold_keeps: "P x \<Longrightarrow> (\<And>c x. P x \<Longrightarrow> P (f c x)) \<Longrightarrow> P (fold f cs x)"
  by (induction cs arbitrary: x) auto

lemma fetch_topics_nonneg:
  assumes "memory_ok mm"
  shows "\<forall>s\<in>set (fetch_topics mm aliases n topics). 0 \<le> sm_tokens s"
  unfolding fetch_topics_def
proof (rule fold_keeps[where P = "\<lambda>xs. \<forall>s\<in>set xs. 0 \<le> sm_tokens s"])
  show "\<forall>s\<in>set (get_summaries_by_tags topics 1 (n * 3) mm). 0 \<le> sm_tokens s" by (rule get_summaries_nonneg[OF assms])
  fix c and xs :: "summary list" assume xs: "\<forall>s\<in>set xs. 0 \<le> sm_tokens s"
  define group where "group = map fst (filter (\<lambda>(a, t). t = c) aliases)"
  have "\<forall>s\<in>set (add_missing xs (get_summaries_by_tags group 1 (n * 3) mm)). 0 \<le> sm_tokens s"
    using xs set_add_missing[of xs] get_summaries_nonneg[OF assms, of group] by blast
  then show "\<forall>s\<in>set (let group = map fst (filter (\<lambda>(a, t). t = c) aliases)
      in if group = [] then xs else add_missing xs (get_summaries_by_tags group 1 (n * 3) mm)). 0 \<le> sm_tokens s"
    using xs unfolding group_def[symmetric] Let_def by presburger
qed

lemma mset_rerank_summaries [simp]: "mset (rerank_summaries jd xs) = mset xs"
proof -
  have "mset (map (\<lambda>i. xs ! i) js) = mset xs" if "mset js = mset [0..<length xs]" for js
    using that by (metis map_nth mset_map)
  moreover have "mset (sort_key k (sort_desc prob [0..<length xs])) = mset [0..<length xs]" for k :: "nat \<Rightarrow> nat" and prob
    by (metis mset_sort mset_sort_desc)
  ultimately have "mset (map (\<lambda>i. xs ! i) (sort_key k (sort_desc prob [0..<length xs]))) = mset xs"
    for k :: "nat \<Rightarrow> nat" and prob by blast
  then show ?thesis unfolding rerank_summaries_def by (simp only: split: option.split) simp
qed

lemma set_rerank_summaries [simp]: "set (rerank_summaries jd xs) = set xs"
  by (metis mset_rerank_summaries set_mset_mset)

lemma find_mem: "find P xs = Some x \<Longrightarrow> x \<in> set xs"
  by (auto simp: find_Some_iff)

lemma find_mem': "Some x = find P xs \<Longrightarrow> x \<in> set xs"
  using find_mem[of P xs x] by simp

lemma segment_candidates_nonneg: "memory_ok mm \<Longrightarrow> \<forall>s\<in>set (segment_candidates mm refs). 0 \<le> sm_tokens s"
  by (auto simp: segment_candidates_def get_segment_def memory_ok_def row_to_summary_def
      split: option.splits dest!: find_mem')

lemma judged_items_nonneg:
  assumes "memory_ok mm" "\<forall>s\<in>set segments. 0 \<le> sm_tokens s"
  shows "\<forall>s\<in>set (judged_items mm segments ks). 0 \<le> sm_tokens s"
proof
  fix s assume "s \<in> set (judged_items mm segments ks)"
  then consider t ts where "loaded_topic mm t = Some ts" "s = tag_summary_item ts"
    | r where "find (\<lambda>s. sm_ref s = r) segments = Some s"
  proof -
    from \<open>s \<in> _\<close> obtain k where k: "s \<in> set (case k of
         Topic t \<Rightarrow> (case loaded_topic mm t of Some ts \<Rightarrow> [tag_summary_item ts] | None \<Rightarrow> [])
       | Segment r \<Rightarrow> (case find (\<lambda>s. sm_ref s = r) segments of Some s \<Rightarrow> [s] | None \<Rightarrow> []))"
      by (auto simp: judged_items_def)
    show ?thesis using that k by (cases k) (auto split: option.splits dest: sym)
  qed
  then show "0 \<le> sm_tokens s"
  proof cases
    case 1
    then have "ts \<in> set (mm_tag_summaries mm)"
      by (auto simp: loaded_topic_def get_tag_summary_def dest: find_mem split: option.splits if_splits)
    then show ?thesis using 1 assms(1) by (simp add: memory_ok_def tag_summary_item_def)
  next
    case 2
    then show ?thesis using assms(2) find_mem by fast
  qed
qed

lemma ranked_candidates_nonneg:
  assumes "memory_ok mm"
  shows "\<forall>s\<in>set (ranked_candidates lg mm jd cfg rq query scores). 0 \<le> sm_tokens s"
  using fetch_topics_nonneg[OF assms] judged_items_nonneg[OF assms segment_candidates_nonneg[OF assms]]
  by (auto simp: ranked_candidates_def Let_def rank_summaries_def split: prod.splits if_splits)

section \<open>The result\<close>

lemma load_all_fits:
  assumes "memory_ok mm" "0 \<le> budget" "load_all_tag_summaries mm budget = (xs, used)"
  shows "fits budget xs used \<and> (\<forall>s\<in>set xs. 0 \<le> sm_tokens s)"
proof -
  have "distinct (map sm_ref (map tag_summary_item (get_all_tag_summaries mm)))"
    using assms(1) by (simp add: memory_ok_def get_all_tag_summaries_def tag_summary_item_def distinct_map comp_def inj_on_def)
  moreover obtain k where "xs = take k (map tag_summary_item (get_all_tag_summaries mm))"
    using take_budget_ok[OF assms(3)[unfolded load_all_tag_summaries_def] assms(2)] by blast
  then have "\<forall>s\<in>set xs. 0 \<le> sm_tokens s"
    using assms(1) by (auto simp: memory_ok_def get_all_tag_summaries_def tag_summary_item_def dest!: in_set_takeD)
  ultimately show ?thesis using take_budget_fits[OF assms(3)[unfolded load_all_tag_summaries_def] assms(2)] by simp
qed

lemma ride_along_fits:
  assumes "memory_ok mm" "fits budget xs used"
  shows "fits budget (xs @ alias_ride_along mm query xs budget used) (used + tokens_of (alias_ride_along mm query xs budget used))
     \<and> 0 \<le> tokens_of (alias_ride_along mm query xs budget used)"
proof -
  define ts where "ts = alias_group_tags (get_tag_aliases (mm_aliases mm)) query xs"
  define extra where "extra = add_extras (get_summaries_by_tags ts 1 50 mm) (sm_ref ` set xs) (budget - used)"
  have ok: "tokens_of extra \<le> budget - used" "distinct (map sm_ref extra)" "sm_ref ` set extra \<inter> sm_ref ` set xs = {}"
    "set extra \<subseteq> set (get_summaries_by_tags ts 1 50 mm)"
    using add_extras_ok[of "budget - used" "get_summaries_by_tags ts 1 50 mm" "sm_ref ` set xs"] assms(2)
    unfolding extra_def fits_def by (simp_all only: le_diff_eq) simp_all
  have "fits budget (xs @ extra) (used + tokens_of extra)" using assms(2) ok(1-3) by (auto simp: fits_def)
  moreover have "0 \<le> tokens_of extra"
    using get_summaries_nonneg[OF assms(1)] ok(4) by (intro tokens_of_nonneg) blast
  moreover have "alias_ride_along mm query xs budget used = (if ts = [] then [] else extra)"
    by (simp add: alias_ride_along_def ts_def extra_def Let_def)
  ultimately show ?thesis using assms(2) by simp
qed

text \<open>Completing a selection keeps it within the budget and keeps every candidate settled.\<close>

lemma complete_selection_fits:
  assumes mm: "memory_ok mm" "search_ok si" "0 \<le> budget"
    and sn: "fits budget (sn_selected sn) (sn_tokens sn)" "\<forall>s\<in>C. settled budget (sn_selected sn) (sn_tokens sn) s"
    and run: "complete_selection si mm n post query expanded budget sn = (xs, used)"
  shows "fits budget xs used \<and> (\<forall>s\<in>C. settled budget xs used s)"
proof (cases "sn_selected sn = []")
  case False
  define riders where "riders = alias_ride_along mm query (sn_selected sn) budget (sn_tokens sn)"
  have "(xs, used) = (sn_selected sn @ riders, sn_tokens sn + tokens_of riders)"
    using run False by (simp add: complete_selection_def riders_def Let_def split: prod.splits)
  moreover note ride_along_fits[OF mm(1) sn(1), of query, folded riders_def]
  moreover have "settled budget (sn_selected sn @ riders) (sn_tokens sn + tokens_of riders) s" if "s \<in> C" for s
    using sn(2) that settled_mono[of budget "sn_selected sn" "sn_tokens sn" s] calculation(2) by auto
  ultimately show ?thesis by simp
next
  case True
  then have zero: "sn_tokens sn = 0" using sn(1) by (simp add: fits_def)
  obtain ys m where ys: "(if expanded \<noteq> [] then take_budget budget 0 (si_search si expanded n) else ([], 0)) = (ys, m)"
    by fastforce
  have found: "fits budget ys m \<and> (\<forall>s\<in>set ys. 0 \<le> sm_tokens s)"
  proof (cases "expanded = []")
    case True
    then show ?thesis using ys mm(3) by (simp add: fits_def)
  next
    case False
    then have t: "take_budget budget 0 (si_search si expanded n) = (ys, m)" using ys by simp
    obtain k where "ys = take k (si_search si expanded n)" using take_budget_ok[OF t mm(3)] by blast
    then show ?thesis using take_budget_fits[OF t mm(3)] mm(2) by (auto simp: search_ok_def dest!: in_set_takeD)
  qed
  have res: "(xs, used) = (if ys = [] \<and> post then load_all_tag_summaries mm budget else (ys, m))"
    using run True ys zero by (auto simp: complete_selection_def Let_def split: prod.splits if_splits)
  have F: "fits budget xs used \<and> (\<forall>s\<in>set xs. 0 \<le> sm_tokens s)"
  proof (cases "ys = [] \<and> post")
    case True
    then show ?thesis using load_all_fits[OF mm(1,3), of xs used] res by simp
  next
    case False
    then have "xs = ys" "used = m" using res by (simp_all only: if_False prod.inject)
    then show ?thesis using found by simp
  qed
  then have "0 \<le> used" using tokens_of_nonneg[of xs] by (simp add: fits_def)
  then show ?thesis using F sn(2) settled_mono[of budget "[]" 0] True zero by auto
qed

lemma select_within_fits:
  assumes "0 \<le> budget" "\<forall>s\<in>set xs. 0 \<le> sm_tokens s"
  shows "fits budget (sn_selected (select_within budget xs)) (sn_tokens (select_within budget xs))
    \<and> (\<forall>s\<in>set xs. settled budget (sn_selected (select_within budget xs)) (sn_tokens (select_within budget xs)) s)"
proof -
  let ?sn = "\<lparr>sn_selected = [], sn_tokens = 0, sn_overflow = []\<rparr>"
  have "fits budget (sn_selected ?sn) (sn_tokens ?sn)" using assms(1) by (simp add: fits_def)
  from select_loop[OF this assms(2)] show ?thesis unfolding select_within_def by blast
qed

text \<open>C14: A retrieval fits its budget: the tokens it reports are the sum of its summaries' tokens and
  at most the recorded budget, no summary is returned twice, and nothing that would still fit is
  left out: every ranked candidate is returned or would overrun the budget.  This holds on every
  path: ranked topics with alias extras, full-text search, and the floor of tag summaries.\<close>

theorem retrieval_fits_budget:
  assumes "memory_ok mm" "search_ok si" "0 \<le> rc_context_tokens cfg" "0 \<le> rc_budget_fraction cfg"
    and rv: "rv = retrieve h listing cosine lg si mm index jd cfg rq"
    and query: "query = resolve_query_tags listing cfg index rq"
  shows "rv_tokens rv = sum_list (map sm_tokens (rv_summaries rv)) \<and> rv_tokens rv \<le> rv_budget rv
     \<and> distinct (map sm_ref (rv_summaries rv))
     \<and> (query \<noteq> [] \<longrightarrow>
         (\<forall>s\<in>set (ranked_candidates lg mm jd cfg rq query (topic_scores h cosine lg si mm cfg rq query)).
            sm_ref s \<in> sm_ref ` set (rv_summaries rv) \<or> rv_tokens rv + sm_tokens s > rv_budget rv))"
proof -
  define C where "C = ranked_candidates lg mm jd cfg rq query (topic_scores h cosine lg si mm cfg rq query)"
  have "fits (rv_budget rv) (rv_summaries rv) (rv_tokens rv)
     \<and> (query \<noteq> [] \<longrightarrow> (\<forall>s\<in>set C. settled (rv_budget rv) (rv_summaries rv) (rv_tokens rv) s))"
  proof (cases "query = []")
    case True
    obtain xs used where xs: "(if rq_post_compaction rq then load_all_tag_summaries mm (rc_context_tokens cfg) else ([], 0)) = (xs, used)"
      by fastforce
    have "rv_budget rv = rc_context_tokens cfg" "rv_summaries rv = xs" "rv_tokens rv = used"
      using xs True query by (simp_all add: rv retrieve_def Let_def)
    moreover have "fits (rc_context_tokens cfg) xs used"
      using xs load_all_fits[OF assms(1,3)] assms(3) by (auto simp: fits_def split: if_splits)
    ultimately show ?thesis using True by simp
  next
    case False
    define budget where "budget = token_budget cfg (rq_utilization rq)"
    define sn where "sn = select_within budget C"
    obtain xs used where xs: "complete_selection si mm (rc_max_results cfg) (rq_post_compaction rq) query
        (set_order h (query @ related_query_tags query rq)) budget sn = (xs, used)" by fastforce
    have b: "0 \<le> budget" using assms(3,4) by (simp add: budget_def token_budget_def py_int_def)
    have "\<forall>s\<in>set C. 0 \<le> sm_tokens s" unfolding C_def by (rule ranked_candidates_nonneg[OF assms(1)])
    note S = select_within_fits[OF b this, folded sn_def]
    have "rv_budget rv = budget" "rv_summaries rv = xs" "rv_tokens rv = used"
      using xs False query by (simp_all add: rv retrieve_def Let_def budget_def sn_def C_def)
    then show ?thesis
      using complete_selection_fits[OF assms(1,2) b S[THEN conjunct1] S[THEN conjunct2] xs] by simp
  qed
  then show ?thesis by (auto simp: fits_def settled_def C_def tokens_of_def)
qed

definition demo_memory :: memory where
  "demo_memory = \<lparr>
     mm_segments = [\<lparr>sr_ref = ''s1'', sr_primary = ''food'', sr_summary = ''pasta'', sr_tokens = 40, sr_created = 1\<rparr>,
                    \<lparr>sr_ref = ''s2'', sr_primary = ''food'', sr_summary = ''ramen'', sr_tokens = 70, sr_created = 2\<rparr>,
                    \<lparr>sr_ref = ''s3'', sr_primary = ''meals'', sr_summary = ''lunch'', sr_tokens = 20, sr_created = 3\<rparr>],
     mm_aliases = \<lparr>as_global = [], as_local = [(''meals'', ''food'')], as_segments = [''s1'', ''s2'', ''s3''],
                   as_tags = [(''s1'', ''food''), (''s2'', ''food''), (''s3'', ''meals'')]\<rparr>,
     mm_tag_summaries = [], mm_embeddings = []\<rparr>"

definition demo_index :: search_index where
  "demo_index = \<lparr>si_tag_summaries = \<lambda>_ _. None, si_full_text = \<lambda>_ _. Some [], si_search = \<lambda>_ _. [], si_actionable = \<lambda>_. None\<rparr>"

definition demo_judge :: judge where
  "demo_judge = \<lparr>jd_topic_select = False, jd_rerank = False, jd_topic_pool_size = 10, jd_topic_min = 1 / 2,
     jd_rerank_min = 1 / 2, jd_topics = \<lambda>_. None, jd_ranks = \<lambda>_. None\<rparr>"

definition demo_config :: retriever_config where
  "demo_config = \<lparr>rc_skip_active = True, rc_lookback = 6, rc_context_tokens = 400, rc_max_results = 5,
     rc_budget_fraction = 1 / 4,
     rc_scoring = \<lparr>sc_idf_weight = 1 / 2, sc_bm25_weight = 3 / 10, sc_embedding_weight = 1 / 5, sc_rrf_k = 60,
       sc_bm25_limit = 20, sc_embedding_limit = 20, sc_min_threshold = 1 / 4, sc_guard = True, sc_reserved_seats = 0,
       sc_dampening = \<lparr>dm_hub_enabled = True, dm_hub_strength = 3 / 5, dm_hub_min = 1 / 5, dm_gravity_enabled = True,
         dm_gravity_threshold = 1 / 2, dm_gravity_factor = 1 / 2, dm_resolution_enabled = True, dm_resolution_boost = 1\<rparr>\<rparr>\<rparr>"

definition demo_request :: request where
  "demo_request = \<lparr>rq_text = ''what did I eat'', rq_tags = [''food''], rq_related = [], rq_fallback = False,
     rq_vector = None, rq_context = None, rq_active = [], rq_utilization = 0, rq_post_compaction = True,
     rq_pool = None, rq_segment_refs = []\<rparr>"

definition demo_retrieval :: retrieval where
  "demo_retrieval = retrieve length (\<lambda>_. []) (\<lambda>_ _. 0) (\<lambda>x. x) demo_index demo_memory None demo_judge demo_config demo_request"

lemma demo_retrieval_refs: "map sm_ref (rv_summaries demo_retrieval) = [''s2'', ''s3''] \<and> map sm_ref (rv_overflow demo_retrieval) = [''s1'']"
  by code_simp

theorem retrieval_fits_budget_witness:
  "rv_summaries demo_retrieval \<noteq> [] \<and> rv_tokens demo_retrieval = sum_list (map sm_tokens (rv_summaries demo_retrieval))
     \<and> rv_tokens demo_retrieval \<le> rv_budget demo_retrieval"
proof -
  have "memory_ok demo_memory" "search_ok demo_index"
    by (simp_all add: memory_ok_def search_ok_def demo_memory_def demo_index_def)
  moreover have "0 \<le> rc_context_tokens demo_config" "0 \<le> rc_budget_fraction demo_config" by (simp_all add: demo_config_def)
  ultimately show ?thesis
    using retrieval_fits_budget[OF _ _ _ _ demo_retrieval_def refl] demo_retrieval_refs by auto
qed

section \<open>Alias groups compete as one topic\<close>

lemma fold_keep_max:
  assumes "distinct (map fst m)"
  shows "distinct (map fst (fold keep_max ps m))
     \<and> fst ` set (fold keep_max ps m) = fst ` set m \<union> fst ` set ps
     \<and> (\<forall>(c, x)\<in>set m \<union> set ps. x \<le> get_score (fold keep_max ps m) c)
     \<and> (\<forall>c\<in>fst ` set (fold keep_max ps m). (c, get_score (fold keep_max ps m) c) \<in> set m \<union> set ps)"
  using assms
proof (induction ps arbitrary: m)
  case Nil
  then show ?case by (auto simp: get_score_def)
next
  case (Cons p ps)
  obtain c x where p: "p = (c, x)" by fastforce
  define m1 where "m1 = keep_max p m"
  have d: "distinct (map fst m1)" using Cons.prems by (auto simp: m1_def keep_max_def p distinct_update split: option.split)
  have keys: "fst ` set m1 = insert c (fst ` set m)"
    using dom_update[of c x m] by (auto simp: m1_def keep_max_def p dom_map_of_conv_image_fst map_of_eq_None_iff
        split: option.split dest: map_of_SomeD) (metis fst_conv image_eqI map_of_SomeD)
  have ge: "y \<le> get_score m1 k" if "(k, y) \<in> set m \<union> {p}" for k y
  proof -
    have "map_of m k = Some y \<or> (k, y) = (c, x)" using that Cons.prems by (auto simp: p)
    then show ?thesis by (auto simp: m1_def keep_max_def p get_score_def update_conv split: option.split)
  qed
  have mem: "(k, get_score m1 k) \<in> set m \<union> {p}" if "k \<in> insert c (fst ` set m)" for k
  proof -
    have old: "(k, get_score m k) \<in> set m" if "k \<in> fst ` set m" using that Cons.prems by (auto simp: get_score_def)
    have "get_score m1 k = (if k = c \<and> (c \<notin> fst ` set m \<or> get_score m c < x) then x else get_score m k)"
      by (auto simp: m1_def keep_max_def p score_simps get_score_def[of m c] map_of_eq_None_iff split: option.split)
        (metis fst_conv image_eqI map_of_SomeD)+
    then show ?thesis using that old by (auto simp: p)
  qed
  note IH = Cons.IH[OF d]
  let ?r = "fold keep_max ps m1"
  have val: "(k, get_score m1 k) \<in> set m1" if "k \<in> fst ` set m1" for k
    using that d by (auto simp: get_score_def)
  have uniq: "v = get_score m1 k" if "(k, v) \<in> set m1" for k v using that d by (simp add: get_score_def)
  have "y \<le> get_score ?r k" if "(k, y) \<in> set m \<union> set (p # ps)" for k y
  proof (cases "(k, y) \<in> set m \<union> {p}")
    case True
    then have "k \<in> fst ` set m1" using keys by (force simp: p)
    then have "get_score m1 k \<le> get_score ?r k" using IH val by blast
    then show ?thesis using ge[OF True] by simp
  next
    case False
    then show ?thesis using IH that by auto
  qed
  moreover have "(k, get_score ?r k) \<in> set m \<union> set (p # ps)" if "k \<in> fst ` set ?r" for k
  proof (cases "(k, get_score ?r k) \<in> set m1")
    case True
    then have "(k, get_score m1 k) \<in> set m \<union> {p}" using mem[of k] keys by force
    then show ?thesis using uniq[OF True] by auto
  next
    case False
    moreover have "(k, get_score ?r k) \<in> set m1 \<union> set ps" using IH that by blast
    ultimately show ?thesis by simp
  qed
  moreover have "fst ` set ?r = fst ` set m \<union> fst ` set (p # ps)" using IH keys by (simp add: p)
  moreover have "fold keep_max (p # ps) m = ?r" by (simp add: m1_def)
  ultimately show ?case using IH by (simp only:) blast
qed

text \<open>Alias groups compete as one topic: after folding, the ranking lists each topic once, no
  topic is itself an alias, a topic has a score exactly when a tag of its group has one, and its
  score is the best of its group.\<close>

theorem topics_are_alias_groups:
  assumes "distinct (map fst rows)" and aliases: "aliases = flatten_alias_map rows"
    and folded: "folded = fold_alias_scores aliases scores"
  shows "distinct (rank_tags folded) \<and> set (rank_tags folded) \<inter> fst ` set aliases = {}
     \<and> set (rank_tags folded) = canonical_of aliases ` fst ` set scores
     \<and> (\<forall>c\<in>set (rank_tags folded).
          get_score folded c = Max {x. \<exists>t. (t, x) \<in> set scores \<and> canonical_of aliases t = c})"
proof -
  define ps where "ps = map (\<lambda>(t, x). (canonical_of aliases t, x)) scores"
  have f: "folded = fold keep_max ps []"
    unfolding folded fold_alias_scores_def ps_def fold_map comp_def by (rule fold_cong) (auto simp: split_def)
  note F = fold_keep_max[of "[]" ps, folded f, simplified]
  have keys: "fst ` set folded = canonical_of aliases ` fst ` set scores"
  proof -
    have "fst ` set ps = canonical_of aliases ` fst ` set scores" by (simp add: ps_def image_image split_def)
    then show ?thesis using F by simp
  qed
  have one_hop: "c \<notin> fst ` set aliases" if "(a, c) \<in> set aliases" for a c
    using flatten_alias_map_one_hop[OF assms(1), THEN conjunct2] that unfolding list_all_iff aliases
    by (metis (no_types, lifting) case_prodD)
  have "canonical_of aliases t \<notin> fst ` set aliases" for t
  proof (cases "map_of aliases t")
    case None
    then have "t \<notin> fst ` set aliases" by (simp add: map_of_eq_None_iff)
    then show ?thesis using None by (simp add: canonical_of_def)
  next
    case (Some c)
    then show ?thesis using one_hop[OF map_of_SomeD[OF Some]] by (simp add: canonical_of_def)
  qed
  then have "set (rank_tags folded) \<inter> fst ` set aliases = {}" using keys by auto
  moreover have "get_score folded c = Max {x. \<exists>t. (t, x) \<in> set scores \<and> canonical_of aliases t = c}"
    if "c \<in> set (rank_tags folded)" for c
  proof (rule Max_eqI[symmetric])
    have "{x. \<exists>t. (t, x) \<in> set scores \<and> canonical_of aliases t = c} \<subseteq> snd ` set scores" by force
    then show "finite {x. \<exists>t. (t, x) \<in> set scores \<and> canonical_of aliases t = c}" by (rule finite_subset) simp
    show "y \<le> get_score folded c" if "y \<in> {x. \<exists>t. (t, x) \<in> set scores \<and> canonical_of aliases t = c}" for y
    proof -
      obtain t where "(t, y) \<in> set scores" "canonical_of aliases t = c" using \<open>y \<in> _\<close> by blast
      then have "(c, y) \<in> set ps" by (force simp: ps_def)
      then show ?thesis using F by blast
    qed
    have "c \<in> fst ` set folded" using that by simp
    then have "(c, get_score folded c) \<in> set ps" using F by blast
    then obtain t where "(t, get_score folded c) \<in> set scores" "canonical_of aliases t = c"
      unfolding ps_def by auto
    then show "get_score folded c \<in> {x. \<exists>t. (t, x) \<in> set scores \<and> canonical_of aliases t = c}" by blast
  qed
  ultimately show ?thesis using F keys by simp
qed

theorem topics_are_alias_groups_witness:
  "get_score (fold_alias_scores (flatten_alias_map [(''meals'', ''food''), (''lunch'', ''meals'')])
       [(''meals'', 1 / 2), (''food'', 1 / 3), (''lunch'', 1 / 4)]) ''food'' = Max {1 / 2, 1 / 3, 1 / 4}"
proof -
  define rows where "rows = [(''meals'', ''food''), (''lunch'', ''meals'')]"
  define scores :: scores where "scores = [(''meals'', 1 / 2), (''food'', 1 / 3), (''lunch'', 1 / 4)]"
  have flat: "flatten_alias_map rows = [(''meals'', ''food''), (''lunch'', ''food'')]" unfolding rows_def by code_simp
  have d: "distinct (map fst rows)" by (simp add: rows_def)
  have "get_score (fold_alias_scores (flatten_alias_map rows) scores) ''food''
      = Max {x. \<exists>t. (t, x) \<in> set scores \<and> canonical_of (flatten_alias_map rows) t = ''food''}"
  proof -
    have "''food'' \<in> set (rank_tags (fold_alias_scores (flatten_alias_map rows) scores))" unfolding flat scores_def by code_simp
    then show ?thesis using topics_are_alias_groups[OF d refl refl, of scores] by blast
  qed
  also have "{x. \<exists>t. (t, x) \<in> set scores \<and> canonical_of (flatten_alias_map rows) t = ''food''} = {1 / 2, 1 / 3, 1 / 4}"
  proof -
    have "canonical_of (flatten_alias_map rows) t = ''food''" if "(t, x) \<in> set scores" for t x
      using that unfolding flat scores_def canonical_of_def by auto
    then have "{x. \<exists>t. (t, x) \<in> set scores \<and> canonical_of (flatten_alias_map rows) t = ''food''} = snd ` set scores"
      by force
    then show ?thesis by (simp add: scores_def)
  qed
  finally show ?thesis unfolding rows_def scores_def .
qed

end
