(* ===== verification/PayloadTrim.thy ===== *)
theory PayloadTrim
  imports Prelude
begin

text \<open>
  Trimming a request to the provider's context window (proxy/message\_filter.py) over the turn groups
  of a payload format (proxy/formats.py): the grouping of the Anthropic and OpenAI chat formats, the
  greedy trim, the removal of orphaned tool blocks and the admission of the result.  A message has
  content blocks (Anthropic) and the tool fields of OpenAI chat; token counts of a message, of the
  system prompt, of the tools and of separators are arguments.
\<close>

section \<open>Payloads\<close>

datatype block =
  TextBlock string
| ToolUse "string option" string             \<comment> \<open>id and name\<close>
| ToolResult "string option" string          \<comment> \<open>id and text\<close>
| Thinking string string                  \<comment> \<open>signature and text\<close>
| Image string string                       \<comment> \<open>base64 source: media type and data\<close>
| OtherBlock

datatype content = Plain string | Blocks "block list"

record message =
  ms_role :: string
  ms_content :: content
  ms_tool_calls :: "string option list option"   \<comment> \<open>the ids, where the field is a list\<close>
  ms_tool_call_id :: "string option"

record turn_group =
  gr_indices :: "nat list"
  gr_tool :: bool

record payload_format =
  fm_group :: "message list \<Rightarrow> turn_group list"
  fm_message :: "message \<Rightarrow> nat"
  fm_fixed :: nat                               \<comment> \<open>system prompt and tools\<close>
  fm_payload :: "message list \<Rightarrow> nat"

definition content_blocks :: "message \<Rightarrow> block list" where
  "content_blocks m = (case ms_content m of Plain _ \<Rightarrow> [] | Blocks bs \<Rightarrow> bs)"

section \<open>Turn groups\<close>

text \<open>The loop shared by the formats: \<open>opens\<close> tells which messages start a turn, \<open>marks\<close> which
  ones show tool activity.\<close>

fun group_loop ::
  "(message \<Rightarrow> bool) \<Rightarrow> (message \<Rightarrow> bool) \<Rightarrow> nat \<Rightarrow> message list \<Rightarrow> nat list \<Rightarrow> bool \<Rightarrow> turn_group list" where
  "group_loop opens marks i [] cur tool = (if cur = [] then [] else [\<lparr>gr_indices = cur, gr_tool = tool\<rparr>])"
| "group_loop opens marks i (m # ms) cur tool =
     (if opens m
      then (if cur = [] then [] else [\<lparr>gr_indices = cur, gr_tool = tool\<rparr>]) @ group_loop opens marks (Suc i) ms [i] False
      else group_loop opens marks (Suc i) ms (cur @ [i]) (tool \<or> marks m))"

definition is_tool_result :: "block \<Rightarrow> bool" where
  "is_tool_result b = (case b of ToolResult _ _ \<Rightarrow> True | _ \<Rightarrow> False)"

definition is_tool_use :: "block \<Rightarrow> bool" where
  "is_tool_use b = (case b of ToolUse _ _ \<Rightarrow> True | _ \<Rightarrow> False)"

definition real_user :: "message \<Rightarrow> bool" where
  "real_user m \<longleftrightarrow> ms_role m = ''user'' \<and> \<not> list_ex is_tool_result (content_blocks m)"

definition group_anthropic :: "message list \<Rightarrow> turn_group list" where
  "group_anthropic ms = group_loop real_user
     (\<lambda>m. ms_role m = ''assistant'' \<and> list_ex is_tool_use (content_blocks m) \<or> ms_role m = ''user'') 0 ms [] False"

definition group_openai :: "message list \<Rightarrow> turn_group list" where
  "group_openai ms = group_loop (\<lambda>m. ms_role m = ''user'')
     (\<lambda>m. ms_role m = ''tool'' \<or> ms_role m = ''assistant'' \<and> ms_tool_calls m \<noteq> None) 0 ms [] False"

section \<open>Orphaned tool blocks\<close>

definition some_ids :: "string option list \<Rightarrow> string list" where
  "some_ids xs = concat (map (\<lambda>x. case x of None \<Rightarrow> [] | Some i \<Rightarrow> [i]) xs)"

definition use_ids :: "message \<Rightarrow> string list" where
  "use_ids m = some_ids (map (\<lambda>b. case b of ToolUse i _ \<Rightarrow> i | _ \<Rightarrow> None) (content_blocks m))
     @ (case ms_tool_calls m of None \<Rightarrow> [] | Some is \<Rightarrow> some_ids is)"

definition result_ids :: "message \<Rightarrow> string list" where
  "result_ids m = some_ids (map (\<lambda>b. case b of ToolResult i _ \<Rightarrow> i | _ \<Rightarrow> None) (content_blocks m))
     @ (if ms_role m = ''tool'' then some_ids [ms_tool_call_id m] else [])"

definition all_uses :: "message list \<Rightarrow> string set" where
  "all_uses ms = (\<Union>m\<in>set ms. set (use_ids m))"

definition all_results :: "message list \<Rightarrow> string set" where
  "all_results ms = (\<Union>m\<in>set ms. set (result_ids m))"

definition has_orphan :: "message list \<Rightarrow> message \<Rightarrow> bool" where
  "has_orphan ms m \<longleftrightarrow> list_ex (\<lambda>i. i \<notin> all_results ms) (use_ids m) \<or> list_ex (\<lambda>i. i \<notin> all_uses ms) (result_ids m)"

fun cleanup_passes :: "nat \<Rightarrow> message list \<Rightarrow> message list" where
  "cleanup_passes 0 ms = ms"
| "cleanup_passes (Suc n) ms =
     (if all_uses ms = all_results ms then ms else cleanup_passes n (filter (\<lambda>m. \<not> has_orphan ms m) ms))"

definition cleanup_orphaned_tools :: "message list \<Rightarrow> message list" where
  "cleanup_orphaned_tools ms = cleanup_passes 3 ms"

section \<open>Trimming\<close>

definition pick :: "'a list \<Rightarrow> nat set \<Rightarrow> 'a list" where
  "pick xs keep = map snd (filter (\<lambda>(i, x). i \<in> keep) (enumerate 0 xs))"

definition indices_tokens :: "payload_format \<Rightarrow> message list \<Rightarrow> nat list \<Rightarrow> nat" where
  "indices_tokens fmt ms is = sum_list (map (\<lambda>i. fm_message fmt (ms ! i)) is)"

definition all_system :: "message list \<Rightarrow> turn_group \<Rightarrow> bool" where
  "all_system ms g \<longleftrightarrow> list_all (\<lambda>i. ms_role (ms ! i) = ''system'') (gr_indices g)"

text \<open>The older groups from newest to oldest: each is kept when it still fits.\<close>

fun keep_older :: "payload_format \<Rightarrow> message list \<Rightarrow> int \<Rightarrow> turn_group list \<Rightarrow> nat \<Rightarrow> turn_group list \<times> nat" where
  "keep_older fmt ms available [] used = ([], used)"
| "keep_older fmt ms available (g # gs) used =
     (let n = indices_tokens fmt ms (gr_indices g)
      in if int (used + n) \<le> available
         then let (kept, used') = keep_older fmt ms available gs (used + n) in (g # kept, used')
         else keep_older fmt ms available gs used)"

definition group_indices :: "turn_group list \<Rightarrow> nat list" where
  "group_indices gs = concat (map gr_indices gs)"

definition system_groups :: "message list \<Rightarrow> turn_group list \<Rightarrow> turn_group list" where
  "system_groups ms = takeWhile (all_system ms)"

definition turn_groups :: "message list \<Rightarrow> turn_group list \<Rightarrow> turn_group list" where
  "turn_groups ms = dropWhile (all_system ms)"

definition trailing_items :: "message list \<Rightarrow> turn_group list \<Rightarrow> nat list" where
  "trailing_items ms groups = filter (\<lambda>i. i \<notin> set (group_indices groups)) [0..<length ms]"

definition trim_to_upstream_limit :: "payload_format \<Rightarrow> nat \<Rightarrow> message list \<Rightarrow> message list \<times> nat" where
  "trim_to_upstream_limit fmt limit ms =
     (let groups = fm_group fmt ms;
          system = system_groups ms groups; turns = turn_groups ms groups;
          trailing = trailing_items ms groups;
          available = int limit - int (fm_fixed fmt);
          protected_count = min 2 (length turns);
          older = take (length turns - protected_count) turns;
          recent = drop (length turns - protected_count) turns;
          always = group_indices system @ group_indices recent @ trailing
      in if fm_payload fmt ms \<le> limit \<or> ms = [] \<or> length turns \<le> 2 \<and> trailing = [] then (ms, 0)
         else if available \<le> 0 then (pick ms (set always), length older)
         else (let (kept, used) = keep_older fmt ms available (rev older) (indices_tokens fmt ms always)
               in if length kept = length older then (ms, 0)
                  else (cleanup_orphaned_tools (pick ms (set always \<union> set (group_indices kept))),
                        length older - length kept)))"

text \<open>Admission: \<open>Inl\<close> carries the tokens and the limit of \<open>PayloadBudgetExceeded\<close>.\<close>

definition admit_provider_payload ::
  "payload_format \<Rightarrow> nat \<Rightarrow> nat \<Rightarrow> message list \<Rightarrow> (nat \<times> nat) + (message list \<times> nat)" where
  "admit_provider_payload fmt allowance upstream_limit ms =
     (let limit = upstream_limit - allowance; (result, removed) = trim_to_upstream_limit fmt limit ms
      in if fm_payload fmt result > limit then Inl (fm_payload fmt result, limit) else Inr (result, removed))"

text \<open>Anthropic's count: system, tools, messages, and the separators between messages.\<close>

definition anthropic_format :: "(message \<Rightarrow> nat) \<Rightarrow> nat \<Rightarrow> (nat \<Rightarrow> nat) \<Rightarrow> payload_format" where
  "anthropic_format tokens fixed separators =
     \<lparr>fm_group = group_anthropic, fm_message = tokens, fm_fixed = fixed,
      fm_payload = \<lambda>ms. fixed + sum_list (map tokens ms) + separators (length ms - 1)\<rparr>"

section \<open>Dropping compacted turns\<close>

definition conversation_roles :: "string list" where
  "conversation_roles = [''user'', ''human'', ''assistant'', ''model'']"

text \<open>\<open>host_context\<close> is the format's test for host scaffolding.\<close>

definition droppable_history_item :: "(message \<Rightarrow> bool) \<Rightarrow> message \<Rightarrow> bool" where
  "droppable_history_item host_context m \<longleftrightarrow> ms_role m \<in> set conversation_roles \<and> \<not> host_context m"

definition history_turns :: "message list \<Rightarrow> turn_group list \<Rightarrow> turn_group list" where
  "history_turns ms groups =
     (if gr_indices (last groups) = [] \<or> ms_role (ms ! last (gr_indices (last groups))) \<notin> {''assistant'', ''model''}
      then butlast groups else groups)"

definition drop_compacted_turns ::
  "payload_format \<Rightarrow> (message \<Rightarrow> bool) \<Rightarrow> nat \<Rightarrow> nat \<Rightarrow> nat option \<Rightarrow> message list \<Rightarrow> message list \<times> nat" where
  "drop_compacted_turns fmt host_context compacted_prefix protected_recent drop_boundary ms =
     (let groups = fm_group fmt ms
      in if compacted_prefix = 0 \<or> groups = [] then (ms, 0)
         else let history = history_turns ms groups;
                  protected_start = length history - min protected_recent (length history);
                  limit = (case drop_boundary of None \<Rightarrow> protected_start | Some b \<Rightarrow> min (b div 2) protected_start);
                  dropped = filter (\<lambda>is. is \<noteq> []) (map (\<lambda>g.
                     if gr_tool g then [] else filter (\<lambda>i. droppable_history_item host_context (ms ! i)) (gr_indices g))
                     (take limit history))
              in (pick ms (- set (concat dropped)), length dropped))"

end
