(* ===== verification/PayloadBudget.thy ===== *)
theory PayloadBudget
  imports PayloadTrim
begin

text \<open>
  The last resort before a request goes upstream (proxy/message\_filter.py,
  \<open>enforce_payload_budget\<close>) on Anthropic bodies: the scan for reducible items, the plan, the
  order in which a plan is applied, the reductions and the rounds.  A tool result carries its text;
  replaced outputs go to the table \<open>tool_outputs\<close> of storage/sqlite.py, from which
  \<open>get_tool_output_by_ref\<close> restores them.  Token estimators, the hash and the image codec are
  arguments.
\<close>

section \<open>Bodies, items and the table of tool outputs\<close>

record body =
  bd_system :: "string list"                     \<comment> \<open>texts of the system blocks\<close>
  bd_messages :: "message list"

datatype place = System nat | Whole nat | Part nat nat

datatype category = ThinkingSig | Result | ResultLast2 | VcContext | ConversationText | MediaImage

record item =
  it_place :: place
  it_category :: category
  it_size :: nat

record tool_output =
  to_ref :: string
  to_conversation :: string
  to_tool :: string
  to_content :: string

record budget_env =
  en_sha12 :: "string \<Rightarrow> string"
  en_images :: "string \<Rightarrow> (string list \<times> string) option"  \<comment> \<open>JPEG candidates and a PNG; \<open>None\<close>: codec failure\<close>
  en_tokens :: "body \<Rightarrow> nat"
  en_floor :: "body \<Rightarrow> nat"
  en_conversation :: string
  en_store_ok :: "string \<Rightarrow> bool"                \<comment> \<open>the write of this ref does not raise\<close>

text \<open>The primary key of the table is the ref alone.\<close>

definition store_tool_output :: "tool_output \<Rightarrow> tool_output list \<Rightarrow> tool_output list" where
  "store_tool_output r rows =
     (if \<exists>x\<in>set rows. to_ref x = to_ref r then map (\<lambda>x. if to_ref x = to_ref r then r else x) rows else rows @ [r])"

definition get_tool_output_by_ref :: "string \<Rightarrow> string \<Rightarrow> tool_output list \<Rightarrow> string option" where
  "get_tool_output_by_ref conversation ref rows =
     map_option to_content (find (\<lambda>x. to_conversation x = conversation \<and> to_ref x = ref) rows)"

section \<open>Strings\<close>

fun contains :: "string \<Rightarrow> string \<Rightarrow> bool" where
  "contains p [] \<longleftrightarrow> p = []"
| "contains p (c # cs) \<longleftrightarrow> starts_with (c # cs) p \<or> contains p cs"

fun decimal :: "nat \<Rightarrow> string" where
  "decimal n = (if n < 10 then [char_of (48 + n)] else decimal (n div 10) @ [char_of (48 + n mod 10)])"

declare decimal.simps [simp del]

definition quote_mark :: string where "quote_mark = [CHR 0x22]"

definition stub_text :: "string \<Rightarrow> string" where
  "stub_text ref = ''[budget-reduced tool output ref='' @ ref @ '' | call vc_restore_tool(ref='' @ quote_mark @ ref @ quote_mark @ '')]''"

definition blank_line :: string where "blank_line = [CHR 0x0A, CHR 0x0A]"

text \<open>Head and tail of a text, with the number of characters left out between them.\<close>

definition truncated_text :: "string \<Rightarrow> string" where
  "truncated_text s = take 200 s @ blank_line @ ''[... '' @ decimal (length s - 400) @ '' chars truncated ...]''
     @ blank_line @ take_last 200 s"

section \<open>Scanning\<close>

definition block_text :: "block \<Rightarrow> string" where
  "block_text b = (case b of TextBlock t \<Rightarrow> t | _ \<Rightarrow> [])"

fun join_spaces :: "string list \<Rightarrow> string" where
  "join_spaces [] = []"
| "join_spaces [s] = s"
| "join_spaces (s # t # ts) = s @ '' '' @ join_spaces (t # ts)"

definition item_text :: "message \<Rightarrow> string" where
  "item_text m = (case ms_content m of Plain s \<Rightarrow> s | Blocks bs \<Rightarrow> join_spaces (map block_text bs))"

definition last2_start :: "message list \<Rightarrow> nat" where
  "last2_start ms = (let turns = group_anthropic ms
     in if length turns \<ge> 3 then hd (gr_indices (turns ! (length turns - 2))) else 0)"

definition scan_system :: "body \<Rightarrow> item list" where
  "scan_system b = concat (map (\<lambda>(i, t).
     if contains ''<context-topics'' t \<or> contains ''system-reminder'' t \<and> contains ''context-topics'' t
     then [\<lparr>it_place = System i, it_category = VcContext, it_size = length t\<rparr>] else []) (enumerate 0 (bd_system b)))"

text \<open>The items a test of single blocks finds, in payload order.\<close>

definition message_items :: "(nat \<Rightarrow> message \<Rightarrow> block \<Rightarrow> (category \<times> nat) option) \<Rightarrow> nat \<Rightarrow> message \<Rightarrow> item list" where
  "message_items test mi m = concat (map (\<lambda>(bi, b).
     case test mi m b of None \<Rightarrow> [] | Some (c, n) \<Rightarrow> [\<lparr>it_place = Part mi bi, it_category = c, it_size = n\<rparr>])
       (enumerate 0 (content_blocks m)))"

definition scan_blocks :: "(nat \<Rightarrow> message \<Rightarrow> block \<Rightarrow> (category \<times> nat) option) \<Rightarrow> message list \<Rightarrow> item list" where
  "scan_blocks test ms = concat (map (\<lambda>(mi, m). message_items test mi m) (enumerate 0 ms))"

definition test_result :: "nat \<Rightarrow> nat \<Rightarrow> message \<Rightarrow> block \<Rightarrow> (category \<times> nat) option" where
  "test_result start mi m b = (case b of
     ToolResult _ c \<Rightarrow>
       if ms_role m \<noteq> ''user'' \<or> length c < 100 \<or> contains ''vc_restore_tool'' c then None
       else Some (if mi \<ge> start then ResultLast2 else Result, length c)
   | _ \<Rightarrow> None)"

definition test_image :: "nat \<Rightarrow> message \<Rightarrow> block \<Rightarrow> (category \<times> nat) option" where
  "test_image mi m b = (case b of Image _ d \<Rightarrow> if length d > 10000 then Some (MediaImage, length d) else None | _ \<Rightarrow> None)"

definition test_thinking :: "nat \<Rightarrow> message \<Rightarrow> block \<Rightarrow> (category \<times> nat) option" where
  "test_thinking mi m b = (case b of Thinking sig _ \<Rightarrow> if sig \<noteq> [] then Some (ThinkingSig, length sig) else None | _ \<Rightarrow> None)"

definition skip_text :: "message \<Rightarrow> bool" where
  "skip_text m \<longleftrightarrow> length (item_text m) \<le> 100
     \<or> contains ''[Compacted turn'' (item_text m)
        \<and> (contains ''vc_restore_tool'' (item_text m) \<or> (case ms_content m of Plain _ \<Rightarrow> True | Blocks _ \<Rightarrow> False))"

definition test_text :: "nat \<Rightarrow> message \<Rightarrow> block \<Rightarrow> (category \<times> nat) option" where
  "test_text mi m b = (case b of
     TextBlock t \<Rightarrow> if contains ''[Compacted turn'' t \<or> length t \<le> 100 then None else Some (ConversationText, length t)
   | _ \<Rightarrow> None)"

definition text_items :: "nat \<Rightarrow> message \<Rightarrow> item list" where
  "text_items mi m =
     (if skip_text m then []
      else case ms_content m of
        Plain s \<Rightarrow> [\<lparr>it_place = Whole mi, it_category = ConversationText, it_size = length s\<rparr>]
      | Blocks _ \<Rightarrow> message_items test_text mi m)"

text \<open>The set of seen positions, kept as the items themselves.\<close>

definition add_unseen :: "item list \<Rightarrow> item list \<Rightarrow> item list" where
  "add_unseen = foldl (\<lambda>items it. if it_place it \<in> it_place ` set items then items else items @ [it])"

definition scan_reducible_items :: "body \<Rightarrow> item list" where
  "scan_reducible_items b =
     (let ms = bd_messages b
      in if ms = [] then []
         else let results = scan_system b @ scan_blocks (test_result (last2_start ms)) ms;
                  images = add_unseen results (scan_blocks test_image ms);
                  thinking = add_unseen images (scan_blocks test_thinking ms)
              in add_unseen thinking (concat (map (\<lambda>(mi, m). text_items mi m) (enumerate 0 ms))))"

section \<open>Planning\<close>

definition estimated_reduction_bytes :: "item \<Rightarrow> nat" where
  "estimated_reduction_bytes it = (case it_category it of
     ThinkingSig \<Rightarrow> it_size it
   | Result \<Rightarrow> it_size it - 480
   | ConversationText \<Rightarrow> it_size it - 480
   | ResultLast2 \<Rightarrow> it_size it - 520
   | VcContext \<Rightarrow> it_size it div 2
   | MediaImage \<Rightarrow> it_size it div 2)"

definition plan_key :: "item \<Rightarrow> bool \<times> int \<times> int" where
  "plan_key it = (case it_place it of
     System i \<Rightarrow> (False, - 1, int i) | Whole m \<Rightarrow> (True, int m, - 1) | Part m b \<Rightarrow> (True, int m, int b))"

definition estimated_tokens :: "item \<Rightarrow> nat" where
  "estimated_tokens it = max ((estimated_reduction_bytes it + 3) div 4) 1"

fun plan_loop :: "nat \<Rightarrow> nat \<Rightarrow> nat \<Rightarrow> item list \<Rightarrow> item list" where
  "plan_loop slots deficit saved [] = []"
| "plan_loop slots deficit saved (it # its) =
     (if slots = 0 then []
      else let saved' = saved + estimated_tokens it
           in it # (if saved' \<ge> deficit then [] else plan_loop (slots - 1) deficit saved' its))"

definition plan_budget_reductions :: "item list \<Rightarrow> nat \<Rightarrow> nat \<Rightarrow> item list" where
  "plan_budget_reductions items deficit slots =
     (if deficit = 0 \<or> slots = 0 then []
      else plan_loop slots deficit 0 (sort_key plan_key (filter (\<lambda>it. estimated_reduction_bytes it > 0) items)))"

definition is_system :: "item \<Rightarrow> bool" where
  "is_system it = (case it_place it of System _ \<Rightarrow> True | _ \<Rightarrow> False)"

definition apply_key :: "item \<Rightarrow> int \<times> int" where
  "apply_key it = (case it_place it of
     System i \<Rightarrow> (- 1, int i) | Whole m \<Rightarrow> (int m, 1000000) | Part m b \<Rightarrow> (int m, int b))"

text \<open>\<open>sorted(..., reverse=True)\<close> keeps the order of equal keys.\<close>

definition sort_reverse :: "(item \<Rightarrow> int \<times> int) \<Rightarrow> item list \<Rightarrow> item list" where
  "sort_reverse k xs = rev (sort_key k (rev xs))"

definition mutation_safe_reduction_order :: "item list \<Rightarrow> item list" where
  "mutation_safe_reduction_order items =
     sort_reverse apply_key (filter is_system items) @ sort_reverse apply_key (filter (\<lambda>it. \<not> is_system it) items)"

section \<open>Reductions\<close>

definition set_content :: "nat \<Rightarrow> content \<Rightarrow> body \<Rightarrow> body" where
  "set_content mi c b = b\<lparr>bd_messages := (bd_messages b)[mi := (bd_messages b ! mi)\<lparr>ms_content := c\<rparr>]\<rparr>"

text \<open>The block at a place; \<open>None\<close> where the guards of the reductions give up.\<close>

definition block_at :: "body \<Rightarrow> place \<Rightarrow> block option" where
  "block_at b p = (case p of
     Part mi bi \<Rightarrow>
       if mi < length (bd_messages b) \<and> bi < length (content_blocks (bd_messages b ! mi))
       then Some (content_blocks (bd_messages b ! mi) ! bi) else None
   | _ \<Rightarrow> None)"

definition set_block :: "place \<Rightarrow> block \<Rightarrow> body \<Rightarrow> body" where
  "set_block p x b = (case p of
     Part mi bi \<Rightarrow> set_content mi (Blocks ((content_blocks (bd_messages b ! mi))[bi := x])) b | _ \<Rightarrow> b)"

definition remove_thinking_block :: "place \<Rightarrow> body \<Rightarrow> body" where
  "remove_thinking_block p b = (case p of
     Part mi bi \<Rightarrow> let bs = content_blocks (bd_messages b ! mi) in set_content mi (Blocks (take bi bs @ drop (Suc bi) bs)) b
   | _ \<Rightarrow> b)"

definition reduce_thinking_sig :: "item \<Rightarrow> body \<Rightarrow> int \<times> body" where
  "reduce_thinking_sig it b = (case block_at b (it_place it) of
     None \<Rightarrow> (0, b)
   | Some x \<Rightarrow> (case x of Thinking sig t \<Rightarrow> int (length sig + length t) | _ \<Rightarrow> 0, remove_thinking_block (it_place it) b))"

text \<open>Tool results live in user messages.\<close>

definition find_tool_output :: "body \<Rightarrow> place \<Rightarrow> (string option \<times> string) option" where
  "find_tool_output b p = (case p of
     Part mi bi \<Rightarrow> (case block_at b p of
         Some (ToolResult i c) \<Rightarrow> if ms_role (bd_messages b ! mi) = ''user'' then Some (i, c) else None
       | _ \<Rightarrow> None)
   | _ \<Rightarrow> None)"

definition id_or_empty :: "string option \<Rightarrow> string" where
  "id_or_empty i = (case i of None \<Rightarrow> [] | Some s \<Rightarrow> s)"

definition tool_calls :: "body \<Rightarrow> (string \<times> string) list" where
  "tool_calls b = concat (map (\<lambda>m. if ms_role m = ''assistant''
     then concat (map (\<lambda>x. case x of ToolUse i n \<Rightarrow> [(id_or_empty i, n)] | _ \<Rightarrow> []) (content_blocks m)) else [])
     (bd_messages b))"

definition tool_name :: "body \<Rightarrow> string option \<Rightarrow> string" where
  "tool_name b i = (case find (\<lambda>(j, n). j = id_or_empty i) (tool_calls b) of None \<Rightarrow> [] | Some (j, n) \<Rightarrow> n)"

definition output_ref :: "budget_env \<Rightarrow> string \<Rightarrow> string" where
  "output_ref env c = ''tool_'' @ en_sha12 env c"

definition save_output :: "budget_env \<Rightarrow> body \<Rightarrow> string option \<Rightarrow> string \<Rightarrow> tool_output list option \<Rightarrow> tool_output list option" where
  "save_output env b i c st = map_option (\<lambda>rows.
     if en_store_ok env (output_ref env c)
     then store_tool_output \<lparr>to_ref = output_ref env c, to_conversation = en_conversation env,
            to_tool = tool_name b i, to_content = c\<rparr> rows
     else rows) st"

definition reduce_tool_result ::
  "budget_env \<Rightarrow> item \<Rightarrow> body \<Rightarrow> tool_output list option \<Rightarrow> int \<times> body \<times> tool_output list option" where
  "reduce_tool_result env it b st = (case find_tool_output b (it_place it) of
     None \<Rightarrow> (0, b, st)
   | Some (i, c) \<Rightarrow>
       let stub = stub_text (output_ref env c)
       in (int (it_size it) - int (length stub), set_block (it_place it) (ToolResult i stub) b, save_output env b i c st))"

definition reduce_tool_result_last2 :: "item \<Rightarrow> body \<Rightarrow> int \<times> body" where
  "reduce_tool_result_last2 it b = (case find_tool_output b (it_place it) of
     None \<Rightarrow> (0, b)
   | Some (i, c) \<Rightarrow>
       if length c \<le> 500 then (0, b)
       else (int (length c) - int (length (truncated_text c)), set_block (it_place it) (ToolResult i (truncated_text c)) b))"

definition truncated_context :: "string \<Rightarrow> string" where
  "truncated_context s = take (length s div 2) s @ CHR 0x0A # ''[... VC context truncated to fit budget ...]''"

definition reduce_vc_context :: "item \<Rightarrow> body \<Rightarrow> int \<times> body" where
  "reduce_vc_context it b = (case it_place it of
     System i \<Rightarrow>
       if i \<ge> length (bd_system b) \<or> length (bd_system b ! i) \<le> 500 then (0, b)
       else (let t = truncated_context (bd_system b ! i)
             in (int (length (bd_system b ! i)) - int (length t), b\<lparr>bd_system := (bd_system b)[i := t]\<rparr>))
   | _ \<Rightarrow> (0, b))"

definition reduce_conversation_text :: "item \<Rightarrow> body \<Rightarrow> int \<times> body" where
  "reduce_conversation_text it b = (case it_place it of
     System _ \<Rightarrow> (0, b)
   | Whole mi \<Rightarrow> (case ms_content (bd_messages b ! mi) of
         Plain s \<Rightarrow> if length s \<le> 500 then (0, b)
           else (int (length s) - int (length (truncated_text s)), set_content mi (Plain (truncated_text s)) b)
       | Blocks _ \<Rightarrow> (0, b))
   | Part mi bi \<Rightarrow> (case block_at b (Part mi bi) of
         Some (TextBlock t) \<Rightarrow> if length t \<le> 500 then (0, b)
           else (int (length t) - int (length (truncated_text t)), set_block (Part mi bi) (TextBlock (truncated_text t)) b)
       | _ \<Rightarrow> (0, b)))"

text \<open>The first candidate that is smaller than the image wins.\<close>

definition recompressed :: "budget_env \<Rightarrow> string \<Rightarrow> (string \<times> string) option" where
  "recompressed env d = (case en_images env d of
     None \<Rightarrow> None
   | Some (jpegs, png) \<Rightarrow> (case find (\<lambda>c. length c < length d) jpegs of
         Some c \<Rightarrow> Some (''image/jpeg'', c)
       | None \<Rightarrow> if length png < length d then Some (''image/png'', png) else None))"

definition reduce_image :: "budget_env \<Rightarrow> item \<Rightarrow> body \<Rightarrow> int \<times> body" where
  "reduce_image env it b = (case block_at b (it_place it) of
     Some (Image media d) \<Rightarrow>
       if it_size it < 200000 \<and> contains ''jpeg'' (lower media) then (0, b)
       else (case recompressed env d of
           None \<Rightarrow> (0, b)
         | Some (media', d') \<Rightarrow> (int (length d) - int (length d'), set_block (it_place it) (Image media' d') b))
   | _ \<Rightarrow> (0, b))"

definition apply_reduction ::
  "budget_env \<Rightarrow> item \<Rightarrow> body \<Rightarrow> tool_output list option \<Rightarrow> int \<times> body \<times> tool_output list option" where
  "apply_reduction env it b st = (case it_category it of
     ThinkingSig \<Rightarrow> (let (n, b') = reduce_thinking_sig it b in (n, b', st))
   | Result \<Rightarrow> reduce_tool_result env it b st
   | ResultLast2 \<Rightarrow> (let (n, b') = reduce_tool_result_last2 it b in (n, b', st))
   | VcContext \<Rightarrow> (let (n, b') = reduce_vc_context it b in (n, b', st))
   | ConversationText \<Rightarrow> (let (n, b') = reduce_conversation_text it b in (n, b', st))
   | MediaImage \<Rightarrow> (let (n, b') = reduce_image env it b in (n, b', st)))"

section \<open>Rounds\<close>

record budget_run =
  pg_body :: body
  pg_store :: "tool_output list option"
  pg_reductions :: nat
  pg_freed :: int

definition max_total_reductions :: nat where "max_total_reductions = 200"

definition max_rescan_rounds :: nat where "max_rescan_rounds = 8"

fun apply_planned :: "budget_env \<Rightarrow> item list \<Rightarrow> budget_run \<Rightarrow> budget_run" where
  "apply_planned env [] p = p"
| "apply_planned env (it # its) p =
     (let (freed, b, st) = apply_reduction env it (pg_body p) (pg_store p);
          p1 = p\<lparr>pg_body := b, pg_store := st\<rparr>
      in if freed \<le> 0 then apply_planned env its p1
         else let p2 = p1\<lparr>pg_reductions := pg_reductions p + 1, pg_freed := pg_freed p + freed\<rparr>
              in if pg_reductions p2 \<ge> max_total_reductions then p2 else apply_planned env its p2)"

definition estimate_tokens :: "budget_env \<Rightarrow> body \<Rightarrow> nat" where
  "estimate_tokens env b = max (en_tokens env b) (en_floor env b)"

fun budget_rounds :: "budget_env \<Rightarrow> nat \<Rightarrow> nat \<Rightarrow> nat \<Rightarrow> budget_run \<Rightarrow> budget_run" where
  "budget_rounds env window 0 outbound p = p"
| "budget_rounds env window (Suc rounds) outbound p =
     (let slots = max_total_reductions - pg_reductions p;
          planned = plan_budget_reductions (scan_reducible_items (pg_body p)) (outbound - window) slots;
          p' = apply_planned env (mutation_safe_reduction_order planned) p
      in if outbound \<le> window \<or> slots = 0 \<or> scan_reducible_items (pg_body p) = [] \<or> planned = [] then p
         else if pg_reductions p' = pg_reductions p then p'
         else budget_rounds env window rounds (estimate_tokens env (pg_body p')) p')"

definition enforce_payload_budget ::
  "budget_env \<Rightarrow> nat \<Rightarrow> nat option \<Rightarrow> tool_output list option \<Rightarrow> body \<Rightarrow> budget_run" where
  "enforce_payload_budget env window initial st b =
     (let outbound = (case initial of None \<Rightarrow> estimate_tokens env b | Some n \<Rightarrow> max n (en_floor env b));
          p = \<lparr>pg_body = b, pg_store = st, pg_reductions = 0, pg_freed = 0\<rparr>
      in if outbound \<le> window then p else budget_rounds env window max_rescan_rounds outbound p)"

section \<open>Restoring\<close>

text \<open>The first tool result that contains the ref gets the full text.\<close>

fun restore_blocks :: "string \<Rightarrow> string \<Rightarrow> block list \<Rightarrow> block list option" where
  "restore_blocks ref full [] = None"
| "restore_blocks ref full (b # bs) = (case b of
     ToolResult i c \<Rightarrow>
       if contains ref c then Some (ToolResult i full # bs) else map_option (\<lambda>r. b # r) (restore_blocks ref full bs)
   | _ \<Rightarrow> map_option (\<lambda>r. b # r) (restore_blocks ref full bs))"

fun restore_messages :: "string \<Rightarrow> string \<Rightarrow> message list \<Rightarrow> message list option" where
  "restore_messages ref full [] = None"
| "restore_messages ref full (m # ms) =
     (case (if ms_role m = ''user'' then restore_blocks ref full (content_blocks m) else None) of
        Some bs \<Rightarrow> Some (m\<lparr>ms_content := Blocks bs\<rparr> # ms)
      | None \<Rightarrow> map_option (\<lambda>r. m # r) (restore_messages ref full ms))"

definition restore_tool_stub_in_place :: "body \<Rightarrow> string \<Rightarrow> string \<Rightarrow> body option" where
  "restore_tool_stub_in_place b ref full =
     map_option (\<lambda>ms. b\<lparr>bd_messages := ms\<rparr>) (restore_messages ref full (bd_messages b))"

datatype restore_reply = RefNotFound | NoPayload | StubNotFound | Restored

text \<open>\<open>other\<close> stands for the refs of media and chains.\<close>

definition restore_tool_output ::
  "(string \<Rightarrow> body option \<Rightarrow> restore_reply \<times> body option) \<Rightarrow> string \<Rightarrow> tool_output list \<Rightarrow> string \<Rightarrow> body option
     \<Rightarrow> restore_reply \<times> body option" where
  "restore_tool_output other conversation rows ref target =
     (if starts_with ref ''media_'' \<or> starts_with ref ''chain_'' then other ref target
      else case get_tool_output_by_ref conversation ref rows of
        None \<Rightarrow> (RefNotFound, target)
      | Some full \<Rightarrow> (case target of
          None \<Rightarrow> (NoPayload, None)
        | Some b \<Rightarrow> (case restore_tool_stub_in_place b ref full of
            None \<Rightarrow> (StubNotFound, target) | Some b' \<Rightarrow> (Restored, Some b'))))"

end
