(* ===== verification/PayloadTrimProps.thy ===== *)
theory PayloadTrimProps
  imports PayloadTrim "HOL-Library.Sublist"
begin

text \<open>
  What trimming keeps: whole turn groups, the two most recent ones among them, tool calls together
  with their results, and a message total within what the fixed part leaves.  The lemmas rest on
  the contract of a format's grouping, stated as a locale and interpreted on both formats.
\<close>

section \<open>Lists picked by index\<close>

lemma pick_eq: "pick xs keep = map ((!) xs) (filter (\<lambda>i. i \<in> keep) [0..<length xs])"
proof (induction xs rule: rev_induct)
  case (snoc x xs)
  have "map ((!) (xs @ [x])) (filter (\<lambda>i. i \<in> keep) [0..<length xs]) = map ((!) xs) (filter (\<lambda>i. i \<in> keep) [0..<length xs])"
    by (rule map_cong) (auto simp: nth_append)
  then show ?case using snoc by (simp add: pick_def enumerate_append_eq)
qed (simp add: pick_def)

lemma subseq_distinct: "subseq xs ys \<Longrightarrow> distinct ys \<Longrightarrow> distinct xs"
proof (induction rule: list_emb.induct)
  case (list_emb_Cons2 x y xs ys)
  then show ?case using list_emb_set[of "(=)" xs ys x] by auto
qed simp_all

lemma subseq_set: "subseq xs ys \<Longrightarrow> set xs \<subseteq> set ys"
  using list_emb_set[of "(=)" xs ys] by auto

definition group_messages :: "message list \<Rightarrow> turn_group \<Rightarrow> message list" where
  "group_messages ms g = map ((!) ms) (gr_indices g)"

definition tool_paired :: "message list \<Rightarrow> bool" where
  "tool_paired ms \<longleftrightarrow> all_uses ms = all_results ms"

lemma tool_paired_concat: "(\<And>xs. xs \<in> set xss \<Longrightarrow> tool_paired xs) \<Longrightarrow> tool_paired (concat xss)"
  by (induction xss) (auto simp: tool_paired_def all_uses_def all_results_def)

lemma cleanup_paired: "tool_paired ms \<Longrightarrow> cleanup_orphaned_tools ms = ms"
  by (simp add: tool_paired_def cleanup_orphaned_tools_def numeral_3_eq_3)

lemma cleanup_subseq: "subseq (cleanup_passes n ms) ms"
proof (induction n arbitrary: ms)
  case (Suc n)
  show ?case using subseq_order.order_trans[OF Suc.IH subseq_filter_left] by simp
qed simp

section \<open>The contract of a grouping\<close>

locale turn_grouping =
  fixes grouping :: "message list \<Rightarrow> turn_group list"
  assumes covers: "group_indices (grouping ms) = [0..<length ms]"
    and nonempty: "g \<in> set (grouping ms) \<Longrightarrow> gr_indices g \<noteq> []"
begin

lemma distinct_groups: "distinct (grouping ms)"
proof -
  have "distinct (concat (map gr_indices (grouping ms)))" using covers[of ms] by (simp add: group_indices_def)
  moreover have "[] \<notin> set (map gr_indices (grouping ms))" using nonempty by force
  ultimately have "distinct (map gr_indices (grouping ms))" by (simp add: distinct_concat_iff removeAll_id)
  then show ?thesis by (simp add: distinct_map)
qed

lemma empty_groups: "grouping [] = []"
proof (rule ccontr)
  assume "grouping [] \<noteq> []"
  then have g: "hd (grouping []) \<in> set (grouping [])" by simp
  have "gr_indices g = []" if "g \<in> set (grouping [])" for g using covers[of "[]"] that by (simp add: group_indices_def)
  from this[OF g] show False using nonempty[OF g] by contradiction
qed

lemma disjoint_groups:
  assumes "g \<in> set (grouping ms)" "h \<in> set (grouping ms)" "i \<in> set (gr_indices g)" "i \<in> set (gr_indices h)"
  shows "g = h"
proof (rule ccontr)
  assume "g \<noteq> h"
  obtain xs ys zs where "grouping ms = xs @ g # ys @ h # zs \<or> grouping ms = xs @ h # ys @ g # zs"
    using assms(1,2) \<open>g \<noteq> h\<close> by (metis append.assoc append_Cons in_set_conv_decomp set_ConsD Un_iff set_append)
  moreover have "distinct (concat (map gr_indices (grouping ms)))" using covers[of ms] by (simp add: group_indices_def)
  ultimately show False using assms(3,4) by auto
qed

lemma no_trailing [simp]: "trailing_items ms (grouping ms) = []"
  by (simp add: trailing_items_def covers)

text \<open>Keeping the indices of some groups keeps exactly these groups, in order.\<close>

lemma pick_groups:
  assumes "A \<subseteq> set (grouping ms)" "keep = (\<Union>g\<in>A. set (gr_indices g))"
  shows "pick ms keep = concat (map (group_messages ms) (filter (\<lambda>g. g \<in> A) (grouping ms)))"
proof -
  have "filter (\<lambda>i. i \<in> keep) (gr_indices g) = (if g \<in> A then gr_indices g else [])" if g: "g \<in> set (grouping ms)" for g
    using disjoint_groups[OF g] assms g by (auto simp: filter_id_conv filter_empty_conv)
  then have "filter (\<lambda>i. i \<in> keep) (concat (map gr_indices gs)) = concat (map gr_indices (filter (\<lambda>g. g \<in> A) gs))"
    if "set gs \<subseteq> set (grouping ms)" for gs using that by (induction gs) auto
  then have "filter (\<lambda>i. i \<in> keep) [0..<length ms] = concat (map gr_indices (filter (\<lambda>g. g \<in> A) (grouping ms)))"
    using covers[of ms] unfolding group_indices_def by (metis order_refl)
  then show ?thesis by (simp add: pick_eq map_concat comp_def group_messages_def[abs_def])
qed

lemma all_groups: "concat (map (group_messages ms) (grouping ms)) = ms"
proof -
  have "concat (map (group_messages ms) (grouping ms)) = map ((!) ms) (group_indices (grouping ms))"
    by (simp add: group_messages_def[abs_def] group_indices_def map_concat comp_def)
  then show ?thesis by (simp add: covers map_nth)
qed

lemma keep_groups:
  assumes split: "grouping ms = S @ M @ R" and K: "set K \<subseteq> set M"
    and keep: "keep = set (group_indices S) \<union> set (group_indices R) \<union> set (group_indices K)"
  shows "pick ms keep = concat (map (group_messages ms) (S @ filter (\<lambda>g. g \<in> set K) M @ R))"
    and "subseq (S @ filter (\<lambda>g. g \<in> set K) M @ R) (grouping ms)"
proof -
  have d: "distinct (S @ M @ R)" using distinct_groups[of ms] by (simp only: split)
  have f: "filter (\<lambda>g. g \<in> set S \<union> set R \<union> set K) (grouping ms) = S @ filter (\<lambda>g. g \<in> set K) M @ R"
  proof -
    have "filter (\<lambda>g. g \<in> set S \<union> set R \<union> set K) M = filter (\<lambda>g. g \<in> set K) M" using d by (intro filter_cong) auto
    then show ?thesis unfolding split by (simp add: filter_id_conv)
  qed
  have "pick ms keep = concat (map (group_messages ms) (filter (\<lambda>g. g \<in> set S \<union> set R \<union> set K) (grouping ms)))"
    by (rule pick_groups) (use K split keep in \<open>auto simp: group_indices_def\<close>)
  then show "pick ms keep = concat (map (group_messages ms) (S @ filter (\<lambda>g. g \<in> set K) M @ R))" unfolding f .
  show "subseq (S @ filter (\<lambda>g. g \<in> set K) M @ R) (grouping ms)" unfolding f[symmetric] by (rule subseq_filter_left)
qed

end

section \<open>The greedy loop\<close>

definition group_tokens :: "payload_format \<Rightarrow> message list \<Rightarrow> turn_group list \<Rightarrow> nat" where
  "group_tokens fmt ms gs = sum_list (map (\<lambda>g. indices_tokens fmt ms (gr_indices g)) gs)"

lemma tokens_of_groups: "sum_list (map (fm_message fmt) (concat (map (group_messages ms) gs))) = group_tokens fmt ms gs"
  by (induction gs) (simp_all add: group_tokens_def group_messages_def indices_tokens_def comp_def)

lemma tokens_of_indices: "indices_tokens fmt ms (group_indices gs) = group_tokens fmt ms gs"
  by (induction gs) (simp_all add: group_tokens_def group_indices_def indices_tokens_def)

lemma keep_older_ok:
  "keep_older fmt ms available gs used = (kept, used') \<Longrightarrow>
     subseq kept gs \<and> used' = used + group_tokens fmt ms kept \<and> (kept = [] \<or> int used' \<le> available)"
proof (induction gs arbitrary: used kept used')
  case (Cons g gs)
  show ?case
  proof (cases "int (used + indices_tokens fmt ms (gr_indices g)) \<le> available")
    case True
    obtain k u where k: "keep_older fmt ms available gs (used + indices_tokens fmt ms (gr_indices g)) = (k, u)" by fastforce
    then have "kept = g # k" "used' = u" using Cons.prems True by (auto simp: Let_def)
    then show ?thesis using Cons.IH[OF k] True by (auto simp: group_tokens_def)
  next
    case False
    then have "keep_older fmt ms available gs used = (kept, used')" using Cons.prems by (simp add: Let_def)
    then show ?thesis using Cons.IH[of used kept used'] by auto
  qed
qed (simp add: group_tokens_def)

lemma group_tokens_filter:
  assumes "distinct M" "distinct K" "set K \<subseteq> set M"
  shows "group_tokens fmt ms (filter (\<lambda>g. g \<in> set K) M) = group_tokens fmt ms K"
    and "length (filter (\<lambda>g. g \<in> set K) M) = length K"
proof -
  have "set (filter (\<lambda>g. g \<in> set K) M) = set K" "distinct (filter (\<lambda>g. g \<in> set K) M)" using assms by auto
  then have "mset (filter (\<lambda>g. g \<in> set K) M) = mset K" using assms(2) set_eq_iff_mset_eq_distinct by blast
  then show "group_tokens fmt ms (filter (\<lambda>g. g \<in> set K) M) = group_tokens fmt ms K"
    and "length (filter (\<lambda>g. g \<in> set K) M) = length K"
    unfolding group_tokens_def by (simp_all only: mset_map flip: sum_mset_sum_list size_mset)
qed

text \<open>What a trim returns: whole groups, with the two most recent turns among them, and either within
  what the fixed part leaves or stripped of every older turn.\<close>

definition trimmed :: "payload_format \<Rightarrow> nat \<Rightarrow> message list \<Rightarrow> message list \<Rightarrow> nat \<Rightarrow> bool" where
  "trimmed fmt limit ms out n \<longleftrightarrow>
     (\<exists>gs. subseq gs (fm_group fmt ms) \<and> out = concat (map (group_messages ms) gs)
        \<and> length gs + n = length (fm_group fmt ms) \<and> set (take_last 2 (turn_groups ms (fm_group fmt ms))) \<subseteq> set gs)
     \<and> (fm_payload fmt ms \<le> limit \<or> int (sum_list (map (fm_message fmt) out)) + int (fm_fixed fmt) \<le> int limit
        \<or> n = length (turn_groups ms (fm_group fmt ms)) - 2)"

context turn_grouping
begin

lemma trimmed_parts:
  assumes fmt: "fm_group fmt = grouping" and split: "grouping ms = S @ M @ R" and K: "subseq K (rev M)"
    and turns: "turn_groups ms (grouping ms) = M @ R" "length R = min 2 (length (M @ R))"
    and budget: "int (group_tokens fmt ms (S @ K @ R)) + int (fm_fixed fmt) \<le> int limit \<or> K = []"
    and keep: "keep = set (group_indices S) \<union> set (group_indices R) \<union> set (group_indices K)"
  shows "trimmed fmt limit ms (pick ms keep) (length M - length K)"
proof -
  define gs where "gs = S @ filter (\<lambda>g. g \<in> set K) M @ R"
  have d: "distinct M" using distinct_groups[of ms] by (simp add: split)
  have sK: "set K \<subseteq> set M" using subseq_set[OF K] by simp
  have dK: "distinct K" using K d by (metis distinct_rev subseq_distinct)
  have lK: "length K \<le> length M" using list_emb_length[OF K] by simp
  note F = group_tokens_filter[OF d dK sK]
  have "pick ms keep = concat (map (group_messages ms) gs)" "subseq gs (grouping ms)"
    unfolding gs_def by (rule keep_groups[OF split sK keep])+
  moreover have "length gs + (length M - length K) = length (grouping ms)" using lK by (simp add: gs_def split F)
  moreover have "take_last 2 (M @ R) = R" using turns(2) by (auto simp: take_last_def min_def split: if_splits)
  then have "set (take_last 2 (turn_groups ms (grouping ms))) \<subseteq> set gs" by (auto simp: turns(1) gs_def)
  moreover have "group_tokens fmt ms gs = group_tokens fmt ms (S @ K @ R)"
    using F(1)[of fmt ms] by (simp add: gs_def group_tokens_def)
  then have "int (sum_list (map (fm_message fmt) (concat (map (group_messages ms) gs)))) + int (fm_fixed fmt) \<le> int limit
      \<or> length M - length K = length (M @ R) - 2"
    using budget turns(2) unfolding tokens_of_groups by (auto simp: min_def split: if_splits)
  ultimately show ?thesis unfolding trimmed_def fmt turns(1) by metis
qed

lemma trimmed_self:
  assumes "fm_group fmt = grouping"
    and "fm_payload fmt ms \<le> limit \<or> int (sum_list (map (fm_message fmt) ms)) + int (fm_fixed fmt) \<le> int limit
      \<or> length (turn_groups ms (grouping ms)) \<le> 2"
  shows "trimmed fmt limit ms ms 0"
proof -
  have "set (take_last 2 (turn_groups ms (grouping ms))) \<subseteq> set (grouping ms)"
    using set_take_last[of 2] set_dropWhileD by (fastforce simp: turn_groups_def)
  moreover have "ms = concat (map (group_messages ms) (grouping ms))" by (simp add: all_groups)
  ultimately show ?thesis using assms(2) unfolding trimmed_def assms(1)
    by (intro conjI exI[of _ "grouping ms"]) auto
qed

lemma trim_ok:
  assumes fmt: "fm_group fmt = grouping" and paired: "\<forall>g\<in>set (grouping ms). tool_paired (group_messages ms g)"
    and run: "trim_to_upstream_limit fmt limit ms = (out, n)"
  shows "tool_paired out \<and> trimmed fmt limit ms out n"
proof -
  have sub_paired: "tool_paired (concat (map (group_messages ms) gs))" if "subseq gs (grouping ms)" for gs
    using paired subseq_set[OF that] by (intro tool_paired_concat) auto
  then have trimmed_paired: "tool_paired out" if "trimmed fmt limit ms out n" for out n
    using that fmt unfolding trimmed_def by blast
  define turns where "turns = turn_groups ms (grouping ms)"
  define S where "S = system_groups ms (grouping ms)"
  define M where "M = take (length turns - min 2 (length turns)) turns"
  define R where "R = drop (length turns - min 2 (length turns)) turns"
  define available where "available = int limit - int (fm_fixed fmt)"
  have MR: "turns = M @ R" "length R = min 2 (length (M @ R))" by (simp_all add: M_def R_def)
  have split: "grouping ms = S @ M @ R"
    unfolding MR(1)[symmetric] by (simp add: S_def turns_def system_groups_def turn_groups_def)
  define always where "always = group_indices S @ group_indices R"
  have always: "group_indices S @ group_indices R @ [] = always" by (simp add: always_def)
  note body = run[unfolded trim_to_upstream_limit_def Let_def fmt no_trailing, folded turns_def S_def,
    folded M_def R_def available_def, unfolded always]
  consider (same) "out = ms" "n = 0" "fm_payload fmt ms \<le> limit \<or> ms = [] \<or> length turns \<le> 2"
    | (fixed) "out = pick ms (set always)" "n = length M"
    | (greedy) kept used where "keep_older fmt ms available (rev M) (indices_tokens fmt ms always) = (kept, used)"
        "(out, n) = (if length kept = length M then (ms, 0)
           else (cleanup_orphaned_tools (pick ms (set always \<union> set (group_indices kept))), length M - length kept))"
  proof (cases "fm_payload fmt ms \<le> limit \<or> ms = [] \<or> length turns \<le> 2")
    case True
    then show ?thesis using body same by simp
  next
    case large: False
    show ?thesis
    proof (cases "available \<le> 0")
      case True
      then show ?thesis using body large fixed by simp
    next
      case False
      obtain kept used where k: "keep_older fmt ms available (rev M) (indices_tokens fmt ms always) = (kept, used)" by fastforce
      have e: "(if length kept = length M then (ms, 0)
           else (cleanup_orphaned_tools (pick ms (set always \<union> set (group_indices kept))), length M - length kept)) = (out, n)"
        using body large False k by simp
      show ?thesis by (rule greedy[OF k e[symmetric]])
    qed
  qed
  then have "trimmed fmt limit ms out n"
  proof cases
    case same
    then have "length turns \<le> 2 \<or> fm_payload fmt ms \<le> limit" using empty_groups by (auto simp: turns_def turn_groups_def)
    then have "trimmed fmt limit ms ms 0" by (intro trimmed_self[OF fmt]) (auto simp: turns_def)
    then show ?thesis by (simp only: same)
  next
    case fixed
    have "trimmed fmt limit ms (pick ms (set always)) (length M - length ([] :: turn_group list))"
      by (rule trimmed_parts[OF fmt split _ MR[unfolded turns_def]]) (auto simp: always_def group_indices_def)
    then show ?thesis using fixed by simp
  next
    case greedy
    note K = keep_older_ok[OF greedy(1)]
    have used: "used = group_tokens fmt ms (S @ kept @ R)"
      using K tokens_of_indices[of fmt ms "S @ R"] by (simp add: always_def group_indices_def group_tokens_def)
    have T: "trimmed fmt limit ms (pick ms (set always \<union> set (group_indices kept))) (length M - length kept)"
      by (rule trimmed_parts[OF fmt split _ MR[unfolded turns_def]])
        (use K used in \<open>auto simp: always_def available_def\<close>)
    show ?thesis
    proof (cases "length kept = length M")
      case False
      then show ?thesis using greedy(2) T cleanup_paired[OF trimmed_paired[OF T]] by simp
    next
      case True
      then have "pick ms (set always \<union> set (group_indices kept)) = ms"
        using T by (auto simp: trimmed_def fmt all_groups dest!: subseq_same_length)
      then show ?thesis using greedy(2) T True by simp
    qed
  qed
  then show ?thesis using trimmed_paired by blast
qed

end

lemma group_loop_ok:
  "group_indices (group_loop opens marks i ms cur tool) = cur @ [i..<i + length ms]
     \<and> [] \<notin> gr_indices ` set (group_loop opens marks i ms cur tool)"
proof (induction ms arbitrary: i cur tool)
  case (Cons m ms)
  have upt: "[i..<i + length (m # ms)] = i # [Suc i..<Suc i + length ms]" by (simp add: upt_conv_Cons del: upt_Suc)
  show ?case unfolding upt using Cons.IH[of "Suc i" "[i]" False] Cons.IH[of "Suc i" "cur @ [i]" "tool \<or> marks m"]
    by (auto simp: group_indices_def simp del: upt_Suc)
qed (simp add: group_indices_def)

interpretation anthropic: turn_grouping group_anthropic
  by unfold_locales (use group_loop_ok in \<open>force simp: group_anthropic_def\<close>)+

interpretation openai: turn_grouping group_openai
  by unfold_locales (use group_loop_ok in \<open>force simp: group_openai_def\<close>)+

section \<open>Trimming keeps what it must\<close>

text \<open>C19: Trimming an Anthropic or OpenAI chat payload keeps the payload well formed.  When every turn
  group pairs its tool calls with its results, so does the trimmed payload: it is a sequence of whole
  groups, in order, without a split one; the two most recent turns stay; the count returned is the
  number of groups removed; and the messages kept fit beside the system prompt and the tools, unless
  every older turn is gone.\<close>

theorem trim_keeps_tool_pairs:
  assumes "fm_group fmt = group_anthropic \<or> fm_group fmt = group_openai"
    and "\<forall>g\<in>set (fm_group fmt ms). tool_paired (group_messages ms g)"
    and "trim_to_upstream_limit fmt limit ms = (out, n)"
  shows "tool_paired out \<and> trimmed fmt limit ms out n"
  using assms anthropic.trim_ok[of fmt ms limit out n] openai.trim_ok[of fmt ms limit out n] by metis

definition say :: "string \<Rightarrow> block list \<Rightarrow> message" where
  "say role bs = \<lparr>ms_role = role, ms_content = Blocks bs, ms_tool_calls = None, ms_tool_call_id = None\<rparr>"

definition exchange :: "string \<Rightarrow> message list" where
  "exchange t = [say ''user'' [TextBlock t], say ''assistant'' [TextBlock t]]"

definition tool_exchange :: "string \<Rightarrow> string \<Rightarrow> message list" where
  "tool_exchange t i = [say ''user'' [TextBlock t], say ''assistant'' [ToolUse (Some i) ''run''], say ''user'' [ToolResult (Some i) ''ok''],
     say ''assistant'' [TextBlock t]]"

definition sample_payload :: "message list" where
  "sample_payload = tool_exchange ''a'' ''t1'' @ exchange ''b'' @ tool_exchange ''c'' ''t2'' @ exchange ''d''"

definition ten_each :: payload_format where
  "ten_each = anthropic_format (\<lambda>_. 10) 0 (\<lambda>k. if k = 0 then 0 else max 1 (k div 4))"

lemmas sample_simps = sample_payload_def exchange_def tool_exchange_def say_def ten_each_def anthropic_format_def

lemma sample_groups: "fm_group ten_each sample_payload =
    [\<lparr>gr_indices = [0, 1, 2, 3], gr_tool = True\<rparr>, \<lparr>gr_indices = [4, 5], gr_tool = False\<rparr>,
     \<lparr>gr_indices = [6, 7, 8, 9], gr_tool = True\<rparr>, \<lparr>gr_indices = [10, 11], gr_tool = False\<rparr>]"
  by code_simp

theorem trim_keeps_tool_pairs_witness:
  "\<exists>out. trim_to_upstream_limit ten_each 85 sample_payload = (out, 1) \<and> length out = 8
     \<and> tool_paired out \<and> trimmed ten_each 85 sample_payload out 1"
proof -
  have run: "trim_to_upstream_limit ten_each 85 sample_payload = (drop 4 sample_payload, 1)" by code_simp
  have "\<forall>g\<in>set (fm_group ten_each sample_payload). tool_paired (group_messages sample_payload g)"
    unfolding sample_groups by code_simp
  from trim_keeps_tool_pairs[OF _ this run] run show ?thesis
    by (simp add: ten_each_def anthropic_format_def) (simp add: sample_simps)
qed

definition four_exchanges :: "message list" where
  "four_exchanges = concat (map exchange [''a'', ''b'', ''c'', ''d''])"

section \<open>Admission counts what trimming does not\<close>


section \<open>Dropping compacted turns keeps tool traffic\<close>

text \<open>A grouping whose groups without tool activity hold no tool block, on messages as their format
  produces them.\<close>

locale tool_grouping = turn_grouping grouping for grouping :: "message list \<Rightarrow> turn_group list" +
  fixes formed :: "message \<Rightarrow> bool"
  assumes quiet: "list_all formed ms \<Longrightarrow> g \<in> set (grouping ms) \<Longrightarrow> \<not> gr_tool g \<Longrightarrow> i \<in> set (gr_indices g) \<Longrightarrow>
    use_ids (ms ! i) = [] \<and> result_ids (ms ! i) = []"
begin

lemma drop_ok:
  assumes fmt: "fm_group fmt = grouping" and formed: "list_all formed ms"
    and run: "drop_compacted_turns fmt host_context watermark recent boundary ms = (out, n)"
  shows "subseq out ms \<and> all_uses out = all_uses ms \<and> all_results out = all_results ms
    \<and> suffix (concat (map (group_messages ms)
         (drop (length (history_turns ms (grouping ms)) - recent) (grouping ms)))) out"
proof (cases "watermark = 0 \<or> grouping ms = []")
  case True
  then have "out = ms" using run by (auto simp: drop_compacted_turns_def fmt Let_def)
  moreover have "suffix (concat (map (group_messages ms) (drop k (grouping ms)))) ms" for k
  proof -
    have "ms = concat (map (group_messages ms) (take k (grouping ms))) @ concat (map (group_messages ms) (drop k (grouping ms)))"
      by (simp add: all_groups flip: concat_append map_append)
    then show ?thesis by (metis suffixI)
  qed
  ultimately show ?thesis by simp
next
  case False
  define history where "history = history_turns ms (grouping ms)"
  define k where "k = length history - recent"
  obtain D where out: "out = pick ms (- D)"
    and D: "\<And>i. i \<in> D \<Longrightarrow> \<exists>g\<in>set (take k (grouping ms)). \<not> gr_tool g \<and> i \<in> set (gr_indices g)"
  proof -
    define start where "start = length history - min recent (length history)"
    define limit where "limit = (case boundary of None \<Rightarrow> start | Some b \<Rightarrow> min (b div 2) start)"
    define dropped where "dropped = filter (\<lambda>is. is \<noteq> []) (map (\<lambda>g. if gr_tool g then []
      else filter (\<lambda>i. droppable_history_item host_context (ms ! i)) (gr_indices g)) (take limit history))"
    have "(pick ms (- set (concat dropped)), length dropped) = (out, n)"
      using run unfolding drop_compacted_turns_def fmt Let_def if_not_P[OF False] dropped_def limit_def start_def history_def .
    then have out: "out = pick ms (- set (concat dropped))" by simp
    moreover have "limit \<le> k" by (auto simp: limit_def start_def k_def split: option.split)
    moreover have "history = take (length history) (grouping ms)"
      by (auto simp: history_def history_turns_def butlast_conv_take)
    ultimately have "set (take limit history) \<subseteq> set (take k (grouping ms))"
      by (metis min.coboundedI1 set_take_subset_set_take take_take)
    then have "\<exists>g\<in>set (take k (grouping ms)). \<not> gr_tool g \<and> i \<in> set (gr_indices g)" if "i \<in> set (concat dropped)" for i
      using that by (auto simp: dropped_def split: if_splits)
    then show ?thesis using that out by blast
  qed
  define I where "I = group_indices (take k (grouping ms))"
  define J where "J = group_indices (drop k (grouping ms))"
  have IJ: "[0..<length ms] = I @ J"
    by (simp add: I_def J_def group_indices_def flip: concat_append map_append covers)
  then have "set I \<inter> set J = {}" by (metis distinct_append distinct_upt)
  moreover have "D \<subseteq> set I" using D by (fastforce simp: I_def group_indices_def)
  ultimately have "filter (\<lambda>i. i \<in> - D) J = J" by (auto simp: filter_id_conv)
  then have "out = map ((!) ms) (filter (\<lambda>i. i \<in> - D) I) @ map ((!) ms) J" by (simp add: out pick_eq IJ)
  moreover have "map ((!) ms) J = concat (map (group_messages ms) (drop k (grouping ms)))"
    by (simp add: J_def group_indices_def group_messages_def[abs_def] map_concat comp_def)
  ultimately have "suffix (concat (map (group_messages ms) (drop k (grouping ms)))) out" by (simp add: suffix_def)
  moreover have sub: "subseq out ms" unfolding out pick_def
    by (metis subseq_filter_left subseq_map map_snd_enumerate)
  moreover have silent: "use_ids (ms ! i) = [] \<and> result_ids (ms ! i) = []" if "i \<in> D" for i
    using D[OF that] quiet[OF formed] by (meson in_set_takeD)
  have "m \<in> set out \<or> use_ids m = [] \<and> result_ids m = []" if m: "m \<in> set ms" for m
  proof -
    obtain i where i: "i < length ms" "m = ms ! i" using m by (metis in_set_conv_nth)
    show ?thesis using silent[of i] i by (cases "i \<in> D") (auto simp: out pick_eq)
  qed
  then have "all_uses out = all_uses ms \<and> all_results out = all_results ms"
    using subseq_set[OF sub] unfolding all_uses_def all_results_def by fastforce
  ultimately show ?thesis by (simp add: k_def history_def)
qed

end

lemma group_loop_quiet:
  "g \<in> set (group_loop opens marks i ms cur tool) \<Longrightarrow> \<not> gr_tool g \<Longrightarrow> j \<in> set (gr_indices g) \<Longrightarrow>
     j \<in> set cur \<and> \<not> tool \<or> i \<le> j \<and> j < i + length ms \<and> (opens (ms ! (j - i)) \<or> \<not> marks (ms ! (j - i)))"
proof (induction ms arbitrary: i cur tool)
  case (Cons m ms)
  show ?case
    using Cons.prems Cons.IH[of "Suc i" "[i]" False] Cons.IH[of "Suc i" "cur @ [i]" "tool \<or> marks m"]
    by (auto simp: nth_Cons' split: if_splits)
qed (auto split: if_splits)

text \<open>Messages as the two formats have them: which roles carry tool calls and tool results.\<close>

definition anthropic_message :: "message \<Rightarrow> bool" where
  "anthropic_message m \<longleftrightarrow> ms_tool_calls m = None \<and> ms_role m \<noteq> ''tool''
     \<and> (list_ex is_tool_use (content_blocks m) \<longrightarrow> ms_role m = ''assistant'')
     \<and> (list_ex is_tool_result (content_blocks m) \<longrightarrow> ms_role m = ''user'')"

definition openai_message :: "message \<Rightarrow> bool" where
  "openai_message m \<longleftrightarrow> \<not> list_ex is_tool_use (content_blocks m) \<and> \<not> list_ex is_tool_result (content_blocks m)
     \<and> (ms_tool_calls m \<noteq> None \<longrightarrow> ms_role m = ''assistant'')"

lemma no_use_ids: "\<not> list_ex is_tool_use (content_blocks m) \<Longrightarrow> ms_tool_calls m = None \<Longrightarrow> use_ids m = []"
  by (auto simp: use_ids_def some_ids_def list_ex_iff is_tool_use_def split: option.splits block.splits)

lemma no_result_ids: "\<not> list_ex is_tool_result (content_blocks m) \<Longrightarrow> ms_role m \<noteq> ''tool'' \<Longrightarrow> result_ids m = []"
  by (auto simp: result_ids_def some_ids_def list_ex_iff is_tool_result_def split: option.splits block.splits)

interpretation anthropic: tool_grouping group_anthropic anthropic_message
proof
  fix ms g i
  assume ok: "list_all anthropic_message ms" and g: "g \<in> set (group_anthropic ms)" "\<not> gr_tool g" "i \<in> set (gr_indices g)"
  note q = group_loop_quiet[OF g(1)[unfolded group_anthropic_def] g(2,3), simplified]
  then have "anthropic_message (ms ! i)" using ok by (simp add: list_all_length)
  then show "use_ids (ms ! i) = [] \<and> result_ids (ms ! i) = []"
    using q by (intro conjI no_use_ids no_result_ids) (auto simp: anthropic_message_def real_user_def)
qed

interpretation openai: tool_grouping group_openai openai_message
proof
  fix ms g i
  assume ok: "list_all openai_message ms" and g: "g \<in> set (group_openai ms)" "\<not> gr_tool g" "i \<in> set (gr_indices g)"
  note q = group_loop_quiet[OF g(1)[unfolded group_openai_def] g(2,3), simplified]
  then have "openai_message (ms ! i)" using ok by (simp add: list_all_length)
  then show "use_ids (ms ! i) = [] \<and> result_ids (ms ! i) = []"
    using q by (intro conjI no_use_ids no_result_ids) (auto simp: openai_message_def)
qed



end
