(* ===== verification/PayloadBudgetProps.thy ===== *)
theory PayloadBudgetProps
  imports PayloadBudget PayloadTrimProps
begin

text \<open>
  What the enforcement of the payload budget keeps: the skeleton of the request, an exact account of
  the bytes freed, the bound on the number of reductions, and the restorability of stubbed tool
  outputs.  The lemmas follow an item from the scan to its application: a planned item still names
  the block it was scanned from when its turn comes.
\<close>

section \<open>Lengths of replacement texts\<close>

lemma decimal_length: "length (decimal n) \<le> n div 10 + 2"
proof (induction n rule: less_induct)
  case (less n)
  show ?case
  proof (cases "n < 10")
    case True then show ?thesis by (subst decimal.simps) simp
  next
    case False
    then have "length (decimal n) = length (decimal (n div 10)) + 1" by (subst decimal.simps) simp
    then show ?thesis using less[of "n div 10"] False by simp
  qed
qed

lemma truncated_shorter: "500 < length s \<Longrightarrow> length (truncated_text s) < length s"
  using decimal_length[of "length s - 400"]
  by (simp add: truncated_text_def blank_line_def take_last_def)

lemma context_shorter: "500 < length s \<Longrightarrow> length (truncated_context s) < length s"
  by (simp add: truncated_context_def)

lemma stub_length: "length (en_sha12 env c) = 12 \<Longrightarrow> length (stub_text (output_ref env c)) < 480"
  by (simp add: stub_text_def output_ref_def quote_mark_def)

lemma recompressed_shorter: "recompressed env d = Some (m, d') \<Longrightarrow> length d' < length d"
  by (auto simp: recompressed_def find_Some_iff split: option.splits if_splits)

section \<open>What is scanned\<close>

lemma in_message_items:
  "it \<in> set (message_items test mi m) \<longleftrightarrow> (\<exists>bi c n. bi < length (content_blocks m)
     \<and> test mi m (content_blocks m ! bi) = Some (c, n) \<and> it = \<lparr>it_place = Part mi bi, it_category = c, it_size = n\<rparr>)"
proof -
  have "(it \<in> set (case test mi m x of None \<Rightarrow> [] | Some (c, n) \<Rightarrow> [\<lparr>it_place = Part mi i, it_category = c, it_size = n\<rparr>]))
     = (\<exists>c n. test mi m x = Some (c, n) \<and> it = \<lparr>it_place = Part mi i, it_category = c, it_size = n\<rparr>)" for i x
    by (cases "test mi m x") auto
  then have "it \<in> set (message_items test mi m) \<longleftrightarrow> (\<exists>i x. (i, x) \<in> set (enumerate 0 (content_blocks m))
     \<and> (\<exists>c n. test mi m x = Some (c, n) \<and> it = \<lparr>it_place = Part mi i, it_category = c, it_size = n\<rparr>))"
    unfolding message_items_def set_concat set_map by (simp add: Bex_def split_paired_Ex)
  then show ?thesis by (auto simp: in_set_enumerate_eq)
qed

lemma in_scan_blocks:
  "it \<in> set (scan_blocks test ms) \<longleftrightarrow> (\<exists>mi. mi < length ms \<and> it \<in> set (message_items test mi (ms ! mi)))"
  unfolding scan_blocks_def by (auto simp: in_set_enumerate_eq Bex_def)

lemma test_results:
  "test_result start mi m b = Some (c, n) \<Longrightarrow> \<exists>i t. b = ToolResult i t \<and> ms_role m = ''user'' \<and> n = length t
     \<and> c = (if mi \<ge> start then ResultLast2 else Result) \<and> \<not> contains ''vc_restore_tool'' t"
  "test_image mi m b = Some (c, n) \<Longrightarrow> \<exists>k d. b = Image k d \<and> n = length d \<and> c = MediaImage"
  "test_thinking mi m b = Some (c, n) \<Longrightarrow> \<exists>s t. b = Thinking s t \<and> s \<noteq> [] \<and> n = length s \<and> c = ThinkingSig"
  "test_text mi m b = Some (c, n) \<Longrightarrow> \<exists>t. b = TextBlock t \<and> n = length t \<and> c = ConversationText"
  by (cases b; auto simp: test_result_def test_image_def test_thinking_def test_text_def split: if_splits)+

lemma in_scan_system:
  "it \<in> set (scan_system b) \<Longrightarrow> \<exists>i < length (bd_system b).
     it = \<lparr>it_place = System i, it_category = VcContext, it_size = length (bd_system b ! i)\<rparr>"
  by (auto simp: scan_system_def in_set_enumerate_eq split: if_splits)

lemma set_add_unseen: "set (add_unseen xs ys) \<subseteq> set xs \<union> set ys"
proof (induction ys arbitrary: xs)
  case (Cons y ys)
  show ?case using Cons.IH[of xs] Cons.IH[of "xs @ [y]"] by (auto simp: add_unseen_def split: if_splits)
qed (simp add: add_unseen_def)

lemma add_unseen_distinct: "distinct (map it_place xs) \<Longrightarrow> distinct (map it_place (add_unseen xs ys))"
proof (induction ys arbitrary: xs)
  case (Cons y ys)
  show ?case using Cons.prems Cons.IH[of xs] Cons.IH[of "xs @ [y]"] by (auto simp: add_unseen_def)
qed (simp add: add_unseen_def)

text \<open>The block (or text) an item was scanned from, with its size.\<close>

definition item_ok :: "body \<Rightarrow> item \<Rightarrow> bool" where
  "item_ok b it = (case it_category it of
     ThinkingSig \<Rightarrow> (\<exists>s t. block_at b (it_place it) = Some (Thinking s t) \<and> s \<noteq> [] \<and> it_size it = length s)
   | Result \<Rightarrow> (\<exists>i c. find_tool_output b (it_place it) = Some (i, c) \<and> it_size it = length c)
   | ResultLast2 \<Rightarrow> (\<exists>i c. find_tool_output b (it_place it) = Some (i, c) \<and> it_size it = length c)
   | VcContext \<Rightarrow> (\<exists>i < length (bd_system b). it_place it = System i \<and> it_size it = length (bd_system b ! i))
   | ConversationText \<Rightarrow>
       (\<exists>mi s. mi < length (bd_messages b) \<and> it_place it = Whole mi \<and> ms_content (bd_messages b ! mi) = Plain s \<and> it_size it = length s)
       \<or> (\<exists>t. block_at b (it_place it) = Some (TextBlock t) \<and> it_size it = length t)
   | MediaImage \<Rightarrow> (\<exists>m d. block_at b (it_place it) = Some (Image m d) \<and> it_size it = length d))"

lemma scan_cases:
  assumes "it \<in> set (scan_reducible_items b)"
  obtains "it \<in> set (scan_system b)"
    | "it \<in> set (scan_blocks (test_result (last2_start (bd_messages b))) (bd_messages b))"
    | "it \<in> set (scan_blocks test_image (bd_messages b))"
    | "it \<in> set (scan_blocks test_thinking (bd_messages b))"
    | mi where "mi < length (bd_messages b)" "it \<in> set (text_items mi (bd_messages b ! mi))"
  using assms
  by (auto simp: scan_reducible_items_def Let_def in_set_enumerate_eq split: if_splits dest!: subsetD[OF set_add_unseen])

lemma scan_ok:
  assumes "it \<in> set (scan_reducible_items b)"
  shows "item_ok b it"
proof -
  from assms show ?thesis
  proof (cases rule: scan_cases)
    case 1 then show ?thesis by (auto simp: item_ok_def dest!: in_scan_system)
  next
    case 2 then show ?thesis
      by (auto simp: item_ok_def in_scan_blocks in_message_items find_tool_output_def block_at_def dest!: test_results)
  next
    case 3 then show ?thesis
      by (auto simp: item_ok_def in_scan_blocks in_message_items block_at_def dest!: test_results)
  next
    case 4 then show ?thesis
      by (auto simp: item_ok_def in_scan_blocks in_message_items block_at_def dest!: test_results)
  next
    case 5 then show ?thesis
      by (auto simp: item_ok_def text_items_def in_message_items block_at_def split: content.splits if_splits dest!: test_results)
  qed
qed

section \<open>An item names one place\<close>

lemma distinct_enumerated:
  assumes "\<And>i x. distinct (map it_place (f (i, x)))"
    and tag: "\<And>i x it. it \<in> set (f (i, x)) \<Longrightarrow> tag (it_place it) = (i :: nat)"
  shows "distinct (map it_place (concat (map f (enumerate n xs))))"
proof (induction xs arbitrary: n)
  case (Cons x xs)
  have "tag p \<noteq> tag q" if p: "p \<in> it_place ` set (f (n, x))" and q: "q \<in> it_place ` set (concat (map f (enumerate (Suc n) xs)))" for p q
  proof -
    obtain i y it where "(i, y) \<in> set (enumerate (Suc n) xs)" "it \<in> set (f (i, y))" "q = it_place it" using q by auto
    then have "tag q \<ge> Suc n" using tag[of it i y] by (auto simp: in_set_enumerate_eq)
    moreover have "tag p = n" using p tag by auto
    ultimately show ?thesis by simp
  qed
  then have "it_place ` set (f (n, x)) \<inter> it_place ` set (concat (map f (enumerate (Suc n) xs))) = {}" by blast
  then show ?case using assms(1)[of n x] Cons.IH[of "Suc n"] by (simp add: image_Un)
qed simp

fun part_message :: "place \<Rightarrow> nat" where
  "part_message (Part m b) = m" | "part_message _ = 0"

fun part_block :: "place \<Rightarrow> nat" where
  "part_block (Part m b) = b" | "part_block (System i) = i" | "part_block _ = 0"

lemma distinct_scan: "distinct (map it_place (scan_reducible_items b))"
proof -
  have items: "distinct (map it_place (message_items test mi m))" for test mi m
    unfolding message_items_def by (rule distinct_enumerated[where tag = part_block]) (auto split: option.splits)
  have "distinct (map it_place (scan_blocks test ms))" for test ms
    unfolding scan_blocks_def
    by (rule distinct_enumerated[where tag = part_message]) (auto simp: in_message_items items)
  moreover have "distinct (map it_place (scan_system b))"
    unfolding scan_system_def by (rule distinct_enumerated[where tag = part_block]) auto
  moreover have "it_place ` set (scan_system b) \<inter> it_place ` set (scan_blocks test ms) = {}" for test ms
    by (auto simp: in_scan_blocks in_message_items dest!: in_scan_system)
  ultimately show ?thesis by (simp add: scan_reducible_items_def Let_def add_unseen_distinct)
qed

section \<open>The plan and its order\<close>

lemma plan_loop_prefix: "prefix (plan_loop slots deficit saved its) its"
  by (induction slots deficit saved its rule: plan_loop.induct) (auto simp: Let_def)

lemma planned_items:
  assumes "distinct (map it_place items)"
  shows "distinct (map it_place (plan_budget_reductions items deficit slots))"
    and "it \<in> set (plan_budget_reductions items deficit slots) \<Longrightarrow> it \<in> set items \<and> 0 < estimated_reduction_bytes it"
proof -
  let ?s = "sort_key plan_key (filter (\<lambda>it. estimated_reduction_bytes it > 0) items)"
  obtain r where r: "?s = plan_loop slots deficit 0 ?s @ r" using plan_loop_prefix[of slots deficit 0 ?s] by (auto simp: prefix_def)
  have "distinct (map it_place ?s)" using assms by (simp add: distinct_map inj_on_def)
  then have "distinct (map it_place (plan_loop slots deficit 0 ?s))" by (subst (asm) r) simp
  then show "distinct (map it_place (plan_budget_reductions items deficit slots))" by (simp add: plan_budget_reductions_def)
  have "set (plan_loop slots deficit 0 ?s) \<subseteq> set ?s" by (metis plan_loop_prefix set_mono_prefix)
  then show "it \<in> set (plan_budget_reductions items deficit slots) \<Longrightarrow> it \<in> set items \<and> 0 < estimated_reduction_bytes it"
    by (auto simp: plan_budget_reductions_def split: if_splits)
qed

text \<open>\<open>undisturbed x y\<close>: applying \<open>x\<close> first leaves the place of \<open>y\<close> where it was.\<close>

definition undisturbed :: "item \<Rightarrow> item \<Rightarrow> bool" where
  "undisturbed x y \<longleftrightarrow> it_place x \<noteq> it_place y
     \<and> (\<forall>m b c. it_place x = Part m b \<longrightarrow> it_place y = Part m c \<longrightarrow> c < b)"

lemma sort_reverse_undisturbed:
  assumes "distinct (map it_place xs)"
  shows "sorted_wrt undisturbed (sort_reverse apply_key xs)"
proof -
  have "sorted_wrt (\<lambda>x y. apply_key x \<ge> apply_key y) (sort_reverse apply_key xs)"
    using sorted_sort_key[of apply_key "rev xs"] by (simp add: sort_reverse_def sorted_wrt_rev sorted_map)
  moreover have "sorted_wrt (\<lambda>x y. it_place x \<noteq> it_place y) (sort_reverse apply_key xs)"
  proof -
    have "distinct (map it_place (sort_key apply_key (rev xs)))" using assms by (simp add: distinct_map)
    then have "distinct (map it_place (sort_reverse apply_key xs))" by (simp add: sort_reverse_def rev_map[symmetric])
    then show ?thesis by (auto simp: sorted_wrt_iff_nth_less distinct_conv_nth)
  qed
  ultimately have "sorted_wrt (\<lambda>x y. apply_key x \<ge> apply_key y \<and> it_place x \<noteq> it_place y) (sort_reverse apply_key xs)"
    by (simp add: sorted_wrt_iff_nth_less)
  then show ?thesis
    by (rule sorted_wrt_mono_rel[rotated]) (auto simp: undisturbed_def apply_key_def split: place.splits)
qed

lemma order_undisturbed:
  assumes "distinct (map it_place xs)"
  shows "sorted_wrt undisturbed (mutation_safe_reduction_order xs)" "set (mutation_safe_reduction_order xs) = set xs"
proof -
  have d: "distinct (map it_place (filter P xs))" for P using assms by (simp add: distinct_map inj_on_def)
  have "undisturbed x y" if "is_system x" "\<not> is_system y" for x y
    using that by (auto simp: undisturbed_def is_system_def split: place.splits)
  then show "sorted_wrt undisturbed (mutation_safe_reduction_order xs)"
    unfolding mutation_safe_reduction_order_def sorted_wrt_append
    using sort_reverse_undisturbed[OF d] by (auto simp: sort_reverse_def)
  show "set (mutation_safe_reduction_order xs) = set xs"
    by (auto simp: mutation_safe_reduction_order_def sort_reverse_def)
qed

section \<open>Edits\<close>

text \<open>What a reduction does to a body: one block, text or system block is replaced by a shorter one of the
  same shell, or a thinking block is removed; the number is the size lost.\<close>

definition block_size :: "block \<Rightarrow> nat" where
  "block_size b = (case b of TextBlock t \<Rightarrow> length t | ToolResult _ c \<Rightarrow> length c | Thinking s t \<Rightarrow> length s + length t
     | Image _ d \<Rightarrow> length d | _ \<Rightarrow> 0)"

definition content_size :: "content \<Rightarrow> nat" where
  "content_size c = (case c of Plain s \<Rightarrow> length s | Blocks bs \<Rightarrow> sum_list (map block_size bs))"

definition body_size :: "body \<Rightarrow> nat" where
  "body_size b = sum_list (map length (bd_system b)) + sum_list (map (\<lambda>m. content_size (ms_content m)) (bd_messages b))"

definition is_thinking :: "block \<Rightarrow> bool" where
  "is_thinking b = (case b of Thinking _ _ \<Rightarrow> True | _ \<Rightarrow> False)"

definition block_shell :: "block \<Rightarrow> block" where
  "block_shell b = (case b of TextBlock _ \<Rightarrow> TextBlock [] | ToolResult i _ \<Rightarrow> ToolResult i [] | Image _ _ \<Rightarrow> Image [] []
     | Thinking _ _ \<Rightarrow> Thinking [] [] | _ \<Rightarrow> b)"

text \<open>The skeleton of a message: everything but its texts and its thinking blocks.\<close>

definition message_shell :: "message \<Rightarrow> message" where
  "message_shell m = m\<lparr>ms_content := (case ms_content m of Plain _ \<Rightarrow> Plain []
     | Blocks bs \<Rightarrow> Blocks (map block_shell (filter (\<lambda>x. \<not> is_thinking x) bs)))\<rparr>"

inductive edit :: "place \<Rightarrow> int \<Rightarrow> body \<Rightarrow> body \<Rightarrow> bool" where
  edit_none: "edit p 0 b b"
| edit_block: "block_at b p = Some x \<Longrightarrow> block_shell y = block_shell x \<Longrightarrow> \<not> is_thinking x \<Longrightarrow>
    edit p (int (block_size x) - int (block_size y)) b (set_block p y b)"
| edit_thinking: "block_at b p = Some x \<Longrightarrow> is_thinking x \<Longrightarrow> edit p (int (block_size x)) b (remove_thinking_block p b)"
| edit_whole: "mi < length (bd_messages b) \<Longrightarrow> ms_content (bd_messages b ! mi) = Plain s \<Longrightarrow>
    edit (Whole mi) (int (length s) - int (length t)) b (set_content mi (Plain t) b)"
| edit_system: "i < length (bd_system b) \<Longrightarrow>
    edit (System i) (int (length (bd_system b ! i)) - int (length t)) b (b\<lparr>bd_system := (bd_system b)[i := t]\<rparr>)"

lemma block_atE:
  assumes "block_at b p = Some x"
  obtains mi bi bs where "p = Part mi bi" "mi < length (bd_messages b)" "ms_content (bd_messages b ! mi) = Blocks bs"
    "bi < length bs" "bs ! bi = x" "content_blocks (bd_messages b ! mi) = bs"
  using assms by (auto simp: block_at_def content_blocks_def split: place.splits if_splits content.splits)

lemma tool_outputE:
  assumes "find_tool_output b p = Some (i, c)"
  obtains mi bi where "p = Part mi bi" "block_at b p = Some (ToolResult i c)" "ms_role (bd_messages b ! mi) = ''user''"
  using assms by (auto simp: find_tool_output_def split: place.splits option.splits block.splits if_splits)

lemma sum_list_swap: "k < length xs \<Longrightarrow> sum_list (map f (xs[k := x])) + f (xs ! k) = sum_list (map f xs) + (f x :: nat)"
  by (induction xs arbitrary: k) (auto split: nat.splits)

lemma sum_list_remove: "k < length xs \<Longrightarrow> sum_list (map f (take k xs @ drop (Suc k) xs)) + f (xs ! k) = (sum_list (map f xs) :: nat)"
  using arg_cong[OF id_take_nth_drop, of k xs "\<lambda>l. sum_list (map f l)"] by simp

lemma map_filter_update:
  "k < length xs \<Longrightarrow> P x = P (xs ! k) \<Longrightarrow> g x = g (xs ! k) \<Longrightarrow> map g (filter P (xs[k := x])) = map g (filter P xs)"
  by (induction xs arbitrary: k) (auto split: nat.splits)

lemma filter_remove: "k < length xs \<Longrightarrow> \<not> P (xs ! k) \<Longrightarrow> filter P (take k xs @ drop (Suc k) xs) = filter P xs"
  by (induction xs arbitrary: k) (auto simp: nth_Cons' take_Cons' drop_Cons' gr0_conv_Suc)

lemma same_shell_thinking: "block_shell y = block_shell x \<Longrightarrow> is_thinking y = is_thinking x"
  by (auto simp: block_shell_def is_thinking_def split: block.splits)

lemma set_content_size:
  "mi < length (bd_messages b) \<Longrightarrow>
     body_size (set_content mi c b) + content_size (ms_content (bd_messages b ! mi)) = body_size b + content_size c"
  using sum_list_swap[of mi "bd_messages b" "\<lambda>m. content_size (ms_content m)"]
  by (simp add: body_size_def set_content_def)

lemma set_content_shell:
  "mi < length (bd_messages b) \<Longrightarrow> message_shell ((bd_messages b ! mi)\<lparr>ms_content := c\<rparr>) = message_shell (bd_messages b ! mi) \<Longrightarrow>
     map message_shell (bd_messages (set_content mi c b)) = map message_shell (bd_messages b)"
  by (simp add: set_content_def map_update list_update_same_conv)

lemma edit_ok:
  "edit p n b b' \<Longrightarrow> int (body_size b') + n = int (body_size b)
     \<and> map message_shell (bd_messages b') = map message_shell (bd_messages b) \<and> length (bd_system b') = length (bd_system b)"
proof (induction rule: edit.induct)
  case (edit_block b p x y)
  then obtain mi bi bs where p: "p = Part mi bi" "mi < length (bd_messages b)" "ms_content (bd_messages b ! mi) = Blocks bs"
    "bi < length bs" "bs ! bi = x" "content_blocks (bd_messages b ! mi) = bs" by (elim block_atE)
  have "body_size (set_block p y b) + content_size (Blocks bs) = body_size b + content_size (Blocks (bs[bi := y]))"
    using set_content_size[OF p(2), of "Blocks (bs[bi := y])"] p by (simp add: set_block_def)
  moreover have "content_size (Blocks (bs[bi := y])) + block_size x = content_size (Blocks bs) + block_size y"
    using sum_list_swap[OF p(4), of block_size y] p by (simp add: content_size_def)
  moreover have "map message_shell (bd_messages (set_block p y b)) = map message_shell (bd_messages b)"
    using p edit_block same_shell_thinking[of y x]
    by (simp add: set_block_def) (intro set_content_shell; simp add: message_shell_def map_filter_update)
  ultimately show ?case using p by (simp add: set_block_def set_content_def)
next
  case (edit_thinking b p x)
  then obtain mi bi bs where p: "p = Part mi bi" "mi < length (bd_messages b)" "ms_content (bd_messages b ! mi) = Blocks bs"
    "bi < length bs" "bs ! bi = x" "content_blocks (bd_messages b ! mi) = bs" by (elim block_atE)
  let ?r = "take bi bs @ drop (Suc bi) bs"
  have "body_size (remove_thinking_block p b) + content_size (Blocks bs) = body_size b + content_size (Blocks ?r)"
    using set_content_size[OF p(2), of "Blocks ?r"] p by (simp add: remove_thinking_block_def Let_def)
  moreover have "content_size (Blocks ?r) + block_size x = content_size (Blocks bs)"
    using sum_list_remove[OF p(4), of block_size] p by (simp add: content_size_def)
  moreover have "map message_shell (bd_messages (remove_thinking_block p b)) = map message_shell (bd_messages b)"
    using p edit_thinking filter_remove[OF p(4), of "\<lambda>x. \<not> is_thinking x"]
    by (simp add: remove_thinking_block_def Let_def) (intro set_content_shell; simp add: message_shell_def)
  ultimately show ?case using p by (simp add: remove_thinking_block_def set_content_def Let_def)
next
  case (edit_whole mi b s t)
  have "map message_shell (bd_messages (set_content mi (Plain t) b)) = map message_shell (bd_messages b)"
    using edit_whole by (intro set_content_shell) (simp_all add: message_shell_def)
  moreover have "bd_system (set_content mi (Plain t) b) = bd_system b" by (simp add: set_content_def)
  ultimately show ?case using set_content_size[of mi b "Plain t"] edit_whole by (simp add: content_size_def)
next
  case (edit_system i b t)
  then show ?case using sum_list_swap[of i "bd_system b" length t] by (simp add: body_size_def)
qed simp

section \<open>Reductions are edits\<close>

lemma vc_edit:
  assumes "reduce_vc_context it b = (n, b')"
  shows "edit (it_place it) n b b' \<and> 0 \<le> n \<and> (n = 0 \<longrightarrow> b' = b)"
proof (cases "it_place it")
  case (System i)
  show ?thesis
  proof (cases "i \<ge> length (bd_system b) \<or> length (bd_system b ! i) \<le> 500")
    case True then show ?thesis using assms System by (auto simp: reduce_vc_context_def intro: edit.intros)
  next
    case False
    then show ?thesis using assms System context_shorter[of "bd_system b ! i"] edit_system[of i b "truncated_context (bd_system b ! i)"]
      by (auto simp: reduce_vc_context_def Let_def)
  qed
qed (use assms in \<open>auto simp: reduce_vc_context_def intro: edit.intros\<close>)

lemma text_edit:
  assumes "item_ok b it" "it_category it = ConversationText" "reduce_conversation_text it b = (n, b')"
  shows "edit (it_place it) n b b' \<and> 0 \<le> n \<and> (n = 0 \<longrightarrow> b' = b)"
proof -
  consider (whole) mi s where "mi < length (bd_messages b)" "it_place it = Whole mi" "ms_content (bd_messages b ! mi) = Plain s"
    | (part) t where "block_at b (it_place it) = Some (TextBlock t)"
    using assms(1,2) by (auto simp: item_ok_def)
  then show ?thesis
  proof cases
    case whole
    show ?thesis
    proof (cases "length s \<le> 500")
      case True then show ?thesis using assms(3) whole by (auto simp: reduce_conversation_text_def intro: edit.intros)
    next
      case False
      then show ?thesis using assms(3) whole truncated_shorter[of s] edit_whole[OF whole(1,3), of "truncated_text s"]
        by (auto simp: reduce_conversation_text_def)
    qed
  next
    case part
    then obtain mi bi where p: "it_place it = Part mi bi" by (auto elim: block_atE)
    show ?thesis
    proof (cases "length t \<le> 500")
      case True then show ?thesis using assms(3) part p by (auto simp: reduce_conversation_text_def intro: edit.intros)
    next
      case False
      then show ?thesis using assms(3) part p truncated_shorter[of t] edit_block[OF part, of "TextBlock (truncated_text t)"]
        by (auto simp: reduce_conversation_text_def block_shell_def is_thinking_def block_size_def)
    qed
  qed
qed

lemma image_edit:
  assumes "reduce_image env it b = (n, b')"
  shows "edit (it_place it) n b b' \<and> 0 \<le> n \<and> (n = 0 \<longrightarrow> b' = b)"
proof (cases "\<exists>m d r. block_at b (it_place it) = Some (Image m d) \<and> \<not> (it_size it < 200000 \<and> contains ''jpeg'' (lower m))
    \<and> recompressed env d = Some r")
  case True
  then obtain m d m' d' where r: "block_at b (it_place it) = Some (Image m d)" "\<not> (it_size it < 200000 \<and> contains ''jpeg'' (lower m))"
    "recompressed env d = Some (m', d')" by auto
  have "b' = set_block (it_place it) (Image m' d') b" "n = int (length d) - int (length d')"
    using assms r by (auto simp: reduce_image_def)
  then show ?thesis using edit_block[OF r(1), of "Image m' d'"] recompressed_shorter[OF r(3)]
    by (simp add: block_shell_def is_thinking_def block_size_def)
next
  case False
  then show ?thesis using assms by (auto simp: reduce_image_def intro: edit.intros split: option.splits block.splits if_splits)
qed

lemma last2_edit:
  assumes "reduce_tool_result_last2 it b = (n, b')"
  shows "edit (it_place it) n b b' \<and> 0 \<le> n \<and> (n = 0 \<longrightarrow> b' = b)"
proof (cases "\<exists>i c. find_tool_output b (it_place it) = Some (i, c) \<and> 500 < length c")
  case True
  then obtain i c where r: "find_tool_output b (it_place it) = Some (i, c)" "500 < length c" by auto
  have "block_at b (it_place it) = Some (ToolResult i c)" using r(1) by (elim tool_outputE)
  from edit_block[OF this, of "ToolResult i (truncated_text c)"] show ?thesis
    using assms r truncated_shorter[OF r(2)]
    by (auto simp: reduce_tool_result_last2_def block_shell_def is_thinking_def block_size_def)
next
  case False
  then show ?thesis using assms
    by (auto simp: reduce_tool_result_last2_def intro: edit.intros split: option.splits if_splits)
qed

lemma thinking_edit:
  assumes "item_ok b it" "it_category it = ThinkingSig" "reduce_thinking_sig it b = (n, b')"
  shows "edit (it_place it) n b b' \<and> 0 < n"
proof -
  obtain s t where r: "block_at b (it_place it) = Some (Thinking s t)" "s \<noteq> []" using assms(1,2) by (auto simp: item_ok_def)
  show ?thesis using edit_thinking[OF r(1)] assms(3) r by (auto simp: neq_Nil_conv reduce_thinking_sig_def is_thinking_def block_size_def)
qed

lemma result_edit:
  assumes "item_ok b it" "it_category it = Result" "0 < estimated_reduction_bytes it" "\<And>c. length (en_sha12 env c) = 12"
    and "reduce_tool_result env it b st = (n, b', st')"
  shows "edit (it_place it) n b b' \<and> 0 < n"
proof -
  obtain i c where r: "find_tool_output b (it_place it) = Some (i, c)" "it_size it = length c" using assms(1,2) by (auto simp: item_ok_def)
  have "block_at b (it_place it) = Some (ToolResult i c)" using r(1) by (elim tool_outputE)
  from edit_block[OF this, of "ToolResult i (stub_text (output_ref env c))"] show ?thesis
    using assms(2,3,5) r stub_length[OF assms(4), of c]
    by (auto simp: reduce_tool_result_def Let_def estimated_reduction_bytes_def block_shell_def is_thinking_def block_size_def)
qed

lemma apply_edit:
  assumes "item_ok b it" "0 < estimated_reduction_bytes it" "\<And>c. length (en_sha12 env c) = 12"
    and "apply_reduction env it b st = (n, b', st')"
  shows "edit (it_place it) n b b' \<and> 0 \<le> n \<and> (n = 0 \<longrightarrow> b' = b)"
proof (cases "it_category it")
  case ThinkingSig
  then show ?thesis using thinking_edit[OF assms(1)] assms(4) by (auto simp: apply_reduction_def split: prod.splits)
next
  case Result
  then show ?thesis using result_edit[OF assms(1) _ assms(2,3)] assms(4) by (fastforce simp: apply_reduction_def)
qed (use vc_edit text_edit[OF assms(1)] image_edit last2_edit assms(4) in \<open>auto simp: apply_reduction_def split: prod.splits\<close>)

section \<open>An edit leaves the other places alone\<close>

definition same_at :: "body \<Rightarrow> body \<Rightarrow> place \<Rightarrow> bool" where
  "same_at b b' p = (case p of
     System i \<Rightarrow> length (bd_system b') = length (bd_system b) \<and> bd_system b' ! i = bd_system b ! i
   | Whole mi \<Rightarrow> length (bd_messages b') = length (bd_messages b) \<and> ms_content (bd_messages b' ! mi) = ms_content (bd_messages b ! mi)
   | Part mi bi \<Rightarrow> block_at b' p = block_at b p \<and> ms_role (bd_messages b' ! mi) = ms_role (bd_messages b ! mi))"

lemma no_block [simp]: "block_at b (System i) = None" "block_at b (Whole i) = None"
  by (simp_all add: block_at_def)

lemma item_ok_same: "same_at b b' (it_place it) \<Longrightarrow> item_ok b it \<Longrightarrow> item_ok b' it"
  by (cases "it_place it"; cases "it_category it") (auto simp: item_ok_def same_at_def find_tool_output_def split: option.splits block.splits if_splits)

lemma set_content_part:
  assumes "mi < length (bd_messages b)"
  shows "block_at (set_content mi c b) (Part mj bj) = (if mj = mi
      then (case c of Plain _ \<Rightarrow> None | Blocks bs \<Rightarrow> if bj < length bs then Some (bs ! bj) else None) else block_at b (Part mj bj))"
    and "ms_role (bd_messages (set_content mi c b) ! mj) = ms_role (bd_messages b ! mj)"
  using assms by (auto simp: set_content_def block_at_def content_blocks_def nth_list_update split: content.splits)

lemma edit_same:
  assumes "edit p n b b'" "item_ok b it" "p \<noteq> it_place it"
    and "\<And>m i j. p = Part m i \<Longrightarrow> it_place it = Part m j \<Longrightarrow> j < i"
  shows "same_at b b' (it_place it)"
  using assms
proof (induction rule: edit.induct)
  case (edit_block b p x y)
  from edit_block(1) obtain mi bi bs where p: "p = Part mi bi" "mi < length (bd_messages b)"
    "ms_content (bd_messages b ! mi) = Blocks bs" "bi < length bs" "content_blocks (bd_messages b ! mi) = bs" by (elim block_atE)
  note set = set_content_part[OF p(2), where c = "Blocks (bs[bi := y])"]
  show ?case
  proof (cases "it_place it")
    case (System i) then show ?thesis by (simp add: same_at_def set_block_def set_content_def p)
  next
    case (Whole mj)
    then have "mj \<noteq> mi" using edit_block(4) p by (auto simp: item_ok_def block_at_def find_tool_output_def split: category.splits)
    then show ?thesis using Whole by (simp add: same_at_def set_block_def set_content_def p)
  next
    case (Part mj bj)
    have "mj = mi \<Longrightarrow> block_at b (Part mj bj) = (if bj < length bs then Some (bs ! bj) else None)" using p by (simp add: block_at_def)
    then show ?thesis using Part edit_block(5) p set(1)[of mj bj] set(2)[of mj] by (auto simp: same_at_def set_block_def)
  qed
next
  case (edit_thinking b p x)
  from edit_thinking(1) obtain mi bi bs where p: "p = Part mi bi" "mi < length (bd_messages b)"
    "ms_content (bd_messages b ! mi) = Blocks bs" "bi < length bs" "content_blocks (bd_messages b ! mi) = bs" by (elim block_atE)
  note set = set_content_part[OF p(2), where c = "Blocks (take bi bs @ drop (Suc bi) bs)"]
  show ?case
  proof (cases "it_place it")
    case (System i) then show ?thesis by (simp add: same_at_def remove_thinking_block_def set_content_def p Let_def)
  next
    case (Whole mj)
    then have "mj \<noteq> mi" using edit_thinking(3) p by (auto simp: item_ok_def block_at_def find_tool_output_def split: category.splits)
    then show ?thesis using Whole by (simp add: same_at_def remove_thinking_block_def set_content_def p Let_def)
  next
    case (Part mj bj)
    have "mj = mi \<Longrightarrow> bj < bi" using edit_thinking(5) Part p by simp
    moreover have "mj = mi \<Longrightarrow> block_at b (Part mj bj) = (if bj < length bs then Some (bs ! bj) else None)" using p by (simp add: block_at_def)
    ultimately show ?thesis using Part p set(1)[of mj bj] set(2)[of mj]
      by (auto simp: same_at_def remove_thinking_block_def Let_def nth_append)
  qed
next
  case (edit_whole mi b s t)
  have none: "block_at b (Part mi bj) = None" for bj using edit_whole by (simp add: block_at_def content_blocks_def)
  show ?case
  proof (cases "it_place it")
    case (System i) then show ?thesis by (simp add: same_at_def set_content_def)
  next
    case (Whole mj) then show ?thesis using edit_whole by (simp add: same_at_def set_content_def)
  next
    case (Part mj bj)
    then show ?thesis using set_content_part[OF edit_whole(1), where c = "Plain t"] none by (auto simp: same_at_def)
  qed
next
  case (edit_system i b t)
  then show ?case by (auto simp: same_at_def block_at_def split: place.splits)
qed (simp add: same_at_def split: place.splits)

section \<open>Invariants of the enforcement\<close>

lemma same_at_trans: "same_at a b p \<Longrightarrow> same_at b c p \<Longrightarrow> same_at a c p"
  by (auto simp: same_at_def split: place.splits)

lemma same_at_refl [simp]: "same_at b b p"
  by (simp add: same_at_def split: place.splits)

definition after_step :: "budget_run \<Rightarrow> int \<Rightarrow> body \<Rightarrow> tool_output list option \<Rightarrow> budget_run" where
  "after_step p n b st = \<lparr>pg_body = b, pg_store = st,
     pg_reductions = (if n \<le> 0 then pg_reductions p else pg_reductions p + 1),
     pg_freed = (if n \<le> 0 then pg_freed p else pg_freed p + n)\<rparr>"

text \<open>One step of a plan that was made for the body \<open>b0\<close>.\<close>

definition planned_step :: "budget_env \<Rightarrow> body \<Rightarrow> item \<Rightarrow> budget_run \<Rightarrow> budget_run \<Rightarrow> bool" where
  "planned_step env b0 it p p' \<longleftrightarrow> (\<exists>n b st.
     apply_reduction env it (pg_body p) (pg_store p) = (n, b, st) \<and> p' = after_step p n b st
     \<and> it \<in> set (scan_reducible_items b0) \<and> 0 < estimated_reduction_bytes it
     \<and> same_at b0 (pg_body p) (it_place it) \<and> pg_reductions p < max_total_reductions
     \<and> edit (it_place it) n (pg_body p) b \<and> 0 \<le> n \<and> (n = 0 \<longrightarrow> b = pg_body p))"

lemma apply_planned_invariant:
  assumes sha: "\<And>c. length (en_sha12 env c) = 12"
    and "\<forall>it\<in>set its. it \<in> set (scan_reducible_items b0) \<and> 0 < estimated_reduction_bytes it \<and> same_at b0 (pg_body p) (it_place it)"
    and "sorted_wrt undisturbed its" "pg_reductions p < max_total_reductions" "I p"
    and step: "\<And>it p p'. I p \<Longrightarrow> planned_step env b0 it p p' \<Longrightarrow> I p'"
  shows "I (apply_planned env its p)"
  using assms(2-5)
proof (induction its arbitrary: p)
  case (Cons it its)
  obtain n b st where r: "apply_reduction env it (pg_body p) (pg_store p) = (n, b, st)" by (metis prod_cases3)
  let ?p = "after_step p n b st"
  have it: "it \<in> set (scan_reducible_items b0)" "0 < estimated_reduction_bytes it" "same_at b0 (pg_body p) (it_place it)"
    using Cons.prems(1) by auto
  note e = apply_edit[OF item_ok_same[OF it(3) scan_ok[OF it(1)]] it(2) sha r]
  have "planned_step env b0 it p ?p" unfolding planned_step_def
    by (intro exI[of _ n] exI[of _ b] exI[of _ st] conjI r refl it Cons.prems(3)) (use e in simp_all)
  then have I: "I ?p" using step Cons.prems(4) by blast
  have same: "same_at b0 b (it_place x)" if x: "x \<in> set its" for x
  proof -
    have u: "undisturbed it x" and sx: "same_at b0 (pg_body p) (it_place x)" and px: "x \<in> set (scan_reducible_items b0)"
      using x Cons.prems(1,2) by auto
    have "same_at (pg_body p) b (it_place x)"
      using u by (intro edit_same[OF conjunct1[OF e] item_ok_same[OF sx scan_ok[OF px]]]) (auto simp: undisturbed_def)
    then show ?thesis using sx same_at_trans by blast
  qed
  have body: "pg_body ?p = b" by (simp add: after_step_def)
  have rest: "I (apply_planned env its ?p)" if "pg_reductions ?p < max_total_reductions"
    using Cons.IH[of ?p] Cons.prems(1,2) same that I by (simp add: body)
  have "apply_planned env (it # its) p = (if 0 < n \<and> \<not> pg_reductions ?p < max_total_reductions then ?p else apply_planned env its ?p)"
    using r by (cases p) (auto simp: after_step_def Let_def)
  then show ?case using rest I Cons.prems(3) by (auto simp: after_step_def)
qed simp

lemma budget_invariant:
  assumes sha: "\<And>c. length (en_sha12 env c) = 12"
    and init: "I \<lparr>pg_body = b, pg_store = st, pg_reductions = 0, pg_freed = 0\<rparr>"
    and step: "\<And>q it p p'. I q \<Longrightarrow> I p \<Longrightarrow> planned_step env (pg_body q) it p p' \<Longrightarrow> I p'"
  shows "I (enforce_payload_budget env window initial st b)"
proof -
  have "I (budget_rounds env window rounds outbound p)" if "I p" for rounds outbound p
    using that
  proof (induction rounds arbitrary: outbound p)
    case (Suc rounds)
    define slots where "slots = max_total_reductions - pg_reductions p"
    define planned where "planned = plan_budget_reductions (scan_reducible_items (pg_body p)) (outbound - window) slots"
    define p' where "p' = apply_planned env (mutation_safe_reduction_order planned) p"
    have p': "I p'" if "slots \<noteq> 0"
      unfolding p'_def
    proof (rule apply_planned_invariant[OF sha])
      note planned = planned_items[OF distinct_scan[of "pg_body p"],
        where deficit = "outbound - window" and slots = slots, folded planned_def]
      show "\<forall>it\<in>set (mutation_safe_reduction_order planned). it \<in> set (scan_reducible_items (pg_body p))
          \<and> 0 < estimated_reduction_bytes it \<and> same_at (pg_body p) (pg_body p) (it_place it)"
        using planned(2) order_undisturbed(2)[OF planned(1)] by simp
      show "sorted_wrt undisturbed (mutation_safe_reduction_order planned)" by (rule order_undisturbed(1)[OF planned(1)])
      show "pg_reductions p < max_total_reductions" using that by (simp add: slots_def)
    qed (use Suc.prems step[OF Suc.prems] in auto)
    have "budget_rounds env window (Suc rounds) outbound p =
        (if outbound \<le> window \<or> slots = 0 \<or> scan_reducible_items (pg_body p) = [] \<or> planned = [] then p
         else if pg_reductions p' = pg_reductions p then p'
         else budget_rounds env window rounds (estimate_tokens env (pg_body p')) p')"
      by (simp only: budget_rounds.simps Let_def slots_def planned_def p'_def)
    then show ?case using Suc.prems p' Suc.IH by simp
  qed simp
  then show ?thesis using init by (simp add: enforce_payload_budget_def Let_def)
qed

section \<open>Tool results\<close>

definition block_results :: "block list \<Rightarrow> (string option \<times> string) list" where
  "block_results bs = concat (map (\<lambda>x. case x of ToolResult i c \<Rightarrow> [(i, c)] | _ \<Rightarrow> []) bs)"

definition tool_results :: "message \<Rightarrow> (string option \<times> string) list" where
  "tool_results m = (if ms_role m = ''user'' then block_results (content_blocks m) else [])"

definition keeps_ends :: "string \<Rightarrow> string \<Rightarrow> bool" where
  "keeps_ends c c' \<longleftrightarrow> take 200 c' = take 200 c \<and> take_last 200 c' = take_last 200 c"

text \<open>A result of the request and what became of it; \<open>rows\<close> is the table of tool outputs.\<close>

definition preserved ::
  "budget_env \<Rightarrow> tool_output list \<Rightarrow> bool \<Rightarrow> string option \<times> string \<Rightarrow> string option \<times> string \<Rightarrow> bool" where
  "preserved env rows recent x y \<longleftrightarrow> fst y = fst x \<and> (snd y = snd x
     \<or> (if recent then keeps_ends (snd x) (snd y)
        else snd y = stub_text (output_ref env (snd x))
          \<and> get_tool_output_by_ref (en_conversation env) (output_ref env (snd x)) rows = Some (snd x)))"

lemma truncated_keeps_ends: "500 < length c \<Longrightarrow> keeps_ends c (truncated_text c)"
proof -
  assume c: "500 < length c"
  obtain mid where t: "truncated_text c = take 200 c @ mid @ take_last 200 c"
    by (metis append.assoc truncated_text_def)
  show ?thesis using c by (simp add: keeps_ends_def t) (simp add: take_last_def)
qed

lemma keeps_ends_trans: "keeps_ends a b \<Longrightarrow> keeps_ends b c \<Longrightarrow> keeps_ends a c"
  by (simp add: keeps_ends_def)

lemma contains_append: "contains p s \<Longrightarrow> contains p (r @ s)"
  by (induction r) auto

lemma contains_prefix: "contains p (p @ s)"
proof -
  have "starts_with (p @ s) p" by (simp add: starts_with_def)
  then show ?thesis by (cases "p @ s") auto
qed

lemma stub_contains: "contains ''vc_restore_tool'' (stub_text ref)"
proof -
  define h where "h = ''[budget-reduced tool output ref='' @ ref @ '' | call ''"
  have "stub_text ref = h @ ''vc_restore_tool'' @ ''(ref='' @ quote_mark @ ref @ quote_mark @ '')]''"
    by (simp add: stub_text_def h_def)
  then show ?thesis by (simp only: contains_append contains_prefix)
qed

lemma stored_output_found:
  "get_tool_output_by_ref (to_conversation r) (to_ref r) (store_tool_output r rows) = Some (to_content r)"
proof -
  have "find (\<lambda>x. to_conversation x = to_conversation r \<and> to_ref x = to_ref r)
      (map (\<lambda>x. if to_ref x = to_ref r then r else x) rows) = Some r" if "\<exists>x\<in>set rows. to_ref x = to_ref r"
    using that by (induction rows) auto
  moreover have "find (\<lambda>x. to_conversation x = to_conversation r \<and> to_ref x = to_ref r) (rows @ [r]) = Some r"
    if "\<not> (\<exists>x\<in>set rows. to_ref x = to_ref r)" using that by (induction rows) auto
  ultimately show ?thesis by (simp add: get_tool_output_by_ref_def store_tool_output_def)
qed

lemma other_output_kept:
  assumes "ref \<noteq> to_ref r"
  shows "get_tool_output_by_ref conversation ref (store_tool_output r rows) = get_tool_output_by_ref conversation ref rows"
proof -
  have "map_option to_content (find (\<lambda>x. to_conversation x = conversation \<and> to_ref x = ref)
      (map (\<lambda>x. if to_ref x = to_ref r then r else x) rows))
    = map_option to_content (find (\<lambda>x. to_conversation x = conversation \<and> to_ref x = ref) rows)"
    using assms by (induction rows) auto
  moreover have "find (\<lambda>x. to_conversation x = conversation \<and> to_ref x = ref) (rows @ [r])
    = find (\<lambda>x. to_conversation x = conversation \<and> to_ref x = ref) rows"
    using assms by (induction rows) auto
  ultimately show ?thesis by (simp add: get_tool_output_by_ref_def store_tool_output_def)
qed

text \<open>Grouping reads roles and the kinds of blocks only, so it survives every edit.\<close>

lemma group_loop_map: "group_loop opens marks i (map f ms) cur tool = group_loop (opens \<circ> f) (marks \<circ> f) i ms cur tool"
  by (induction ms arbitrary: i cur tool) simp_all

lemma shell_blocks: "content_blocks (message_shell m) = map block_shell (filter (\<lambda>x. \<not> is_thinking x) (content_blocks m))"
  by (simp add: content_blocks_def message_shell_def split: content.split)

lemma shell_kinds:
  "list_ex is_tool_result (content_blocks (message_shell m)) = list_ex is_tool_result (content_blocks m)"
  "list_ex is_tool_use (content_blocks (message_shell m)) = list_ex is_tool_use (content_blocks m)"
  "ms_role (message_shell m) = ms_role m"
proof -
  have "is_tool_result (block_shell x) = is_tool_result x" "is_tool_use (block_shell x) = is_tool_use x"
    "is_thinking x \<Longrightarrow> \<not> is_tool_result x \<and> \<not> is_tool_use x" for x
    by (cases x; simp add: is_tool_result_def is_tool_use_def is_thinking_def block_shell_def)+
  then show "list_ex is_tool_result (content_blocks (message_shell m)) = list_ex is_tool_result (content_blocks m)"
    "list_ex is_tool_use (content_blocks (message_shell m)) = list_ex is_tool_use (content_blocks m)"
    unfolding shell_blocks list_ex_iff by auto
  show "ms_role (message_shell m) = ms_role m" by (simp add: message_shell_def)
qed

lemma group_shell: "group_anthropic (map message_shell ms) = group_anthropic ms"
  by (simp add: group_anthropic_def group_loop_map comp_def real_user_def[abs_def] shell_kinds)

lemma last2_shell: "map message_shell ms' = map message_shell ms \<Longrightarrow> last2_start ms' = last2_start ms"
  by (metis group_shell last2_start_def)

lemma scan_results:
  assumes "it \<in> set (scan_reducible_items b)" "it_category it \<in> {Result, ResultLast2}"
  obtains mi bi i c where "it_place it = Part mi bi" "mi < length (bd_messages b)" "block_at b (Part mi bi) = Some (ToolResult i c)"
    "ms_role (bd_messages b ! mi) = ''user''" "it_category it = (if mi \<ge> last2_start (bd_messages b) then ResultLast2 else Result)"
    "\<not> contains ''vc_restore_tool'' c"
proof -
  from assms(1) have "it \<in> set (scan_blocks (test_result (last2_start (bd_messages b))) (bd_messages b))"
    by (cases rule: scan_cases)
      (use assms(2) in \<open>auto simp: in_scan_blocks in_message_items text_items_def split: content.splits if_splits dest!: test_results in_scan_system\<close>)
  then show ?thesis by (auto simp: in_scan_blocks in_message_items block_at_def dest!: test_results intro: that)
qed

lemma block_results_split:
  "k < length bs \<Longrightarrow> block_results bs = block_results (take k bs) @ block_results [bs ! k] @ block_results (drop (Suc k) bs)"
  "k < length bs \<Longrightarrow> block_results (bs[k := y]) = block_results (take k bs) @ block_results [y] @ block_results (drop (Suc k) bs)"
  by (subst id_take_nth_drop[of k bs]; simp add: block_results_def) (simp add: block_results_def upd_conv_take_nth_drop)

lemma set_content_results:
  assumes "mi < length (bd_messages b)"
  shows "tool_results (bd_messages (set_content mi c b) ! mj) = (if mj = mi
     then (if ms_role (bd_messages b ! mi) = ''user'' then block_results (case c of Plain _ \<Rightarrow> [] | Blocks bs \<Rightarrow> bs) else [])
     else tool_results (bd_messages b ! mj))"
  using assms by (auto simp: set_content_def tool_results_def content_blocks_def)

lemma edit_results:
  assumes "edit p n b b'" "\<And>i c. block_at b p \<noteq> Some (ToolResult i c)"
  shows "tool_results (bd_messages b' ! mi) = tool_results (bd_messages b ! mi)"
  using assms
proof (induction rule: edit.induct)
  case (edit_block b p x y)
  from edit_block(1) obtain mj bj bs where p: "p = Part mj bj" "mj < length (bd_messages b)"
    "bj < length bs" "bs ! bj = x" "content_blocks (bd_messages b ! mj) = bs" by (elim block_atE)
  have "block_results [y] = []" "block_results [x] = []"
    using edit_block(1,2,4) by (auto simp: block_results_def block_shell_def split: block.splits)
  then have "block_results (bs[bj := y]) = block_results bs" using p by (simp add: block_results_split[of bj bs])
  moreover have "tool_results (bd_messages b ! mj) = (if ms_role (bd_messages b ! mj) = ''user'' then block_results bs else [])"
    by (simp add: tool_results_def p)
  ultimately show ?case using p by (simp add: set_block_def set_content_results)
next
  case (edit_thinking b p x)
  from edit_thinking(1) obtain mj bj bs where p: "p = Part mj bj" "mj < length (bd_messages b)"
    "bj < length bs" "bs ! bj = x" "content_blocks (bd_messages b ! mj) = bs" by (elim block_atE)
  have "block_results [x] = []" using edit_thinking(2) by (auto simp: block_results_def is_thinking_def split: block.splits)
  then have "block_results (take bj bs @ drop (Suc bj) bs) = block_results bs"
    using p block_results_split(1)[of bj bs] by (simp add: block_results_def)
  moreover have "tool_results (bd_messages b ! mj) = (if ms_role (bd_messages b ! mj) = ''user'' then block_results bs else [])"
    by (simp add: tool_results_def p)
  ultimately show ?case using p by (simp add: remove_thinking_block_def Let_def set_content_results)
next
  case (edit_whole mj b s t)
  then show ?case by (simp add: set_content_results) (simp add: tool_results_def content_blocks_def block_results_def)
qed simp_all

lemma set_result:
  assumes "block_at b (Part mi bi) = Some (ToolResult i c)" "ms_role (bd_messages b ! mi) = ''user''"
  obtains pre post where "tool_results (bd_messages b ! mi) = pre @ (i, c) # post"
    "\<And>mj. tool_results (bd_messages (set_block (Part mi bi) (ToolResult i c') b) ! mj)
       = (if mj = mi then pre @ (i, c') # post else tool_results (bd_messages b ! mj))"
proof -
  from assms(1) obtain bs where p: "mi < length (bd_messages b)" "bi < length bs" "bs ! bi = ToolResult i c"
    "content_blocks (bd_messages b ! mi) = bs" by (auto elim: block_atE)
  have one: "block_results [ToolResult i d] = [(i, d)]" for d by (simp add: block_results_def)
  show ?thesis
    by (rule that[of "block_results (take bi bs)" "block_results (drop (Suc bi) bs)"])
      (use p assms(2) one in \<open>simp_all add: set_block_def set_content_results block_results_split(2)\<close>,
       use p assms(2) one in \<open>simp add: tool_results_def block_results_split(1)[of bi bs]\<close>)
qed

lemma list_all2_replace:
  assumes "list_all2 P xs (pre @ y # post)"
    and "\<And>x z. x \<in> set xs \<Longrightarrow> P x z \<Longrightarrow> Q x z" "\<And>x. x \<in> set xs \<Longrightarrow> P x y \<Longrightarrow> Q x y'"
  shows "list_all2 Q xs (pre @ y' # post)"
  using assms
proof (induction pre arbitrary: xs)
  case Nil
  then obtain z zs where xs: "xs = z # zs" "P z y" "list_all2 P zs post" by (auto simp: list_all2_Cons2)
  then have "list_all2 Q zs post" by (intro list.rel_mono_strong[OF xs(3)] Nil(2)) auto
  then show ?case using xs Nil(3) by simp
next
  case (Cons a pre)
  then obtain x xs' where xs: "xs = x # xs'" "P x a" "list_all2 P xs' (pre @ y # post)" by (auto simp: list_all2_Cons2)
  then show ?case using Cons.IH[of xs'] Cons.prems(2,3) by auto
qed

section \<open>Stubbed outputs stay restorable\<close>

definition outputs_preserved :: "budget_env \<Rightarrow> message list \<Rightarrow> tool_output list \<Rightarrow> body \<Rightarrow> bool" where
  "outputs_preserved env ms rows b \<longleftrightarrow> map message_shell (bd_messages b) = map message_shell ms
     \<and> (\<forall>mi<length ms. list_all2 (preserved env rows (last2_start ms \<le> mi)) (tool_results (ms ! mi)) (tool_results (bd_messages b ! mi)))"

definition output_contents :: "message list \<Rightarrow> string set" where
  "output_contents ms = (\<Union>m\<in>set ms. snd ` set (tool_results m))"

lemma output_contents_I: "mi < length ms \<Longrightarrow> x \<in> set (tool_results (ms ! mi)) \<Longrightarrow> snd x \<in> output_contents ms"
  by (auto simp: output_contents_def)

lemma list_all2_origin: "list_all2 P xs ys \<Longrightarrow> y \<in> set ys \<Longrightarrow> \<exists>x\<in>set xs. P x y"
  by (metis in_set_conv_nth list_all2_conv_all_nth)

lemma stub_step:
  assumes pre: "outputs_preserved env ms rows b" and inj: "inj_on (en_sha12 env) (output_contents ms)"
    and mi: "mi < length ms" "mi < last2_start ms"
    and at: "block_at b (Part mi bi) = Some (ToolResult i c)" "ms_role (bd_messages b ! mi) = ''user''"
    and fresh: "\<not> contains ''vc_restore_tool'' c"
    and shell: "map message_shell (bd_messages b') = map message_shell (bd_messages b)"
    and b': "b' = set_block (Part mi bi) (ToolResult i (stub_text (output_ref env c))) b"
    and rows': "rows' = store_tool_output \<lparr>to_ref = output_ref env c, to_conversation = en_conversation env,
      to_tool = t, to_content = c\<rparr> rows"
  shows "outputs_preserved env ms rows' b'"
proof -
  obtain l r where old: "tool_results (bd_messages b ! mi) = l @ (i, c) # r"
    and new: "\<And>mj. tool_results (bd_messages b' ! mj)
       = (if mj = mi then l @ (i, stub_text (output_ref env c)) # r else tool_results (bd_messages b ! mj))"
    using set_result[OF at, of "stub_text (output_ref env c)"] unfolding b' by blast
  have all: "list_all2 (preserved env rows (last2_start ms \<le> mj)) (tool_results (ms ! mj)) (tool_results (bd_messages b ! mj))"
    if "mj < length ms" for mj using pre that by (simp add: outputs_preserved_def)
  have stored: "get_tool_output_by_ref (en_conversation env) (output_ref env c) rows' = Some c"
    using stored_output_found[of "\<lparr>to_ref = output_ref env c, to_conversation = en_conversation env, to_tool = t, to_content = c\<rparr>" rows]
    by (simp add: rows')
  have orig: "x = (i, c)" if "preserved env rows False x (i, c)" for x
    using that fresh stub_contains by (auto simp: preserved_def prod_eq_iff)
  have c: "c \<in> output_contents ms"
  proof -
    obtain x where "x \<in> set (tool_results (ms ! mi))" "preserved env rows False x (i, c)"
      using list_all2_origin[OF all[OF mi(1)], of "(i, c)"] mi(2) old by auto
    then show ?thesis using orig output_contents_I[OF mi(1)] by fastforce
  qed
  have keep: "preserved env rows' recent x z" if "preserved env rows recent x z" "snd x \<in> output_contents ms" for recent x z
  proof (cases "snd x = c")
    case True then show ?thesis using that(1) stored by (auto simp: preserved_def split: if_splits)
  next
    case False
    then have "output_ref env (snd x) \<noteq> output_ref env c" using inj that(2) c by (auto simp: output_ref_def inj_on_def)
    then show ?thesis using that(1) by (auto simp: preserved_def rows' other_output_kept split: if_splits)
  qed
  have "list_all2 (preserved env rows' (last2_start ms \<le> mj)) (tool_results (ms ! mj)) (tool_results (bd_messages b' ! mj))"
    if mj: "mj < length ms" for mj
  proof (cases "mj = mi")
    case True
    have "list_all2 (preserved env rows' False) (tool_results (ms ! mi)) (l @ (i, stub_text (output_ref env c)) # r)"
    proof (rule list_all2_replace)
      show "list_all2 (preserved env rows False) (tool_results (ms ! mi)) (l @ (i, c) # r)" using all[OF mi(1)] mi(2) old by simp
      show "preserved env rows' False x z" if "x \<in> set (tool_results (ms ! mi))" "preserved env rows False x z" for x z
        using keep that output_contents_I[OF mi(1)] by blast
      show "preserved env rows' False x (i, stub_text (output_ref env c))" if "preserved env rows False x (i, c)" for x
        using orig[OF that] stored by (simp add: preserved_def)
    qed
    then show ?thesis using True new mi(2) by simp
  next
    case False
    then show ?thesis using new[of mj] all[OF mj] keep output_contents_I[OF mj]
      by (auto intro: list.rel_mono_strong)
  qed
  then show ?thesis using pre shell by (simp add: outputs_preserved_def)
qed

lemma truncate_step:
  assumes pre: "outputs_preserved env ms rows b" and mi: "mi < length ms" "last2_start ms \<le> mi"
    and at: "block_at b (Part mi bi) = Some (ToolResult i c)" "ms_role (bd_messages b ! mi) = ''user''"
    and c: "500 < length c" and shell: "map message_shell (bd_messages b') = map message_shell (bd_messages b)"
    and b': "b' = set_block (Part mi bi) (ToolResult i (truncated_text c)) b"
  shows "outputs_preserved env ms rows b'"
proof -
  obtain l r where old: "tool_results (bd_messages b ! mi) = l @ (i, c) # r"
    and new: "\<And>mj. tool_results (bd_messages b' ! mj)
       = (if mj = mi then l @ (i, truncated_text c) # r else tool_results (bd_messages b ! mj))"
    using set_result[OF at, of "truncated_text c"] unfolding b' by blast
  have all: "list_all2 (preserved env rows (last2_start ms \<le> mj)) (tool_results (ms ! mj)) (tool_results (bd_messages b ! mj))"
    if "mj < length ms" for mj using pre that by (simp add: outputs_preserved_def)
  have "list_all2 (preserved env rows True) (tool_results (ms ! mi)) (l @ (i, truncated_text c) # r)"
  proof (rule list_all2_replace)
    show "list_all2 (preserved env rows True) (tool_results (ms ! mi)) (l @ (i, c) # r)" using all[OF mi(1)] mi(2) old by simp
    show "preserved env rows True x (i, truncated_text c)" if "preserved env rows True x (i, c)" for x
      using that truncated_keeps_ends[OF c] keeps_ends_trans by (auto simp: preserved_def)
  qed
  then show ?thesis using pre shell new all mi(2) by (simp add: outputs_preserved_def)
qed

lemma preserved_step:
  assumes init: "outputs_preserved env ms rows0 (pg_body q)" and st: "pg_store p = Some rows"
    and pre: "outputs_preserved env ms rows (pg_body p)"
    and inj: "inj_on (en_sha12 env) (output_contents ms)" and ok: "\<And>ref. en_store_ok env ref"
    and step: "planned_step env (pg_body q) it p p'"
  shows "\<exists>rows'. pg_store p' = Some rows' \<and> outputs_preserved env ms rows' (pg_body p')"
proof -
  obtain n b st' where r: "apply_reduction env it (pg_body p) (pg_store p) = (n, b, st')" "p' = after_step p n b st'"
    and it: "it \<in> set (scan_reducible_items (pg_body q))" "same_at (pg_body q) (pg_body p) (it_place it)"
    and e: "edit (it_place it) n (pg_body p) b" "n = 0 \<longrightarrow> b = pg_body p"
    using step by (auto simp: planned_step_def)
  have p': "pg_body p' = b" "pg_store p' = st'" by (simp_all add: r(2) after_step_def)
  have shell: "map message_shell (bd_messages b) = map message_shell (bd_messages (pg_body p))" using edit_ok[OF e(1)] by simp
  have len: "length (bd_messages (pg_body q)) = length ms" "last2_start (bd_messages (pg_body q)) = last2_start ms"
    using init last2_shell unfolding outputs_preserved_def by (metis length_map)+
  show ?thesis
  proof (cases "it_category it \<in> {Result, ResultLast2}")
    case True
    from scan_results[OF it(1) True] obtain mi bi i c where place: "it_place it = Part mi bi" "mi < length (bd_messages (pg_body q))"
      and at: "block_at (pg_body q) (Part mi bi) = Some (ToolResult i c)" "ms_role (bd_messages (pg_body q) ! mi) = ''user''"
      and cat: "it_category it = (if mi \<ge> last2_start (bd_messages (pg_body q)) then ResultLast2 else Result)"
      and fresh: "\<not> contains ''vc_restore_tool'' c" .
    have now: "block_at (pg_body p) (Part mi bi) = Some (ToolResult i c)" "ms_role (bd_messages (pg_body p) ! mi) = ''user''"
      using it(2) place at by (auto simp: same_at_def)
    then have found: "find_tool_output (pg_body p) (it_place it) = Some (i, c)" by (simp add: place find_tool_output_def)
    show ?thesis
    proof (cases "last2_start ms \<le> mi")
      case recent: True
      then have "st' = Some rows" "b = (if length c \<le> 500 then pg_body p else set_block (Part mi bi) (ToolResult i (truncated_text c)) (pg_body p))"
        using r(1) cat found st by (auto simp: apply_reduction_def reduce_tool_result_last2_def place len split: prod.splits if_splits)
      then show ?thesis
        using pre truncate_step[OF pre _ recent now _ shell] place(2) by (cases "length c \<le> 500") (auto simp: p' len)
    next
      case False
      then have "b = set_block (Part mi bi) (ToolResult i (stub_text (output_ref env c))) (pg_body p)"
        "st' = save_output env (pg_body p) i c (pg_store p)"
        using r(1) cat found by (auto simp: apply_reduction_def reduce_tool_result_def place len Let_def)
      then show ?thesis
        using stub_step[OF pre inj _ _ now fresh shell] place(2) False st ok by (auto simp: p' len save_output_def)
    qed
  next
    case False
    have "block_at (pg_body p) (it_place it) \<noteq> Some (ToolResult i c)" for i c
      using item_ok_same[OF it(2) scan_ok[OF it(1)]] False by (auto simp: item_ok_def split: category.splits)
    then have "outputs_preserved env ms rows b"
      using pre shell edit_results[OF e(1)] by (simp add: outputs_preserved_def)
    moreover have "st' = Some rows"
      using r(1) False st by (auto simp: apply_reduction_def split: category.splits prod.splits)
    ultimately show ?thesis by (simp add: p')
  qed
qed

section \<open>Properties\<close>


text \<open>C16: Tool outputs that enforcement replaces can be restored.  With a store that accepts its writes
  and a hash without a collision among the outputs of the request, every tool result keeps its place
  and its call: before the two most recent turns it is untouched or a stub whose ref the store resolves,
  for this conversation, to the full text; in the two most recent turns it keeps at least its first
  and last two hundred characters.\<close>

theorem stubbed_outputs_restorable:
  assumes "\<And>c. length (en_sha12 env c) = 12" and "\<And>ref. en_store_ok env ref"
    and "inj_on (en_sha12 env) (output_contents (bd_messages b))"
    and "enforce_payload_budget env window initial (Some rows) b = p"
  shows "\<exists>rows'. pg_store p = Some rows' \<and> length (bd_messages (pg_body p)) = length (bd_messages b)
    \<and> (\<forall>mi<length (bd_messages b). list_all2 (preserved env rows' (last2_start (bd_messages b) \<le> mi))
         (tool_results (bd_messages b ! mi)) (tool_results (bd_messages (pg_body p) ! mi)))"
proof -
  define I where "I p \<longleftrightarrow> (\<exists>rows'. pg_store p = Some rows' \<and> outputs_preserved env (bd_messages b) rows' (pg_body p))" for p :: budget_run
  have "I p" unfolding assms(4)[symmetric]
  proof (rule budget_invariant[OF assms(1)])
    have "list_all2 (preserved env rows recent) xs xs" for recent xs by (simp add: list.rel_refl preserved_def)
    then show "I \<lparr>pg_body = b, pg_store = Some rows, pg_reductions = 0, pg_freed = 0\<rparr>" by (simp add: I_def outputs_preserved_def)
    fix q it p p'
    assume "I q" "I p" "planned_step env (pg_body q) it p p'"
    then show "I p'" using preserved_step[OF _ _ _ assms(3,2)] unfolding I_def by blast
  qed
  then show ?thesis unfolding I_def outputs_preserved_def by (metis length_map)
qed

text \<open>C39: One text that is a little too short blocks the whole enforcement.  The planner counts a
  conversation text of 481 to 500 characters as a reduction, but the reduction declines texts up to
  500.  When the oldest candidate is such a text and its estimate covers the deficit, the plan consists
  of it alone, nothing is freed, and enforcement stops with the body unchanged and over the budget,
  whatever else could be cut.\<close>

theorem short_text_blocks_budget:
  assumes "sort_key plan_key (filter (\<lambda>it. estimated_reduction_bytes it > 0) (scan_reducible_items b)) = it # rest"
    and "it_category it = ConversationText" "it_size it \<le> 500"
    and "window < estimate_tokens env b" "estimate_tokens env b \<le> window + estimated_tokens it"
  shows "enforce_payload_budget env window None st b = \<lparr>pg_body = b, pg_store = st, pg_reductions = 0, pg_freed = 0\<rparr>"
proof -
  let ?p = "\<lparr>pg_body = b, pg_store = st, pg_reductions = 0, pg_freed = 0\<rparr>"
  have "it \<in> set (it # rest)" by simp
  then have it: "it \<in> set (scan_reducible_items b)" unfolding assms(1)[symmetric] by simp
  have "apply_reduction env it b st = (0, b, st)"
    using scan_ok[OF it] assms(2,3)
    by (cases "it_place it") (auto simp: item_ok_def apply_reduction_def reduce_conversation_text_def)
  moreover have plan: "plan_budget_reductions (scan_reducible_items b) (estimate_tokens env b - window) 200 = [it]"
    using assms(4,5) by (simp add: plan_budget_reductions_def assms(1) Let_def)
  moreover have "mutation_safe_reduction_order [it] = [it]" by (simp add: mutation_safe_reduction_order_def sort_reverse_def)
  ultimately have "apply_planned env (mutation_safe_reduction_order
      (plan_budget_reductions (scan_reducible_items b) (estimate_tokens env b - window) 200)) ?p = ?p" by simp
  moreover have "max_rescan_rounds = Suc 7" by (simp add: max_rescan_rounds_def)
  then have "enforce_payload_budget env window None st b = (if estimate_tokens env b \<le> window then ?p
      else budget_rounds env window (Suc 7) (estimate_tokens env b) ?p)"
    by (simp only: enforce_payload_budget_def Let_def option.case)
  ultimately show ?thesis unfolding budget_rounds.simps(2) by (simp add: max_total_reductions_def Let_def)
qed

text \<open>C38: A stubbed output is lost to its conversation when another one stubs the same text.  Refs are
  hashes of the content and the primary key of the table, while restoring asks for ref and conversation.
  After conversation A replaced an output, it can restore it; once conversation B replaces an equal
  output, the row belongs to B and A's stub points to nothing.\<close>

theorem shared_output_unrestorable:
  assumes "it_category x = Result" "find_tool_output b (it_place x) = Some (i, c)"
    and "it_category y = Result" "find_tool_output b2 (it_place y) = Some (j, c)"
    and "other \<noteq> en_conversation env" "\<And>ref. en_store_ok env ref"
    and "apply_reduction env x b (Some rows) = (n, b', Some rows1)"
    and "apply_reduction (env\<lparr>en_conversation := other\<rparr>) y b2 (Some rows1) = (n2, b2', Some rows2)"
  shows "find_tool_output b' (it_place x) = Some (i, stub_text (output_ref env c))
    \<and> get_tool_output_by_ref (en_conversation env) (output_ref env c) rows1 = Some c
    \<and> get_tool_output_by_ref (en_conversation env) (output_ref env c) rows2 = None"
proof -
  have ref: "output_ref (env\<lparr>en_conversation := other\<rparr>) c = output_ref env c" by (simp add: output_ref_def)
  have rows: "rows1 = store_tool_output \<lparr>to_ref = output_ref env c, to_conversation = en_conversation env,
      to_tool = tool_name b i, to_content = c\<rparr> rows"
    "rows2 = store_tool_output \<lparr>to_ref = output_ref env c, to_conversation = other, to_tool = tool_name b2 j, to_content = c\<rparr> rows1"
    "b' = set_block (it_place x) (ToolResult i (stub_text (output_ref env c))) b"
    using assms by (auto simp: apply_reduction_def reduce_tool_result_def save_output_def Let_def ref)
  have "get_tool_output_by_ref (en_conversation env) (to_ref r) (store_tool_output r s) = None"
    if "to_conversation r \<noteq> en_conversation env" for r s
    using that by (auto simp: get_tool_output_by_ref_def store_tool_output_def find_None_iff)
  then have "get_tool_output_by_ref (en_conversation env) (output_ref env c) rows2 = None"
    unfolding rows(2) using assms(5) by (metis tool_output.select_convs(1,2))
  moreover have "get_tool_output_by_ref (en_conversation env) (output_ref env c) rows1 = Some c"
    unfolding rows(1) by (metis stored_output_found tool_output.select_convs(1,2,4))
  moreover have "find_tool_output b' (it_place x) = Some (i, stub_text (output_ref env c))"
  proof -
    from assms(2) obtain mi bi where p: "it_place x = Part mi bi" "block_at b (it_place x) = Some (ToolResult i c)"
      "ms_role (bd_messages b ! mi) = ''user''" by (elim tool_outputE)
    then obtain bs where "mi < length (bd_messages b)" "bi < length bs" "content_blocks (bd_messages b ! mi) = bs"
      by (auto elim: block_atE)
    then show ?thesis using p by (simp add: rows(3) set_block_def find_tool_output_def set_content_part)
  qed
  ultimately show ?thesis by simp
qed

section \<open>A run\<close>

definition demo_env :: "string \<Rightarrow> budget_env" where
  "demo_env conversation = \<lparr>en_sha12 = (\<lambda>s. take 12 (s @ replicate 12 CHR ''0'')), en_images = (\<lambda>_. None),
     en_tokens = (\<lambda>b. body_size b div 4), en_floor = (\<lambda>_. 0), en_conversation = conversation, en_store_ok = (\<lambda>_. True)\<rparr>"

definition long_output :: string where "long_output = replicate 600 CHR ''x''"

definition demo_body :: body where
  "demo_body = \<lparr>bd_system = [], bd_messages =
     [say ''user'' [TextBlock ''q''], say ''assistant'' [ToolUse (Some ''t1'') ''run''],
      say ''user'' [ToolResult (Some ''t1'') long_output], say ''assistant'' [TextBlock ''a'']]
     @ exchange ''b'' @ exchange ''c''\<rparr>"

lemma contains_subset: "contains p s \<Longrightarrow> set p \<subseteq> set s"
proof (induction s)
  case (Cons c s)
  show ?case
  proof (cases "starts_with (c # s) p")
    case True
    then have "p = take (length p) (c # s)" by (simp add: starts_with_def)
    then show ?thesis by (metis set_take_subset)
  qed (use Cons in auto)
qed simp

lemma demo_sha: "length (en_sha12 (demo_env conversation) c) = 12"
  by (simp add: demo_env_def)

lemma long_output_facts: "length long_output = 600" "\<not> contains ''vc_restore_tool'' long_output"
  using contains_subset[of "''vc_restore_tool''" long_output] by (auto simp: long_output_def)

lemma demo_last2: "last2_start (bd_messages demo_body) = 4"
  by (simp add: last2_start_def demo_body_def exchange_def say_def group_anthropic_def real_user_def content_blocks_def is_tool_result_def)

lemma demo_scan: "scan_reducible_items demo_body = [\<lparr>it_place = Part 2 0, it_category = Result, it_size = 600\<rparr>]"
proof -
  have "scan_blocks (test_result 4) (bd_messages demo_body) = [\<lparr>it_place = Part 2 0, it_category = Result, it_size = 600\<rparr>]"
    by (simp add: scan_blocks_def message_items_def demo_body_def exchange_def say_def content_blocks_def test_result_def long_output_facts)
  moreover have "scan_blocks test_image (bd_messages demo_body) = []" "scan_blocks test_thinking (bd_messages demo_body) = []"
    by (simp_all add: scan_blocks_def message_items_def demo_body_def exchange_def say_def content_blocks_def test_image_def test_thinking_def)
  moreover have t: "concat (map (\<lambda>(mi, m). text_items mi m) (enumerate 0 (bd_messages demo_body))) = []"
    by (simp add: text_items_def skip_text_def item_text_def block_text_def demo_body_def exchange_def say_def)
  moreover have "bd_messages demo_body \<noteq> []" "bd_system demo_body = []" by (simp_all add: demo_body_def)
  ultimately show ?thesis unfolding scan_reducible_items_def Let_def demo_last2 t by (simp add: add_unseen_def scan_system_def)
qed

definition demo_ref :: string where "demo_ref = ''tool_'' @ replicate 12 CHR ''x''"

lemma demo_output_ref: "output_ref (demo_env conversation) long_output = demo_ref"
  by (simp add: output_ref_def demo_env_def long_output_def demo_ref_def)

lemma demo_stub_length: "length (stub_text demo_ref) = 98"
  by (simp add: stub_text_def quote_mark_def demo_ref_def)

definition demo_after :: body where
  "demo_after = set_block (Part 2 0) (ToolResult (Some ''t1'') (stub_text demo_ref)) demo_body"

lemma demo_found: "find_tool_output demo_body (Part 2 0) = Some (Some ''t1'', long_output)"
  by (simp add: find_tool_output_def block_at_def demo_body_def say_def content_blocks_def)

lemma demo_apply:
  "apply_reduction (demo_env conversation) \<lparr>it_place = Part 2 0, it_category = Result, it_size = 600\<rparr> demo_body (Some rows)
     = (502, demo_after, Some (store_tool_output \<lparr>to_ref = demo_ref, to_conversation = conversation,
          to_tool = ''run'', to_content = long_output\<rparr> rows))"
proof -
  have "tool_name demo_body (Some ''t1'') = ''run''"
    by (simp add: tool_name_def tool_calls_def demo_body_def exchange_def say_def content_blocks_def id_or_empty_def)
  moreover have "en_store_ok (demo_env conversation) ref" "en_conversation (demo_env conversation) = conversation" for ref
    by (simp_all add: demo_env_def)
  ultimately show ?thesis
    by (simp add: apply_reduction_def reduce_tool_result_def demo_found Let_def demo_output_ref save_output_def demo_after_def
      demo_stub_length)
qed

lemma demo_tokens: "estimate_tokens (demo_env conversation) demo_body = 151" "estimate_tokens (demo_env conversation) demo_after = 26"
  by (simp_all add: estimate_tokens_def demo_env_def demo_after_def set_block_def set_content_def body_size_def demo_body_def
    exchange_def say_def content_size_def block_size_def content_blocks_def long_output_facts demo_stub_length)

lemma rounds_within: "outbound \<le> window \<Longrightarrow> budget_rounds env window rounds outbound p = p"
  by (cases rounds) (auto simp: Let_def)

lemma demo_planned:
  "apply_planned (demo_env conversation) [\<lparr>it_place = Part 2 0, it_category = Result, it_size = 600\<rparr>]
       \<lparr>pg_body = demo_body, pg_store = Some rows, pg_reductions = 0, pg_freed = 0\<rparr>
   = \<lparr>pg_body = demo_after, pg_store = Some (store_tool_output \<lparr>to_ref = demo_ref, to_conversation = conversation,
       to_tool = ''run'', to_content = long_output\<rparr> rows), pg_reductions = 1, pg_freed = 502\<rparr>"
  by (simp add: demo_apply max_total_reductions_def)

lemma demo_enforced: "enforce_payload_budget (demo_env conversation) 100 None (Some rows) demo_body = \<lparr>pg_body = demo_after, pg_store = Some (store_tool_output \<lparr>to_ref = demo_ref, to_conversation = conversation,
       to_tool = ''run'', to_content = long_output\<rparr> rows), pg_reductions = 1, pg_freed = 502\<rparr>"
proof -
  have plan: "plan_budget_reductions (scan_reducible_items demo_body) 51 200 = [\<lparr>it_place = Part 2 0, it_category = Result, it_size = 600\<rparr>]"
    by (simp add: demo_scan plan_budget_reductions_def estimated_reduction_bytes_def Let_def)
  have order: "mutation_safe_reduction_order [\<lparr>it_place = Part 2 0, it_category = Result, it_size = 600\<rparr>]
      = [\<lparr>it_place = Part 2 0, it_category = Result, it_size = 600\<rparr>]"
    by (simp add: mutation_safe_reduction_order_def is_system_def sort_reverse_def)
  have "budget_rounds (demo_env conversation) 100 (Suc 7) 151 \<lparr>pg_body = demo_body, pg_store = Some rows, pg_reductions = 0, pg_freed = 0\<rparr>
      = apply_planned (demo_env conversation) [\<lparr>it_place = Part 2 0, it_category = Result, it_size = 600\<rparr>]
       \<lparr>pg_body = demo_body, pg_store = Some rows, pg_reductions = 0, pg_freed = 0\<rparr>"
    unfolding budget_rounds.simps(2)
    by (simp add: Let_def max_total_reductions_def demo_tokens plan order demo_planned rounds_within
      del: apply_planned.simps budget_rounds.simps) (simp add: demo_scan)
  moreover have "max_rescan_rounds = Suc 7" by (simp add: max_rescan_rounds_def)
  ultimately show ?thesis
    unfolding enforce_payload_budget_def Let_def option.case demo_tokens demo_planned by simp
qed


theorem stubbed_outputs_restorable_witness:
  "\<exists>rows. pg_store (enforce_payload_budget (demo_env ''a'') 100 None (Some []) demo_body) = Some rows
     \<and> tool_results (bd_messages demo_after ! 2) = [(Some ''t1'', stub_text demo_ref)]
     \<and> get_tool_output_by_ref ''a'' demo_ref rows = Some long_output"
proof -
  have env: "\<And>ref. en_store_ok (demo_env ''a'') ref" "en_conversation (demo_env ''a'') = ''a''" by (simp_all add: demo_env_def)
  have "output_contents (bd_messages demo_body) = {long_output}"
    by (auto simp: output_contents_def tool_results_def block_results_def demo_body_def exchange_def say_def content_blocks_def)
  then have "inj_on (en_sha12 (demo_env ''a'')) (output_contents (bd_messages demo_body))" by simp
  moreover have body: "pg_body (enforce_payload_budget (demo_env ''a'') 100 None (Some []) demo_body) = demo_after"
    by (simp add: demo_enforced)
  ultimately have inj: "inj_on (en_sha12 (demo_env ''a'')) (output_contents (bd_messages demo_body))" by simp
  have main: "\<exists>rows. pg_store (enforce_payload_budget (demo_env ''a'') 100 None (Some []) demo_body) = Some rows
      \<and> length (bd_messages demo_after) = length (bd_messages demo_body)
      \<and> (\<forall>mi<length (bd_messages demo_body). list_all2 (preserved (demo_env ''a'') rows (4 \<le> mi))
           (tool_results (bd_messages demo_body ! mi)) (tool_results (bd_messages demo_after ! mi)))"
    by (rule stubbed_outputs_restorable[OF demo_sha env(1) inj refl, of 100 None "[]", unfolded demo_last2 body])
  then obtain rows where rows: "pg_store (enforce_payload_budget (demo_env ''a'') 100 None (Some []) demo_body) = Some rows"
    and "length (bd_messages demo_after) = length (bd_messages demo_body)"
    and all: "\<forall>mi<length (bd_messages demo_body). list_all2 (preserved (demo_env ''a'') rows (4 \<le> mi))
       (tool_results (bd_messages demo_body ! mi)) (tool_results (bd_messages demo_after ! mi))"
    by (elim exE conjE)
  have len: "2 < length (bd_messages demo_body)" by (simp add: demo_body_def exchange_def)
  have res: "tool_results (bd_messages demo_body ! 2) = [(Some ''t1'', long_output)]"
    "tool_results (bd_messages demo_after ! 2) = [(Some ''t1'', stub_text demo_ref)]"
    by (simp_all add: tool_results_def block_results_def demo_after_def set_block_def set_content_def demo_body_def say_def content_blocks_def)
  have "stub_text demo_ref \<noteq> long_output" using demo_stub_length long_output_facts(1) by auto
  moreover have "preserved (demo_env ''a'') rows False (Some ''t1'', long_output) (Some ''t1'', stub_text demo_ref)"
    using all[rule_format, OF len] unfolding res by simp
  ultimately have "get_tool_output_by_ref ''a'' demo_ref rows = Some long_output"
    by (simp add: preserved_def demo_output_ref env)
  then show ?thesis using rows res(2) by (intro exI[of _ rows] conjI)
qed

theorem shared_output_unrestorable_witness:
  "get_tool_output_by_ref ''a'' demo_ref [\<lparr>to_ref = demo_ref, to_conversation = ''a'', to_tool = ''run'', to_content = long_output\<rparr>]
     = Some long_output
   \<and> get_tool_output_by_ref ''a'' demo_ref [\<lparr>to_ref = demo_ref, to_conversation = ''b'', to_tool = ''run'', to_content = long_output\<rparr>] = None"
proof -
  let ?it = "\<lparr>it_place = Part 2 0, it_category = Result, it_size = 600\<rparr>"
  have env: "\<And>ref. en_store_ok (demo_env ''a'') ref" "en_conversation (demo_env ''a'') = ''a''"
    "(demo_env ''a'')\<lparr>en_conversation := ''b''\<rparr> = demo_env ''b''" by (simp_all add: demo_env_def)
  have st: "store_tool_output \<lparr>to_ref = r, to_conversation = ''a'', to_tool = t, to_content = c\<rparr> []
      = [\<lparr>to_ref = r, to_conversation = ''a'', to_tool = t, to_content = c\<rparr>]"
    "store_tool_output \<lparr>to_ref = r, to_conversation = ''b'', to_tool = t, to_content = c\<rparr>
       [\<lparr>to_ref = r, to_conversation = ''a'', to_tool = t, to_content = c\<rparr>]
      = [\<lparr>to_ref = r, to_conversation = ''b'', to_tool = t, to_content = c\<rparr>]" for r t c
    by (simp_all add: store_tool_output_def)
  show ?thesis
    using shared_output_unrestorable[of ?it demo_body "Some ''t1''" long_output ?it demo_body "Some ''t1''" "''b''" "demo_env ''a''"
        "[]" 502 demo_after "[\<lparr>to_ref = demo_ref, to_conversation = ''a'', to_tool = ''run'', to_content = long_output\<rparr>]" 502 demo_after
        "[\<lparr>to_ref = demo_ref, to_conversation = ''b'', to_tool = ''run'', to_content = long_output\<rparr>]"]
    by (simp add: demo_found env demo_apply st demo_output_ref)
qed

text \<open>An old text of 490 characters before one of 2000: the request is two tokens over.\<close>

definition blocked_body :: body where
  "blocked_body = \<lparr>bd_system = [], bd_messages =
     [(say ''user'' [])\<lparr>ms_content := Plain (replicate 490 CHR ''x'')\<rparr>,
      (say ''assistant'' [])\<lparr>ms_content := Plain (replicate 2000 CHR ''x'')\<rparr>]\<rparr>"

theorem short_text_blocks_budget_witness:
  "enforce_payload_budget (demo_env ''a'') 620 None None blocked_body
     = \<lparr>pg_body = blocked_body, pg_store = None, pg_reductions = 0, pg_freed = 0\<rparr>
   \<and> estimate_tokens (demo_env ''a'') blocked_body = 622
   \<and> fst (apply_reduction (demo_env ''a'') \<lparr>it_place = Whole 1, it_category = ConversationText, it_size = 2000\<rparr> blocked_body None) > 1500"
proof -
  have no: "\<not> contains ''[Compacted turn'' (replicate n CHR ''x'')" for n
    using contains_subset[of "''[Compacted turn''" "replicate n CHR ''x''"] by auto
  have scan: "scan_reducible_items blocked_body =
      [\<lparr>it_place = Whole 0, it_category = ConversationText, it_size = 490\<rparr>,
       \<lparr>it_place = Whole 1, it_category = ConversationText, it_size = 2000\<rparr>]"
    by (simp add: scan_reducible_items_def blocked_body_def scan_system_def scan_blocks_def message_items_def say_def
      content_blocks_def add_unseen_def text_items_def skip_text_def item_text_def no)
  have tokens: "estimate_tokens (demo_env ''a'') blocked_body = 622"
    by (simp add: estimate_tokens_def demo_env_def body_size_def blocked_body_def content_size_def)
  have "enforce_payload_budget (demo_env ''a'') 620 None None blocked_body
     = \<lparr>pg_body = blocked_body, pg_store = None, pg_reductions = 0, pg_freed = 0\<rparr>"
    by (rule short_text_blocks_budget[where it = "\<lparr>it_place = Whole 0, it_category = ConversationText, it_size = 490\<rparr>"])
      (simp_all add: scan tokens estimated_reduction_bytes_def estimated_tokens_def plan_key_def)
  moreover have "length (decimal 1600) = 4" by (simp add: decimal.simps)
  then have "fst (apply_reduction (demo_env ''a'') \<lparr>it_place = Whole 1, it_category = ConversationText, it_size = 2000\<rparr> blocked_body None) > 1500"
    by (simp add: apply_reduction_def reduce_conversation_text_def blocked_body_def truncated_text_def blank_line_def take_last_def)
  ultimately show ?thesis using tokens by simp
qed

section \<open>Restoring what was stubbed\<close>

lemma contains_middle: "contains p (l @ p @ r)"
  by (simp add: contains_append contains_prefix)

lemma stub_contains_ref: "contains ref (stub_text ref)"
  unfolding stub_text_def by (rule contains_middle)

lemma restore_blocks_update:
  assumes "k < length bs" "bs ! k = ToolResult i c" "contains ref s"
    and "\<And>j d. (j, d) \<in> set (block_results bs) \<Longrightarrow> \<not> contains ref d"
  shows "restore_blocks ref c (bs[k := ToolResult i s]) = Some bs"
  using assms
proof (induction bs arbitrary: k)
  case (Cons b bs)
  have fresh: "\<not> contains ref d" if "(j, d) \<in> set (block_results bs)" for j d
    using Cons.prems(4)[of j d] that by (auto simp: block_results_def)
  show ?case
  proof (cases k)
    case 0
    then show ?thesis using Cons.prems(2,3) by simp
  next
    case (Suc k')
    then have "restore_blocks ref c (bs[k' := ToolResult i s]) = Some bs" using Cons.IH[of k'] Cons.prems(1-3) fresh by simp
    moreover have "\<not> contains ref d" if "b = ToolResult j d" for j d using Cons.prems(4)[of j d] that by (simp add: block_results_def)
    ultimately show ?thesis using Suc by (auto split: block.split)
  qed
qed simp

lemma restore_blocks_none: "(\<And>j d. (j, d) \<in> set (block_results bs) \<Longrightarrow> \<not> contains ref d) \<Longrightarrow> restore_blocks ref c bs = None"
proof (induction bs)
  case (Cons b bs)
  then show ?case by (fastforce simp: block_results_def split: block.split)
qed simp

lemma restore_messages_update:
  assumes "mi < length ms" "ms_role (ms ! mi) = ''user''" "ms_content (ms ! mi) = Blocks bs"
    and "k < length bs" "bs ! k = ToolResult i c" "contains ref s"
    and "\<And>m j d. m \<in> set ms \<Longrightarrow> (j, d) \<in> set (tool_results m) \<Longrightarrow> \<not> contains ref d"
  shows "restore_messages ref c (ms[mi := (ms ! mi)\<lparr>ms_content := Blocks (bs[k := ToolResult i s])\<rparr>]) = Some ms"
  using assms
proof (induction ms arbitrary: mi)
  case (Cons m ms)
  show ?case
  proof (cases mi)
    case 0
    have "\<not> contains ref d" if "(j, d) \<in> set (block_results bs)" for j d
      using Cons.prems(7)[of m j d] that Cons.prems(2,3) 0 by (simp add: tool_results_def content_blocks_def)
    then have "restore_blocks ref c (bs[k := ToolResult i s]) = Some bs"
      using Cons.prems(4-6) by (intro restore_blocks_update)
    then show ?thesis using Cons.prems(2,3) 0 by (simp add: content_blocks_def)
  next
    case (Suc mj)
    have "restore_blocks ref c (content_blocks m) = None" if "ms_role m = ''user''"
      using Cons.prems(7)[of m] that by (intro restore_blocks_none) (auto simp: tool_results_def)
    moreover have "restore_messages ref c (ms[mj := (ms ! mj)\<lparr>ms_content := Blocks (bs[k := ToolResult i s])\<rparr>]) = Some ms"
      using Cons.prems Suc by (intro Cons.IH) auto
    ultimately show ?thesis using Suc by simp
  qed
qed simp



text \<open>C40: Restoring can overwrite an unrelated output.  The search takes the first tool result that merely
  contains the ref.  When an earlier result quotes it (a listing, a log of a previous answer), that result
  is replaced by the restored text, nothing keeps its own, and the stub stays a stub.\<close>

definition quoting_body :: "string \<Rightarrow> body" where
  "quoting_body ref = \<lparr>bd_system = [], bd_messages =
     [say ''user'' [ToolResult (Some ''t1'') (''see '' @ ref)], say ''user'' [ToolResult (Some ''t2'') (stub_text ref)]]\<rparr>"


end
