(* ===== verification/Spec2Isabelle.thy ===== *)
theory Spec2Isabelle
  imports SingleIngest Enrichment TurnTagIndex Facts Paging Monitor Aliases ResequenceStore ProtectedWindow DriverFaults ConsolidationPlan RetrievalProps PayloadBudgetProps
begin

text \<open>
  This development models the conversation memory of virtual-context (src/virtual\_context): the
  durable transcript of a conversation, the reconciler that writes it, the lifecycle that decides
  who may tag, compact or delete it, and the in-memory structures built over it.

  \<^bold>\<open>How the parts interact.\<close>  A request carries a payload of messages.  The reconciler aligns it
  with the stored rows and merges the two (Alignment, Ingest, SingleIngest); rows are ordered by
  sparse sort keys (CanonicalRows, SortKeys), cut into logical turns (LogicalTurns) and kept in
  SQLite (TurnStore).  The phase gate of the same request (PhaseDriver) then reads the lifecycle
  rows (Lifecycle) and starts the background tagger (Tagger), or takes an abandoned compaction
  over; what the tagger writes feeds the turn tag index (TurnTagIndex), from which, with the tag
  scores of the stored segments (Scoring), the summaries of a request are chosen (Retrieval).  Facts, aliases, paging and
  monitoring sit beside this path; a repair tool may renumber the stored rows (Resequence), and the
  prompt sent upstream is the payload merged with a protected window of stored turns
  (ProtectedWindow), without the compacted turns and trimmed to the provider's limit (PayloadTrim,
  PayloadBudget).

  \<^bold>\<open>Theories and sources.\<close>
  \<^item> Prelude: strings, lists and option lemmas the components share.
  \<^item> CanonicalRows, LogicalTurns (core/canonical\_turns.py, types.py): rows, anchor hashes,
    \<open>partition_logical_turns\<close>, \<open>select_recent_logical_turn_rows\<close>.
  \<^item> TurnStore (storage/sqlite.py): rows and anchors of one conversation, the upsert, the
    compare-and-set upgrades and the group recomputation.
  \<^item> SortKeys, Alignment, Ingest, IngestProps, SingleIngest, Enrichment
    (core/ingest\_reconciler.py): key allocation with gap opening, \<open>_find_alignment\<close>,
    \<open>_ingest_prepared_turns_locked\<close>, \<open>ingest_single\<close>, what an enrichment may change.
  \<^item> Lifecycle, LifecycleProps (storage/sqlite.py, core/sweeper\_backlog.py,
    core/lifecycle\_epoch.py): conversation, episode and operation rows, every statement on them,
    and the step relation \<open>lc_step\<close> of arbitrary interleavings.
  \<^item> PhaseDriver, Tagger, TaggerProps, DriverProps, DriverFaults (proxy/state.py,
    core/tagging\_pipeline.py): the phase gate, self-healing, compaction entry and exit, the tagger
    loop and its compare-and-set writes.
  \<^item> TurnTagIndex (core/turn\_tag\_index.py): entries in a heap, so that aliasing between the index's
    dictionaries is explicit.
  \<^item> Facts (core/fact\_lifecycle.py, core/compaction\_fence.py): admission, supersession, fence modes.
  \<^item> Paging, Monitor (core/paging\_manager.py, core/monitor.py): the working set and its budget, the
    compaction thresholds.
  \<^item> Aliases (core/alias\_resolution.py, core/tag\_canonicalizer.py): conversation alias chains, tag
    aliases, edit distance.
  \<^item> Resequence, ResequenceStore (core/canonical\_resequence.py, storage/sqlite.py): the planner of a
    chronological renumbering and its guarded two-pass write.
  \<^item> ProtectedWindow (core/protected\_window.py): stamping and the merge of payload and stored turns.
  \<^item> Consolidation, ConsolidationProps, ConsolidationMerge, ConsolidationPlan
    (core/tag\_consolidator.py, storage/sqlite.py): merging of tag groups by union-find, the apply
    run with calls that fail or are interleaved with other writers, and its revert.
  \<^item> Scoring, ScoringProps (core/retrieval\_scoring.py, core/tag\_scoring.py): candidate sets, rank
    fusion, dampening, reserved seats.
  \<^item> Retrieval, RetrievalProps (core/retriever.py, core/judgment.py): query tags, alias groups,
    ranked summaries and their selection within the token budget.
  \<^item> PayloadTrim, PayloadTrimProps (proxy/message\_filter.py, proxy/formats.py): turn groups of a
    request, the trim to the provider's window, admission, dropping of compacted turns.
  \<^item> PayloadBudget, PayloadBudgetProps (proxy/message\_filter.py, proxy/handlers.py, storage/sqlite.py):
    \<open>enforce_payload_budget\<close>, the last resort before a request is sent: scan, plan, application order,
    reductions, the table of stubbed tool outputs and their restoring.

  \<^bold>\<open>State.\<close>  A table is a list of records, a SQL statement a filter or map over it whose row count is
  the number of rows its WHERE clause hits; unique keys and partial unique indexes are tests that
  make an insert fail.  A method that raises is a value \<open>Inl\<close> or \<open>None\<close> and leaves the state as it
  was.  Floats used as sort keys or scores are rationals; time stamps are integers or keys of a
  given order; \<open>None\<close> and the empty string are one value where the code treats them alike.

  \<^bold>\<open>What the lemmas show.\<close>  IngestProps: the ingest refines an abstract merge, keeps the store's
  invariant and the stored history, and is idempotent.  Alignment: a resend is found, and what is
  found is a true overlap.  SortKeys and Resequence: allocation never fails within its bounds, a
  plan renumbers completely and is what the store writes.  LifecycleProps: the invariant of all
  reachable lifecycle states, the finality of finished operations, and the fence around a worker
  that was taken over.  DriverProps: the phase gate reports the truth, a claimed request drains the
  queue, an abandoned compaction is finished.  Consolidation*: the merged groups are the connected
  components of the proposed ones, a revert undoes a run wherever it stopped and spares other
  writers, a plan applied without an error is what the store holds.  ScoringProps, RetrievalProps:
  fusion agrees with its signals, seats are swapped in where the boundary has a gap, a retrieval
  fits its budget and leaves nothing out that fits.  PayloadTrimProps: trimming and dropping keep
  whole groups, tool calls with their results and the recent turns.  PayloadBudgetProps: a planned
  item still names its block when it is applied, so the bytes freed are exact, the skeleton of the
  request stays, and restoring a stubbed output gives the request back.  The remaining theories give the functional
  behaviour, bounds and error behaviour of their component.  Theorems about errors state what the
  code does where that is surprising: a stale index key, a time stamp lost in a resend, a group
  that can never be tagged.

  \<^bold>\<open>Contracts.\<close>  Interfaces between components are locales (a partition of rows, the
  ordered row store, a table of turn-scoped artifacts, the turn grouping of a payload format and its
  extension by tool activity), each interpreted on the model in the theory
  that provides it.

  \<^bold>\<open>Bounds and termination.\<close>  Every function is total.  Loops carry a measure: the untagged rows of
  the tagger, the unvisited aliases of a walk, the uncovered turns of a greedy cover, the widening
  bounds of an alignment.  Fuel is used in two
  places: \<open>max_hops\<close> of the alias walk, which is the code's, and the number of tags in the
  union-find, which no path exceeds (ConsolidationMerge).

  \<^bold>\<open>Not modelled.\<close>  The HTTP proxy with the conversion between its payload formats, stubbing and chain
  collapse of tool outputs, command line, terminal and MCP
  interfaces, import adapters and LLM providers are I/O around the parts above.  Postgres, Neo4j,
  FalkorDB and file backends repeat the SQLite store's contract in other query languages.  The
  attested source lane of the reconciler, the compaction pipeline's summaries and prompt
  assembly depend on model calls, hashes and embeddings; only the parts with a logic of their own
  (fence, lifecycle, fact policy, retrieval) are here.  SHA-256, text normalisation by regular expressions,
  token counting, embedding, cosine similarity, full-text search, the judge, tag generation and ISO
  date parsing are parameters.
\<close>

end
